(* ===== verification/Prelude.thy ===== *)
theory Prelude
  imports Main "HOL-Library.Word"
begin

text \<open>
  Shared vocabulary of the development: bytes and machine words, results with errors as
  values, big-endian lengths, and the operations of Rust's standard library on strings that
  the sources call.

  A Rust string is a \<^typ>\<open>string\<close> whose characters are its UTF-8 bytes (an Isabelle
  \<^typ>\<open>char\<close> is one byte), so \<open>length\<close> is Rust's \<open>len()\<close>, and a byte above 127 is part
  of a multi-byte scalar value. A fallible function returns \<^typ>\<open>'e + 'a\<close>: \<open>Inl\<close> is the
  error, \<open>Inr\<close> the value.
\<close>

named_theorems result_simps \<open>equations for results, binds and early returns\<close>
named_theorems invariants \<open>preservation of a component's invariant by its operations\<close>

section \<open>Bytes and words\<close>

type_synonym byte = "8 word"
type_synonym u64 = "64 word"

abbreviation ccode :: "char \<Rightarrow> nat" where
  "ccode c \<equiv> of_char c"

definition byte_of_char :: "char \<Rightarrow> byte" where
  "byte_of_char c = word_of_nat (ccode c)"

definition char_of_byte :: "byte \<Rightarrow> char" where
  "char_of_byte b = char_of (unat b)"

abbreviation as_bytes :: "string \<Rightarrow> byte list" where
  "as_bytes s \<equiv> map byte_of_char s"

abbreviation of_bytes :: "byte list \<Rightarrow> string" where
  "of_bytes bs \<equiv> map char_of_byte bs"

lemma unat_byte_less [simp]: "unat (b :: byte) < 256"
  by (rule order.strict_trans2 [OF unsigned_less]) simp

lemma unat_byte_of_char [simp]: "unat (byte_of_char c) = ccode c"
  by (simp add: byte_of_char_def unat_of_nat)

lemma char_of_byte_of_char [simp]: "char_of_byte (byte_of_char c) = c"
  by (simp add: char_of_byte_def)

lemma byte_of_char_of_byte [simp]: "byte_of_char (char_of_byte b) = b"
  by (simp add: char_of_byte_def byte_of_char_def)

lemma byte_of_char_inject [simp]: "byte_of_char c = byte_of_char d \<longleftrightarrow> c = d"
  by (metis char_of_byte_of_char)

lemma byte_char_comp [simp]:
  "byte_of_char \<circ> char_of_byte = id" "char_of_byte \<circ> byte_of_char = id"
  by (auto simp: fun_eq_iff)

lemma of_bytes_as_bytes [simp]: "of_bytes (as_bytes s) = s"
  by (simp add: comp_def)

lemma as_bytes_of_bytes [simp]: "as_bytes (of_bytes bs) = bs"
  by (simp add: comp_def)

lemma as_bytes_inject [simp]: "as_bytes s = as_bytes t \<longleftrightarrow> s = t"
  by (metis of_bytes_as_bytes)

text \<open>\<open>u16::to_be_bytes\<close> and \<open>u16::from_be_bytes\<close>, on natural numbers below \<open>2 ^ 16\<close>.\<close>

definition to_be16 :: "nat \<Rightarrow> byte list" where
  "to_be16 n = [word_of_nat (n div 256), word_of_nat n]"

definition from_be16 :: "byte \<Rightarrow> byte \<Rightarrow> nat" where
  "from_be16 a b = unat a * 256 + unat b"

lemma length_to_be16 [simp]: "length (to_be16 n) = 2"
  by (simp add: to_be16_def)

lemma from_be16_less [simp]: "from_be16 a b < 65536"
  using unat_byte_less [of a] unat_byte_less [of b] unfolding from_be16_def by linarith

lemma from_be16_le [simp]: "from_be16 a b \<le> 65535"
  using from_be16_less [of a b] by linarith

lemma from_to_be16 [simp]:
  "n < 65536 \<Longrightarrow> from_be16 (word_of_nat (n div 256)) (word_of_nat n) = n"
  by (simp add: from_be16_def unat_of_nat)

lemma to_from_be16 [simp]: "to_be16 (from_be16 a b) = [a, b]"
proof -
  have "from_be16 a b div 256 = unat a" and "from_be16 a b mod 256 = unat b"
    by (simp_all add: from_be16_def)
  moreover have "(word_of_nat (from_be16 a b) :: byte) = word_of_nat (from_be16 a b mod 256)"
    by (simp add: word_unat_eq_iff unat_of_nat)
  ultimately show ?thesis by (simp add: to_be16_def)
qed

section \<open>Results\<close>

definition rbind :: "'e + 'a \<Rightarrow> ('a \<Rightarrow> 'e + 'b) \<Rightarrow> 'e + 'b" where
  "rbind m f = (case m of Inl e \<Rightarrow> Inl e | Inr x \<Rightarrow> f x)"

definition map_err :: "('e \<Rightarrow> 'f) \<Rightarrow> 'e + 'a \<Rightarrow> 'f + 'a" where
  "map_err g m = (case m of Inl e \<Rightarrow> Inl (g e) | Inr x \<Rightarrow> Inr x)"

definition ok_or :: "'a option \<Rightarrow> 'e \<Rightarrow> 'e + 'a" where
  "ok_or m e = (case m of None \<Rightarrow> Inl e | Some x \<Rightarrow> Inr x)"

text \<open>\<open>if !b { bail!(e) }\<close>\<close>

definition ensure :: "bool \<Rightarrow> 'e \<Rightarrow> 'e + unit" where
  "ensure b e = (if b then Inr () else Inl e)"

definition is_ok :: "'e + 'a \<Rightarrow> bool" where
  "is_ok m = (case m of Inl _ \<Rightarrow> False | Inr _ \<Rightarrow> True)"

lemma rbind_simps [simp, result_simps]:
  "rbind (Inl e) f = Inl e" "rbind (Inr x) f = f x"
  by (simp_all add: rbind_def)

lemma map_err_simps [simp, result_simps]:
  "map_err g (Inl e) = Inl (g e)" "map_err g (Inr x) = Inr x"
  by (simp_all add: map_err_def)

lemma ok_or_simps [simp, result_simps]:
  "ok_or None e = Inl e" "ok_or (Some x) e = Inr x"
  by (simp_all add: ok_or_def)

lemma is_ok_simps [simp, result_simps]: "is_ok (Inl e) \<longleftrightarrow> False" "is_ok (Inr x) \<longleftrightarrow> True"
  by (simp_all add: is_ok_def)

lemma rbind_eq_Inr_iff [result_simps]:
  "rbind m f = Inr y \<longleftrightarrow> (\<exists>x. m = Inr x \<and> f x = Inr y)"
  by (cases m) auto

lemma rbind_eq_Inl_iff:
  "rbind m f = Inl e \<longleftrightarrow> m = Inl e \<or> (\<exists>x. m = Inr x \<and> f x = Inl e)"
  by (cases m) auto

lemma map_err_eq_Inr_iff [simp, result_simps]: "map_err g m = Inr y \<longleftrightarrow> m = Inr y"
  by (cases m) auto

lemma ok_or_eq_Inr_iff [simp, result_simps]: "ok_or m e = Inr y \<longleftrightarrow> m = Some y"
  by (cases m) auto

lemma ensure_eq_Inr_iff [simp, result_simps]: "ensure b e = Inr u \<longleftrightarrow> b"
  by (simp add: ensure_def)

lemma ensure_True [simp]: "ensure True e = Inr ()"
  by (simp add: ensure_def)

lemma ensure_False [simp]: "ensure False e = Inl e"
  by (simp add: ensure_def)

lemma is_ok_iff: "is_ok m \<longleftrightarrow> (\<exists>x. m = Inr x)"
  by (cases m) auto

lemma not_is_ok_iff: "\<not> is_ok m \<longleftrightarrow> (\<exists>e. m = Inl e)"
  by (cases m) auto

text \<open>Collecting results, stopping at the first error.\<close>

fun try_map :: "('a \<Rightarrow> 'e + 'b) \<Rightarrow> 'a list \<Rightarrow> 'e + 'b list" where
  "try_map f [] = Inr []"
| "try_map f (x # xs) = rbind (f x) (\<lambda>y. rbind (try_map f xs) (\<lambda>ys. Inr (y # ys)))"

lemma try_map_Inr: "(\<And>x. x \<in> set xs \<Longrightarrow> f (g x) = Inr x) \<Longrightarrow> try_map f (map g xs) = Inr xs"
  by (induction xs) auto

lemma try_map_all: "try_map f xs = Inr ys \<Longrightarrow> y \<in> set ys \<Longrightarrow> \<exists>x \<in> set xs. f x = Inr y"
  by (induction xs arbitrary: ys) (auto simp: rbind_eq_Inr_iff)

text \<open>
  A step that reads and updates a state and may fail: the state after a failure is kept, since
  the code has consumed or written what it had before the error.
\<close>

type_synonym ('s, 'e, 'a) step = "'s \<Rightarrow> ('e + 'a) \<times> 's"

definition sreturn :: "'a \<Rightarrow> ('s, 'e, 'a) step" where
  "sreturn x s = (Inr x, s)"

definition sfail :: "'e \<Rightarrow> ('s, 'e, 'a) step" where
  "sfail e s = (Inl e, s)"

definition sbind :: "('s, 'e, 'a) step \<Rightarrow> ('a \<Rightarrow> ('s, 'e, 'b) step) \<Rightarrow> ('s, 'e, 'b) step" where
  "sbind m f s = (case m s of (Inl e, s') \<Rightarrow> (Inl e, s') | (Inr x, s') \<Rightarrow> f x s')"

lemma sreturn_eq [simp, result_simps]: "sreturn x s = (r, s') \<longleftrightarrow> r = Inr x \<and> s' = s"
  by (auto simp: sreturn_def)

lemma sfail_eq [simp, result_simps]: "sfail e s = (r, s') \<longleftrightarrow> r = Inl e \<and> s' = s"
  by (auto simp: sfail_def)

lemma sbind_eq_Inr_iff [result_simps]:
  "sbind m f s = (Inr y, t) \<longleftrightarrow> (\<exists>x s'. m s = (Inr x, s') \<and> f x s' = (Inr y, t))"
  by (auto simp: sbind_def split: prod.splits sum.splits)

lemma sbind_eq_Inl_iff:
  "sbind m f s = (Inl e, t) \<longleftrightarrow>
     m s = (Inl e, t) \<or> (\<exists>x s'. m s = (Inr x, s') \<and> f x s' = (Inl e, t))"
  by (auto simp: sbind_def split: prod.splits sum.splits)

lemma sbind_Inr [simp]: "m s = (Inr x, s') \<Longrightarrow> sbind m f s = f x s'"
  by (simp add: sbind_def)

lemma sbind_Inl [simp]: "m s = (Inl e, s') \<Longrightarrow> sbind m f s = (Inl e, s')"
  by (simp add: sbind_def)

lemma fst_eq_iff: "fst p = x \<longleftrightarrow> (\<exists>y. p = (x, y))"
  by (cases p) auto

definition scontext :: "('s, 'e, 'a) step \<Rightarrow> 'e \<Rightarrow> ('s, 'e, 'a) step" where
  "scontext m e s = (case m s of (Inl _, s') \<Rightarrow> (Inl e, s') | (Inr x, s') \<Rightarrow> (Inr x, s'))"

lemma scontext_eq_Inr_iff [result_simps]:
  "scontext m e s = (Inr x, s') \<longleftrightarrow> m s = (Inr x, s')"
  by (auto simp: scontext_def split: prod.splits sum.splits)

lemma scontext_Inr [simp]: "m s = (Inr x, s') \<Longrightarrow> scontext m e s = (Inr x, s')"
  by (simp add: scontext_def)

section \<open>Lists\<close>

text \<open>Writing \<open>xs\<close> into a buffer at an offset, as a \<open>ReadBuf\<close> over a subslice does.\<close>

definition put_at :: "nat \<Rightarrow> 'a list \<Rightarrow> 'a list \<Rightarrow> 'a list" where
  "put_at i xs buf = take i buf @ xs @ drop (i + length xs) buf"

lemma length_put_at [simp]:
  "i + length xs \<le> length buf \<Longrightarrow> length (put_at i xs buf) = length buf"
  by (simp add: put_at_def)

lemma take_put_at [simp]:
  "i + length xs \<le> length buf \<Longrightarrow> take (i + length xs) (put_at i xs buf) = take i buf @ xs"
  by (simp add: put_at_def)

lemma option_eqI: "(\<And>u. x = Some u \<longleftrightarrow> y = Some u) \<Longrightarrow> x = y"
  by (cases x; cases y) auto

lemma find_eq_None_iff: "find P xs = None \<longleftrightarrow> (\<forall>x \<in> set xs. \<not> P x)"
  by (auto simp: find_None_iff)

lemma find_SomeD: "find P xs = Some x \<Longrightarrow> x \<in> set xs \<and> P x"
  by (induction xs) (auto split: if_splits)

lemma distinct_map_unique:
  "distinct (map f xs) \<Longrightarrow> x \<in> set xs \<Longrightarrow> y \<in> set xs \<Longrightarrow> f x = f y \<Longrightarrow> x = y"
  by (induction xs) (auto simp: image_iff)

lemma find_unique:
  assumes "x \<in> set xs" and "P x" and "\<And>y. y \<in> set xs \<Longrightarrow> P y \<Longrightarrow> y = x"
  shows "find P xs = Some x"
proof -
  obtain y where y: "find P xs = Some y"
    using assms(1,2) by (cases "find P xs") (auto simp: find_eq_None_iff)
  with assms(3) show ?thesis by (auto dest: find_SomeD)
qed

lemma split_two:
  assumes "i \<in> set xs" and "j \<in> set xs" and "i \<noteq> j"
  shows "\<exists>as bs cs. xs = as @ i # bs @ j # cs \<or> xs = as @ j # bs @ i # cs"
proof -
  from assms(1) obtain as bs where xs: "xs = as @ i # bs" by (meson split_list)
  with assms(2,3) consider "j \<in> set as" | "j \<in> set bs" by auto
  then show ?thesis
  proof cases
    case 1
    then obtain us vs where "as = us @ j # vs" by (meson split_list)
    with xs have "xs = us @ j # vs @ i # bs" by simp
    then show ?thesis by blast
  next
    case 2
    then obtain us vs where "bs = us @ j # vs" by (meson split_list)
    with xs show ?thesis by blast
  qed
qed

section \<open>Strings of the Rust standard library\<close>

text \<open>
  \<open>str::trim\<close> removes the scalar values with the Unicode property White_Space; these are
  their UTF-8 encodings. On valid UTF-8 a byte sequence that ends with one of them ends with
  that scalar value, so trimming at the end is trimming the reversed string.
\<close>

definition ws_utf8 :: "string list" where
  "ws_utf8 = map (map char_of)
     ([[9], [10], [11], [12], [13], [32], [194, 133], [194, 160], [225, 154, 128],
       [226, 128, 128], [226, 128, 129], [226, 128, 130], [226, 128, 131], [226, 128, 132],
       [226, 128, 133], [226, 128, 134], [226, 128, 135], [226, 128, 136], [226, 128, 137],
       [226, 128, 138], [226, 128, 168], [226, 128, 169], [226, 128, 175], [226, 129, 159],
       [227, 128, 128]] :: nat list list)"

fun strip_one :: "string list \<Rightarrow> string \<Rightarrow> string option" where
  "strip_one [] s = None"
| "strip_one (p # ps) s =
     (if p \<noteq> [] \<and> take (length p) s = p then Some (drop (length p) s) else strip_one ps s)"

lemma strip_one_shorter: "strip_one ps s = Some t \<Longrightarrow> length t < length s"
proof (induction ps s rule: strip_one.induct)
  case (2 p ps s)
  then show ?case by (cases s; cases p) (auto split: if_splits)
qed simp

function strip_all :: "string list \<Rightarrow> string \<Rightarrow> string" where
  "strip_all ps s = (case strip_one ps s of None \<Rightarrow> s | Some t \<Rightarrow> strip_all ps t)"
  by pat_completeness auto
termination
  by (relation "measure (\<lambda>(ps, s). length s)") (auto dest: strip_one_shorter)

declare strip_all.simps [simp del]

definition trim :: "string \<Rightarrow> string" where
  "trim s = rev (strip_all (map rev ws_utf8) (rev (strip_all ws_utf8 s)))"

lemma strip_all_None: "strip_one ps s = None \<Longrightarrow> strip_all ps s = s"
  by (simp add: strip_all.simps)

lemma strip_all_Some: "strip_one ps s = Some t \<Longrightarrow> strip_all ps s = strip_all ps t"
  by (simp add: strip_all.simps [of ps s])

lemma strip_all_idem: "strip_all ps (strip_all ps s) = strip_all ps s"
proof (induction ps s rule: strip_all.induct)
  case (1 ps s)
  then show ?case
    by (cases "strip_one ps s") (simp_all add: strip_all_None strip_all_Some)
qed

text \<open>The ASCII subset of the same: a printable ASCII string keeps its bytes.\<close>

definition printable :: "char \<Rightarrow> bool" where
  "printable c \<longleftrightarrow> 32 < ccode c \<and> ccode c < 128"

lemma strip_one_printable:
  assumes "\<And>p. p \<in> set ps \<Longrightarrow> p \<noteq> [] \<and> \<not> printable (hd p)" and "printable c"
  shows "strip_one ps (c # s) = None"
  using assms(1)
proof (induction ps)
  case (Cons p ps)
  then have "p \<noteq> []" and "hd p \<noteq> c" using assms(2) by auto
  then have "take (length p) (c # s) \<noteq> p" by (cases p) auto
  with Cons show ?case by simp
qed simp

lemma ws_utf8_heads:
  "p \<in> set ws_utf8 \<Longrightarrow> p \<noteq> [] \<and> \<not> printable (hd p)"
  "p \<in> set (map rev ws_utf8) \<Longrightarrow> p \<noteq> [] \<and> \<not> printable (hd p)"
  by (auto simp: ws_utf8_def printable_def)

lemma trim_printable:
  assumes "s = [] \<or> printable (hd s) \<and> printable (last s)"
  shows "trim s = s"
proof (cases s)
  case Nil
  have "strip_one ws_utf8 [] = None" and "strip_one (map rev ws_utf8) [] = None"
    by (simp_all add: ws_utf8_def)
  with Nil show ?thesis by (simp add: trim_def strip_all_None)
next
  case (Cons c t)
  with assms have 1: "strip_all ws_utf8 s = s"
    using strip_one_printable [of ws_utf8 c t] ws_utf8_heads(1) by (auto intro: strip_all_None)
  have "rev s = last s # rev (butlast s)"
    using Cons by (metis append_butlast_last_id list.distinct(1) rev.simps(2) rev_rev_ident
        rev_append append_Cons append_Nil)
  with assms Cons have "strip_all (map rev ws_utf8) (rev s) = rev s"
    using strip_one_printable [of "map rev ws_utf8" "last s" "rev (butlast s)"] ws_utf8_heads(2)
    by (auto intro: strip_all_None)
  with 1 show ?thesis by (simp add: trim_def)
qed

text \<open>\<open>to_ascii_lowercase\<close> and \<open>eq_ignore_ascii_case\<close>: bytes above 127 stay.\<close>

definition lower_char :: "char \<Rightarrow> char" where
  "lower_char c = (if 65 \<le> ccode c \<and> ccode c \<le> 90 then char_of (ccode c + 32) else c)"

abbreviation to_ascii_lowercase :: "string \<Rightarrow> string" where
  "to_ascii_lowercase s \<equiv> map lower_char s"

definition eq_ignore_ascii_case :: "string \<Rightarrow> string \<Rightarrow> bool" where
  "eq_ignore_ascii_case s t \<longleftrightarrow> to_ascii_lowercase s = to_ascii_lowercase t"

lemma lower_char_idem [simp]: "lower_char (lower_char c) = lower_char c"
  by (auto simp: lower_char_def)

lemma to_ascii_lowercase_idem [simp]:
  "to_ascii_lowercase (to_ascii_lowercase s) = to_ascii_lowercase s"
  by (simp add: comp_def)

definition is_alphanumeric :: "char \<Rightarrow> bool" where
  "is_alphanumeric c \<longleftrightarrow> (48 \<le> ccode c \<and> ccode c \<le> 57) \<or> (65 \<le> ccode c \<and> ccode c \<le> 90)
     \<or> (97 \<le> ccode c \<and> ccode c \<le> 122)"

definition is_ascii :: "string \<Rightarrow> bool" where
  "is_ascii s \<longleftrightarrow> (\<forall>c \<in> set s. ccode c < 128)"

text \<open>\<open>split_once\<close>, \<open>rsplit_once\<close>, \<open>split\<close>, \<open>splitn(2, _)\<close> and \<open>join\<close>.\<close>

fun split_once :: "char \<Rightarrow> string \<Rightarrow> (string \<times> string) option" where
  "split_once d [] = None"
| "split_once d (c # s) =
     (if c = d then Some ([], s)
      else map_option (\<lambda>(a, b). (c # a, b)) (split_once d s))"

definition rsplit_once :: "char \<Rightarrow> string \<Rightarrow> (string \<times> string) option" where
  "rsplit_once d s = map_option (\<lambda>(a, b). (rev b, rev a)) (split_once d (rev s))"

fun split_on :: "char \<Rightarrow> string \<Rightarrow> string list" where
  "split_on d [] = [[]]"
| "split_on d (c # s) =
     (if c = d then [] # split_on d s
      else (case split_on d s of [] \<Rightarrow> [[c]] | w # ws \<Rightarrow> (c # w) # ws))"

fun splitn2 :: "string \<Rightarrow> string \<Rightarrow> string list" where
  "splitn2 d [] = [[]]"
| "splitn2 d (c # s) =
     (if take (length d) (c # s) = d then [[], drop (length d) (c # s)]
      else (case splitn2 d s of w # ws \<Rightarrow> (c # w) # ws | [] \<Rightarrow> [[c]]))"

fun join_with :: "string \<Rightarrow> string list \<Rightarrow> string" where
  "join_with d [] = []"
| "join_with d [w] = w"
| "join_with d (w # v # ws) = w @ d @ join_with d (v # ws)"

lemma split_once_None_iff: "split_once d s = None \<longleftrightarrow> d \<notin> set s"
  by (induction d s rule: split_once.induct) auto

lemma split_once_append: "d \<notin> set a \<Longrightarrow> split_once d (a @ d # b) = Some (a, b)"
  by (induction a) auto

lemma split_once_SomeD: "split_once d s = Some (a, b) \<Longrightarrow> s = a @ d # b \<and> d \<notin> set a"
  by (induction d s arbitrary: a rule: split_once.induct) (auto split: if_splits)

lemma rsplit_once_None_iff: "rsplit_once d s = None \<longleftrightarrow> d \<notin> set s"
  by (simp add: rsplit_once_def split_once_None_iff)

lemma rsplit_once_append: "d \<notin> set b \<Longrightarrow> rsplit_once d (a @ d # b) = Some (a, b)"
  by (simp add: rsplit_once_def split_once_append)

lemma rsplit_once_SomeD:
  assumes "rsplit_once d s = Some (a, b)"
  shows "s = a @ d # b \<and> d \<notin> set b"
proof -
  from assms have "split_once d (rev s) = Some (rev b, rev a)"
    by (auto simp: rsplit_once_def)
  then have "rev s = rev b @ d # rev a \<and> d \<notin> set b"
    by (auto dest: split_once_SomeD)
  then show ?thesis
    by (metis append.assoc append_Cons append_Nil rev.simps(2) rev_append rev_rev_ident)
qed

lemma split_on_single: "d \<notin> set s \<Longrightarrow> split_on d s = [s]"
  by (induction s) auto

lemma split_on_nonempty: "split_on d s \<noteq> []"
  by (induction s) (auto split: list.splits)

lemma split_on_append: "d \<notin> set a \<Longrightarrow> split_on d (a @ d # b) = a # split_on d b"
  by (induction a) (auto split: list.splits)

text \<open>
  \<open>from_str_radix\<close> of the unsigned integer types (and \<open>str::parse\<close>, radix 10): a lone sign is
  an error, one leading \<open>+\<close> is accepted, every other character is a digit of the radix, and a
  value above the type's maximum is an overflow error.
\<close>

definition to_digit :: "nat \<Rightarrow> char \<Rightarrow> nat option" where
  "to_digit radix c =
     (let n = ccode c;
          d = (if 48 \<le> n \<and> n \<le> 57 then n - 48
               else if 97 \<le> n \<and> n \<le> 122 then n - 87
               else if 65 \<le> n \<and> n \<le> 90 then n - 55
               else 36)
      in if d < radix then Some d else None)"

fun digits_value :: "nat \<Rightarrow> nat \<Rightarrow> nat \<Rightarrow> string \<Rightarrow> nat option" where
  "digits_value radix maxv acc [] = Some acc"
| "digits_value radix maxv acc (c # cs) =
     (case to_digit radix c of
        None \<Rightarrow> None
      | Some d \<Rightarrow> if acc * radix + d \<le> maxv then digits_value radix maxv (acc * radix + d) cs
                  else None)"

fun from_str_radix :: "nat \<Rightarrow> nat \<Rightarrow> string \<Rightarrow> nat option" where
  "from_str_radix radix maxv [] = None"
| "from_str_radix radix maxv [c] =
     (if c = CHR ''+'' \<or> c = CHR ''-'' then None else digits_value radix maxv 0 [c])"
| "from_str_radix radix maxv (c # d # cs) =
     (if c = CHR ''+'' then digits_value radix maxv 0 (d # cs)
      else digits_value radix maxv 0 (c # d # cs))"

definition parse_u16 :: "string \<Rightarrow> nat option" where
  "parse_u16 s = from_str_radix 10 65535 s"

text \<open>\<open>format!("{n}")\<close> of an unsigned integer.\<close>

fun show_nat :: "nat \<Rightarrow> string" where
  "show_nat n = (if n < 10 then [char_of (48 + n)] else show_nat (n div 10) @ [char_of (48 + n mod 10)])"

declare show_nat.simps [simp del]

text \<open>\<open>str::from_utf8\<close> succeeds on exactly these byte sequences.\<close>

definition cont_byte :: "nat \<Rightarrow> bool" where
  "cont_byte b \<longleftrightarrow> 128 \<le> b \<and> b < 192"

fun utf8_ok :: "nat list \<Rightarrow> bool" where
  "utf8_ok [] = True"
| "utf8_ok (a # bs) =
     (if a < 128 then utf8_ok bs
      else case bs of
        [] \<Rightarrow> False
      | b # cs \<Rightarrow>
          if 194 \<le> a \<and> a < 224 then cont_byte b \<and> utf8_ok cs
          else (case cs of
            [] \<Rightarrow> False
          | c # ds \<Rightarrow>
              if 224 \<le> a \<and> a < 240 then
                cont_byte b \<and> cont_byte c \<and> (a = 224 \<longrightarrow> 160 \<le> b) \<and> (a = 237 \<longrightarrow> b < 160)
                  \<and> utf8_ok ds
              else (case ds of
                [] \<Rightarrow> False
              | d # es \<Rightarrow>
                  240 \<le> a \<and> a < 245 \<and> cont_byte b \<and> cont_byte c \<and> cont_byte d
                    \<and> (a = 240 \<longrightarrow> 144 \<le> b) \<and> (a = 244 \<longrightarrow> b < 144) \<and> utf8_ok es)))"

lemma utf8_ok_ascii: "\<forall>b \<in> set bs. b < 128 \<Longrightarrow> utf8_ok bs"
  by (induction bs) auto

definition from_utf8 :: "byte list \<Rightarrow> string option" where
  "from_utf8 bs = (if utf8_ok (map unat bs) then Some (of_bytes bs) else None)"

lemma from_utf8_ascii:
  "is_ascii s \<Longrightarrow> from_utf8 (as_bytes s) = Some s"
  by (simp add: from_utf8_def is_ascii_def utf8_ok_ascii comp_def)

end
