(* ===== verification/Frame.thy ===== *)
theory Frame
  imports Prelude
begin

unbundle bit_operations_syntax

text \<open>
  Length-prefixed frames and the constant-time comparison of \<open>reverse/mod.rs\<close>.

  The sources are generic in the stream (\<open>R: AsyncRead\<close>, \<open>W: AsyncWrite\<close>), so the frame
  functions take the stream's operations as arguments. What they rely on is stated by the two
  locales \<open>exact_reader\<close> and \<open>byte_sink\<close>; the model's own streams, \<open>inbound\<close> and
  \<open>outbound\<close>, interpret them. An \<open>inbound\<close> holds the bytes that will still arrive, and
  whether the peer closes after them or falls silent; an \<open>outbound\<close> holds the bytes sent, and
  how many more the transport takes before it fails.
\<close>

section \<open>Errors and streams\<close>

datatype io_error = UnexpectedEof | InvalidInput | InvalidData | WriteZero | ConnectionReset
  | Stalled \<comment> \<open>the peer is silent: the future stays pending until a time limit drops it\<close>

record inbound =
  avail :: "byte list"
  closes :: bool

record outbound =
  sent :: "byte list"
  room :: "nat option"

definition read_exact :: "nat \<Rightarrow> (inbound, io_error, byte list) step" where
  "read_exact n r =
     (if n \<le> length (avail r)
      then (Inr (take n (avail r)), r\<lparr>avail := drop n (avail r)\<rparr>)
      else (Inl (if closes r then UnexpectedEof else Stalled), r\<lparr>avail := []\<rparr>))"

definition write_all :: "byte list \<Rightarrow> (outbound, io_error, unit) step" where
  "write_all bs w =
     (case room w of
        None \<Rightarrow> (Inr (), w\<lparr>sent := sent w @ bs\<rparr>)
      | Some k \<Rightarrow>
          if length bs \<le> k then (Inr (), w\<lparr>sent := sent w @ bs, room := Some (k - length bs)\<rparr>)
          else (Inl ConnectionReset, w\<lparr>sent := sent w @ take k bs, room := Some 0\<rparr>))"

definition flush :: "(outbound, io_error, unit) step" where
  "flush w = (Inr (), w)"

section \<open>Frames\<close>

definition MAX_TOKEN_LEN :: nat where "MAX_TOKEN_LEN = 4096"
definition MAX_NAME_LEN :: nat where "MAX_NAME_LEN = 256"

definition write_frame ::
  "(byte list \<Rightarrow> ('w, io_error, unit) step) \<Rightarrow> ('w, io_error, unit) step \<Rightarrow> byte list
    \<Rightarrow> ('w, io_error, unit) step" where
  "write_frame wr fl data =
     (if 65535 < length data then sfail InvalidInput
      else sbind (wr (to_be16 (length data))) (\<lambda>_. sbind (wr data) (\<lambda>_. fl)))"

definition read_frame ::
  "(nat \<Rightarrow> ('s, io_error, byte list) step) \<Rightarrow> nat \<Rightarrow> ('s, io_error, byte list) step" where
  "read_frame rx max_len =
     sbind (rx 2) (\<lambda>len_buf.
       let len = from_be16 (len_buf ! 0) (len_buf ! 1) in
       if max_len < len then sfail InvalidData else rx len)"

text \<open>The bytes of one frame on the wire.\<close>

definition frame_bytes :: "byte list \<Rightarrow> byte list" where
  "frame_bytes data = to_be16 (length data) @ data"

lemma length_frame_bytes [simp]: "length (frame_bytes data) = length data + 2"
  by (simp add: frame_bytes_def)

section \<open>Constant-time comparison\<close>

definition ct_diff :: "byte list \<Rightarrow> byte list \<Rightarrow> byte" where
  "ct_diff a b = fold (\<lambda>(x, y) d. d OR (x XOR y)) (zip a b) 0"

definition constant_time_eq :: "byte list \<Rightarrow> byte list \<Rightarrow> bool" where
  "constant_time_eq a b = (if length a \<noteq> length b then False else ct_diff a b = 0)"

lemma ct_fold_zero_iff:
  "fold (\<lambda>(x, y) d. d OR (x XOR y)) ps (d :: byte) = 0 \<longleftrightarrow> d = 0 \<and> (\<forall>(x, y) \<in> set ps. x = y)"
proof (induction ps arbitrary: d)
  case Nil
  show ?case by simp
next
  case (Cons p ps)
  obtain x y where "p = (x, y)" by force
  moreover have "d OR (x XOR y) = 0 \<longleftrightarrow> d = 0 \<and> x = y"
    by (metis or_eq_0_iff xor_self_eq xor.left_neutral xor.assoc xor.right_neutral)
  ultimately show ?case using Cons by auto
qed

lemma constant_time_eq_iff: "constant_time_eq a b \<longleftrightarrow> a = b"
proof (cases "length a = length b")
  case True
  then have "(\<forall>(x, y) \<in> set (zip a b). x = y) \<longleftrightarrow> a = b"
    by (induction a b rule: list_induct2) auto
  with True show ?thesis
    by (simp add: constant_time_eq_def ct_diff_def ct_fold_zero_iff)
next
  case False
  then show ?thesis by (auto simp: constant_time_eq_def)
qed

section \<open>What the frame functions rely on\<close>

text \<open>
  \<open>pend s\<close> are the bytes the stream still delivers. A read that succeeds takes exactly the
  next bytes, and it succeeds when there are enough of them.
\<close>

locale exact_reader =
  fixes rx :: "nat \<Rightarrow> ('s, io_error, byte list) step"
    and pend :: "'s \<Rightarrow> byte list"
  assumes rx_ok: "rx n s = (Inr bs, s') \<Longrightarrow> length bs = n \<and> pend s = bs @ pend s'"
    and rx_enough: "n \<le> length (pend s) \<Longrightarrow> is_ok (fst (rx n s))"
begin

lemma rx_exactly:
  assumes "pend s = xs @ ys" and "length xs = n"
  obtains s' where "rx n s = (Inr xs, s')" and "pend s' = ys"
proof -
  obtain r s' where rs: "rx n s = (r, s')" by force
  have "n \<le> length (pend s)" using assms by simp
  from rx_enough [OF this] rs obtain bs where r: "rx n s = (Inr bs, s')"
    by (auto simp: is_ok_iff)
  from rx_ok [OF r] assms have "bs = xs \<and> pend s' = ys"
    by (metis append_eq_append_conv)
  with r that [of s'] show thesis by blast
qed

lemma read_frame_written:
  assumes "pend s = frame_bytes data @ rest" and "length data \<le> max_len" and "length data \<le> 65535"
  shows "\<exists>s'. read_frame rx max_len s = (Inr data, s') \<and> pend s' = rest"
proof -
  from assms(1) have "pend s = to_be16 (length data) @ (data @ rest)"
    by (simp add: frame_bytes_def)
  then obtain s1 where 1: "rx 2 s = (Inr (to_be16 (length data)), s1)" "pend s1 = data @ rest"
    by (rule rx_exactly) simp
  obtain s2 where 2: "rx (length data) s1 = (Inr data, s2)" "pend s2 = rest"
    using 1(2) rx_exactly [of s1 data rest] by blast
  have "from_be16 (to_be16 (length data) ! 0) (to_be16 (length data) ! 1) = length data"
    using assms(3) by (simp add: to_be16_def)
  with 1 2 assms(2) show ?thesis by (auto simp: read_frame_def Let_def)
qed

lemma read_frame_sound:
  assumes "read_frame rx max_len s = (Inr data, s')"
  shows "pend s = frame_bytes data @ pend s' \<and> length data \<le> max_len \<and> length data \<le> 65535"
proof -
  from assms obtain lb s1 where lb: "rx 2 s = (Inr lb, s1)"
    and rest: "(let len = from_be16 (lb ! 0) (lb ! 1) in
      if max_len < len then sfail InvalidData else rx len) s1 = (Inr data, s')"
    by (auto simp: read_frame_def sbind_eq_Inr_iff)
  let ?n = "from_be16 (lb ! 0) (lb ! 1)"
  have "length lb = 2" and p: "pend s = lb @ pend s1" using rx_ok [OF lb] by auto
  then have lbe: "lb = [lb ! 0, lb ! 1]"
    by (cases lb; cases "tl lb") auto
  from rest have "?n \<le> max_len" and "rx ?n s1 = (Inr data, s')"
    by (auto simp: Let_def split: if_splits)
  moreover from rx_ok [OF this(2)] have "length data = ?n" and "pend s1 = data @ pend s'" by auto
  moreover have "?n \<le> 65535" by (rule from_be16_le)
  moreover have "lb = to_be16 ?n" by (subst lbe) simp
  ultimately show ?thesis using p by (simp add: frame_bytes_def)
qed

lemma read_frame_too_long:
  assumes "pend s = to_be16 n @ rest" and "max_len < n" and "n \<le> 65535"
  shows "\<exists>s'. read_frame rx max_len s = (Inl InvalidData, s') \<and> pend s' = rest"
proof -
  obtain s1 where "rx 2 s = (Inr (to_be16 n), s1)" "pend s1 = rest"
    using rx_exactly [OF assms(1)] by auto
  moreover have "from_be16 (to_be16 n ! 0) (to_be16 n ! 1) = n"
    using assms(3) by (simp add: to_be16_def)
  ultimately show ?thesis using assms(2) by (auto simp: read_frame_def Let_def)
qed

end

locale byte_sink =
  fixes wr :: "byte list \<Rightarrow> ('w, io_error, unit) step"
    and fl :: "('w, io_error, unit) step"
    and out :: "'w \<Rightarrow> byte list"
  assumes wr_ok: "wr bs w = (Inr u, w') \<Longrightarrow> out w' = out w @ bs"
    and wr_err: "wr bs w = (Inl e, w') \<Longrightarrow> \<exists>k < length bs. out w' = out w @ take k bs"
    and fl_out: "fl w = (r, w') \<Longrightarrow> out w' = out w"
begin

lemma write_frame_ok:
  "write_frame wr fl data w = (Inr u, w') \<Longrightarrow>
     out w' = out w @ frame_bytes data \<and> length data \<le> 65535"
  by (auto simp: write_frame_def frame_bytes_def sbind_eq_Inr_iff split: if_splits
      dest!: wr_ok fl_out)

lemma write_frame_err:
  assumes "write_frame wr fl data w = (Inl e, w')"
  shows "\<exists>k. out w' = out w @ take k (frame_bytes data)"
proof (cases "65535 < length data")
  case True
  with assms have "out w' = out w @ take 0 (frame_bytes data)" by (simp add: write_frame_def)
  then show ?thesis by blast
next
  case False
  let ?h = "to_be16 (length data)"
  from False assms consider
      (header) "wr ?h w = (Inl e, w')"
    | (body) w1 where "wr ?h w = (Inr (), w1)" "wr data w1 = (Inl e, w')"
    | (flushed) w1 w2 where "wr ?h w = (Inr (), w1)" "wr data w1 = (Inr (), w2)" "fl w2 = (Inl e, w')"
    by (auto simp: write_frame_def sbind_eq_Inl_iff)
  then show ?thesis
  proof cases
    case header
    then obtain k where "k < 2" "out w' = out w @ take k ?h" using wr_err by force
    then have "out w' = out w @ take k (frame_bytes data)" by (simp add: frame_bytes_def)
    then show ?thesis by blast
  next
    case body
    obtain k where "out w' = out w1 @ take k data" using wr_err [OF body(2)] by blast
    with wr_ok [OF body(1)] have "out w' = out w @ take (2 + k) (frame_bytes data)"
      by (simp add: frame_bytes_def)
    then show ?thesis by blast
  next
    case flushed
    with wr_ok fl_out have "out w' = out w @ take (length data + 2) (frame_bytes data)"
      by (simp add: frame_bytes_def)
    then show ?thesis by blast
  qed
qed

lemma write_frame_too_long:
  "65535 < length data \<Longrightarrow> write_frame wr fl data w = (Inl InvalidInput, w)"
  by (simp add: write_frame_def)

end

interpretation inb: exact_reader read_exact avail
  by unfold_locales (auto simp: read_exact_def split: if_splits)

interpretation outb: byte_sink write_all flush sent
proof unfold_locales
  fix bs w e w'
  assume "write_all bs w = (Inl e, w')"
  then show "\<exists>k < length bs. sent w' = sent w @ take k bs"
    by (auto simp: write_all_def not_le split: option.splits if_splits)
qed (auto simp: write_all_def flush_def split: option.splits if_splits)

section \<open>Properties\<close>

text \<open>A frame that was written is read back: whatever write_frame put on the wire, followed
  by any bytes, is read by read_frame as exactly the payload, and the bytes after the frame stay
  unread, provided the reader's limit admits the payload.\<close>
theorem frame_roundtrip:
  assumes "write_frame write_all flush data w = (Inr (), w')"
    and "avail r = drop (length (sent w)) (sent w') @ rest" and "length data \<le> max_len"
  shows "\<exists>r'. read_frame read_exact max_len r = (Inr data, r') \<and> avail r' = rest"
proof -
  from outb.write_frame_ok [OF assms(1)] have "avail r = frame_bytes data @ rest"
    and "length data \<le> 65535" using assms(2) by auto
  with assms(3) show ?thesis by (intro inb.read_frame_written)
qed

theorem frame_roundtrip_witness:
  "\<exists>r'. read_frame read_exact 4 \<lparr>avail = [0, 2, 7, 8, 9], closes = True\<rparr> = (Inr [7, 8], r')
     \<and> avail r' = [9]"
proof (rule frame_roundtrip)
  show "write_frame write_all flush [7, 8] \<lparr>sent = [1], room = None\<rparr>
    = (Inr (), \<lparr>sent = [1, 0, 2, 7, 8], room = None\<rparr>)"
    by (simp add: write_frame_def sbind_def write_all_def flush_def to_be16_def)
qed simp_all

text \<open>Writing a frame either sends the whole frame or fails: it succeeds exactly when the
  payload fits the 16-bit length and the transport takes the payload and its header; an oversized
  payload is refused before a single byte is sent, and a transport failure leaves a prefix of the
  frame on the wire.\<close>
theorem frame_write_outcome:
  "write_frame write_all flush data w =
     (if 65535 < length data then (Inl InvalidInput, w)
      else case room w of
        None \<Rightarrow> (Inr (), w\<lparr>sent := sent w @ frame_bytes data\<rparr>)
      | Some k \<Rightarrow>
          if length data + 2 \<le> k
          then (Inr (), w\<lparr>sent := sent w @ frame_bytes data, room := Some (k - (length data + 2))\<rparr>)
          else (Inl ConnectionReset, w\<lparr>sent := sent w @ take k (frame_bytes data), room := Some 0\<rparr>))"
  by (auto simp: write_frame_def sfail_def sbind_def write_all_def flush_def frame_bytes_def
      split: option.splits)

text \<open>read_frame refuses an announced length above its limit before it reads the body, so a
  peer cannot make it take in more than the limit: the body bytes are still unread.\<close>
theorem frame_read_limit:
  assumes "avail r = to_be16 n @ rest" and "max_len < n" and "n \<le> 65535"
  shows "\<exists>r'. read_frame read_exact max_len r = (Inl InvalidData, r') \<and> avail r' = rest"
  using assms by (rule inb.read_frame_too_long)

theorem frame_read_limit_witness:
  "\<exists>r'. read_frame read_exact 256 \<lparr>avail = [1, 1, 7], closes = True\<rparr> = (Inl InvalidData, r')
     \<and> avail r' = [7]"
  by (rule frame_read_limit [where n = 257]) (simp_all add: to_be16_def)

text \<open>The comparison used for tokens and pre-shared keys, which runs over the whole of both
  strings and ORs the differences of the bytes, decides equality.\<close>
theorem constant_time_eq_correct: "constant_time_eq a b \<longleftrightarrow> a = b"
  by (rule constant_time_eq_iff)

end
