(* ===== verification/Sni.thy ===== *)
theory Sni
  imports Frame
begin

text \<open>
  The SNI reader of \<open>sni.rs\<close>: one TLS record is read from the client, the ClientHello in it is
  walked with a bounds-checked cursor, and the host of its server_name extension is returned
  with the bytes consumed, for replay. \<open>Reader\<close> is a step over the bytes that are left.

  A second group of definitions is the wire format as an encoder of structured hellos; the
  parser is proved against it.
\<close>

section \<open>The cursor\<close>

datatype sni_error = NotHandshakeRecord | ImplausibleLength nat | TruncatedHeader | TruncatedRecord
  | NotClientHello | HelloSpansRecords | Malformed | RecordIo io_error | HelloTimedOut

definition RECORD_HEADER_LEN :: nat where "RECORD_HEADER_LEN = 5"
definition MAX_RECORD_BODY :: nat where "MAX_RECORD_BODY = 16 * 1024"
definition HANDSHAKE_RECORD :: byte where "HANDSHAKE_RECORD = 0x16"
definition CLIENT_HELLO :: byte where "CLIENT_HELLO = 0x01"
definition EXT_SERVER_NAME :: nat where "EXT_SERVER_NAME = 0"
definition NAME_TYPE_HOST :: byte where "NAME_TYPE_HOST = 0"

type_synonym 'a cursor = "(byte list, sni_error, 'a) step"

definition rd_take :: "nat \<Rightarrow> byte list cursor" where
  "rd_take n r = (if length r < n then (Inl Malformed, r) else (Inr (take n r), drop n r))"

definition rd_u8 :: "byte cursor" where
  "rd_u8 = sbind (rd_take 1) (\<lambda>b. sreturn (b ! 0))"

definition rd_u16 :: "nat cursor" where
  "rd_u16 = sbind (rd_take 2) (\<lambda>b. sreturn (from_be16 (b ! 0) (b ! 1)))"

definition rd_u24 :: "nat cursor" where
  "rd_u24 = sbind (rd_take 3) (\<lambda>b. sreturn (unat (b ! 0) * 65536 + unat (b ! 1) * 256 + unat (b ! 2)))"

lemma rd_take_append [simp]: "length xs = n \<Longrightarrow> rd_take n (xs @ ys) = (Inr xs, ys)"
  by (auto simp: rd_take_def)

lemma rd_take_ok: "rd_take n r = (Inr bs, r') \<Longrightarrow> r = bs @ r' \<and> length bs = n"
  by (auto simp: rd_take_def split: if_splits)

lemma rd_u8_Cons [simp]: "rd_u8 (b # r) = (Inr b, r)"
  using rd_take_append [of "[b]" 1 r] by (simp add: rd_u8_def)

lemma rd_u8_ok: "rd_u8 r = (Inr b, r') \<Longrightarrow> r = b # r'"
  by (auto simp: rd_u8_def sbind_eq_Inr_iff length_Suc_conv dest!: rd_take_ok)

lemma rd_u16_to_be16 [simp]: "n < 65536 \<Longrightarrow> rd_u16 (to_be16 n @ r) = (Inr n, r)"
  by (simp add: rd_u16_def) (simp add: to_be16_def)

lemma rd_u16_ok:
  assumes "rd_u16 r = (Inr n, r')"
  shows "r = to_be16 n @ r' \<and> n < 65536"
proof -
  from assms obtain b where "rd_take 2 r = (Inr b, r')" and n: "n = from_be16 (b ! 0) (b ! 1)"
    by (auto simp: rd_u16_def sbind_eq_Inr_iff)
  then have "r = b @ r'" and "length b = 2" by (auto dest: rd_take_ok)
  then obtain x y where "b = [x, y]" by (auto simp: length_Suc_conv numeral_2_eq_2)
  with n \<open>r = b @ r'\<close> show ?thesis by simp
qed

section \<open>Host names\<close>

text \<open>
  \<open>name.parse::<IpAddr>()\<close> is asked only of names made of letters, digits, \<open>-\<close>, \<open>.\<close> and
  \<open>_\<close>. Every textual IPv6 address contains a colon, so on those names it accepts exactly the
  dotted quads: four decimal octets of one to three digits, at most 255, no leading zero.
\<close>

definition octet_ok :: "string \<Rightarrow> bool" where
  "octet_ok p \<longleftrightarrow> 1 \<le> length p \<and> length p \<le> 3 \<and> list_all (\<lambda>c. to_digit 10 c \<noteq> None) p
     \<and> (1 < length p \<longrightarrow> hd p \<noteq> CHR ''0'') \<and> digits_value 10 255 0 p \<noteq> None"

definition is_ipv4 :: "string \<Rightarrow> bool" where
  "is_ipv4 s \<longleftrightarrow> length (split_on (CHR ''.'') s) = 4 \<and> list_all octet_ok (split_on (CHR ''.'') s)"

definition host_char :: "char \<Rightarrow> bool" where
  "host_char c \<longleftrightarrow> is_alphanumeric c \<or> c \<in> {CHR ''-'', CHR ''.'', CHR ''_''}"

definition host_name :: "byte list \<Rightarrow> string option" where
  "host_name raw =
     (case from_utf8 raw of
        None \<Rightarrow> None
      | Some name \<Rightarrow>
          let valid = name \<noteq> [] \<and> list_all host_char name in
          if valid \<and> \<not> is_ipv4 name then Some name else None)"

section \<open>Parsing\<close>

definition check_header :: "byte list \<Rightarrow> sni_error + nat" where
  "check_header header =
     (if header ! 0 \<noteq> HANDSHAKE_RECORD \<or> header ! 1 \<noteq> 3 then Inl NotHandshakeRecord
      else let len = from_be16 (header ! 3) (header ! 4) in
        if len = 0 \<or> MAX_RECORD_BODY < len then Inl (ImplausibleLength len) else Inr len)"

definition rd_name :: "(byte \<times> byte list) cursor" where
  "rd_name = sbind rd_u8 (\<lambda>name_type. sbind rd_u16 (\<lambda>len. sbind (rd_take len) (\<lambda>name.
     sreturn (name_type, name))))"

lemma rd_name_ok: "rd_name r = (Inr (t, name), r') \<Longrightarrow> r = t # to_be16 (length name) @ name @ r'"
  by (auto simp: rd_name_def sbind_eq_Inr_iff dest!: rd_u8_ok rd_u16_ok rd_take_ok)

function parse_names :: "byte list \<Rightarrow> sni_error + string option" where
  "parse_names list =
     (if list = [] then Inr None
      else case rd_name list of
        (Inl e, _) \<Rightarrow> Inl e
      | (Inr (name_type, name), rest) \<Rightarrow>
          if name_type = NAME_TYPE_HOST then Inr (host_name name) else parse_names rest)"
  by pat_completeness auto
termination
  by (relation "measure length") (auto dest!: rd_name_ok [OF sym])

declare parse_names.simps [simp del]

definition parse_server_name :: "byte list \<Rightarrow> sni_error + string option" where
  "parse_server_name data =
     rbind (fst (sbind rd_u16 (\<lambda>list_len. rd_take list_len) data)) parse_names"

definition rd_ext :: "(nat \<times> byte list) cursor" where
  "rd_ext = sbind rd_u16 (\<lambda>kind. sbind rd_u16 (\<lambda>len. sbind (rd_take len) (\<lambda>data.
     sreturn (kind, data))))"

lemma rd_ext_ok: "rd_ext r = (Inr (k, data), r') \<Longrightarrow> r = to_be16 k @ to_be16 (length data) @ data @ r'"
  by (auto simp: rd_ext_def sbind_eq_Inr_iff dest!: rd_u16_ok rd_take_ok)

function parse_exts :: "byte list \<Rightarrow> sni_error + string option" where
  "parse_exts exts =
     (if exts = [] then Inr None
      else case rd_ext exts of
        (Inl e, _) \<Rightarrow> Inl e
      | (Inr (kind, data), rest) \<Rightarrow>
          if kind = EXT_SERVER_NAME then parse_server_name data else parse_exts rest)"
  by pat_completeness auto
termination
  by (relation "measure length") (auto dest!: rd_ext_ok [OF sym])

declare parse_exts.simps [simp del]

definition skip_fixed :: "unit cursor" where
  "skip_fixed =
     sbind (rd_take 2) (\<lambda>_. sbind (rd_take 32) (\<lambda>_.
     sbind rd_u8 (\<lambda>session_id. sbind (rd_take (unat session_id)) (\<lambda>_.
     sbind rd_u16 (\<lambda>suites. sbind (rd_take suites) (\<lambda>_.
     sbind rd_u8 (\<lambda>compression. sbind (rd_take (unat compression)) (\<lambda>_. sreturn ()))))))))"

definition parse_handshake :: "byte list \<Rightarrow> sni_error + string option" where
  "parse_handshake body =
     rbind (fst (sbind rd_u8 (\<lambda>kind. if kind \<noteq> CLIENT_HELLO then sfail NotClientHello
         else sbind rd_u24 (\<lambda>hello_len. scontext (rd_take hello_len) HelloSpansRecords)) body))
       (\<lambda>hello. case skip_fixed hello of
          (Inl e, _) \<Rightarrow> Inl e
        | (Inr _, rest) \<Rightarrow>
            if rest = [] then Inr None
            else rbind (fst (sbind rd_u16 (\<lambda>ext_len. rd_take ext_len) rest)) parse_exts)"

definition parse_record :: "byte list \<Rightarrow> sni_error + string option" where
  "parse_record record =
     (if length record < RECORD_HEADER_LEN then Inl TruncatedHeader
      else rbind (check_header (take RECORD_HEADER_LEN record)) (\<lambda>body_len.
        if length record < RECORD_HEADER_LEN + body_len then Inl TruncatedRecord
        else parse_handshake (take body_len (drop RECORD_HEADER_LEN record))))"

section \<open>Reading the record from the client\<close>

record peeked =
  peeked_sni :: "string option"
  buffered :: "byte list"

definition read_record ::
  "(nat \<Rightarrow> ('s, io_error, byte list) step) \<Rightarrow> ('s, sni_error, byte list) step" where
  "read_record rx s =
     (case rx RECORD_HEADER_LEN s of
        (Inl e, s1) \<Rightarrow> (Inl (RecordIo e), s1)
      | (Inr buf, s1) \<Rightarrow>
          (case check_header buf of
             Inl e \<Rightarrow> (Inl e, s1)
           | Inr body_len \<Rightarrow>
               (case rx body_len s1 of
                  (Inl e, s2) \<Rightarrow> (Inl (RecordIo e), s2)
                | (Inr body, s2) \<Rightarrow> (Inr (buf @ body), s2))))"

text \<open>A silent peer makes the read pend; the time limit turns that into its own error.\<close>

definition peek_sni ::
  "(nat \<Rightarrow> ('s, io_error, byte list) step) \<Rightarrow> ('s, sni_error, peeked) step" where
  "peek_sni rx s =
     (case read_record rx s of
        (Inl e, s') \<Rightarrow> (Inl (if e = RecordIo Stalled then HelloTimedOut else e), s')
      | (Inr buf, s') \<Rightarrow>
          (case parse_record buf of
             Inl e \<Rightarrow> (Inl e, s')
           | Inr name \<Rightarrow> (Inr \<lparr>peeked_sni = name, buffered = buf\<rparr>, s')))"

section \<open>The wire format\<close>

text \<open>
  A ClientHello as structured data and its encoding (RFC 8446, 4.1.2, and RFC 6066, 3). An
  extension is a server_name list or any other extension; a server name is a type byte and
  the name's bytes.
\<close>

datatype extension = Server_Name "(byte \<times> byte list) list" | Other_Ext nat "byte list"

record client_hello =
  legacy_version :: "byte list"
  random :: "byte list"
  session_id :: "byte list"
  cipher_suites :: "byte list"
  compression :: "byte list"
  extensions :: "extension list option"

definition enc_name :: "byte \<times> byte list \<Rightarrow> byte list" where
  "enc_name = (\<lambda>(t, name). t # to_be16 (length name) @ name)"

definition enc_names :: "(byte \<times> byte list) list \<Rightarrow> byte list" where
  "enc_names ns = concat (map enc_name ns)"

fun ext_kind :: "extension \<Rightarrow> nat" where
  "ext_kind (Server_Name _) = EXT_SERVER_NAME"
| "ext_kind (Other_Ext k _) = k"

fun ext_data :: "extension \<Rightarrow> byte list" where
  "ext_data (Server_Name ns) = to_be16 (length (enc_names ns)) @ enc_names ns"
| "ext_data (Other_Ext _ d) = d"

definition enc_ext :: "extension \<Rightarrow> byte list" where
  "enc_ext x = to_be16 (ext_kind x) @ to_be16 (length (ext_data x)) @ ext_data x"

definition enc_exts :: "extension list \<Rightarrow> byte list" where
  "enc_exts xs = concat (map enc_ext xs)"

definition enc_hello :: "client_hello \<Rightarrow> byte list" where
  "enc_hello h = legacy_version h @ random h
     @ word_of_nat (length (session_id h)) # session_id h
     @ to_be16 (length (cipher_suites h)) @ cipher_suites h
     @ word_of_nat (length (compression h)) # compression h
     @ (case extensions h of None \<Rightarrow> []
        | Some xs \<Rightarrow> to_be16 (length (enc_exts xs)) @ enc_exts xs)"

definition enc_handshake :: "client_hello \<Rightarrow> byte list" where
  "enc_handshake h = CLIENT_HELLO # word_of_nat (length (enc_hello h) div 65536)
     # to_be16 (length (enc_hello h) mod 65536) @ enc_hello h"

definition enc_record :: "byte \<Rightarrow> client_hello \<Rightarrow> byte list" where
  "enc_record minor h = HANDSHAKE_RECORD # 3 # minor # to_be16 (length (enc_handshake h))
     @ enc_handshake h"

fun wf_ext :: "extension \<Rightarrow> bool" where
  "wf_ext (Server_Name ns) \<longleftrightarrow> length (enc_names ns) + 2 < 65536"
| "wf_ext (Other_Ext k d) \<longleftrightarrow> k \<noteq> EXT_SERVER_NAME \<and> k < 65536 \<and> length d < 65536"

definition wf_hello :: "client_hello \<Rightarrow> bool" where
  "wf_hello h \<longleftrightarrow> length (legacy_version h) = 2 \<and> length (random h) = 32
     \<and> length (session_id h) < 256 \<and> length (cipher_suites h) < 65536
     \<and> length (compression h) < 256 \<and> (\<forall>xs. extensions h = Some xs \<longrightarrow> list_all wf_ext xs)
     \<and> length (enc_handshake h) \<le> MAX_RECORD_BODY"

text \<open>The name a hello asks for: the first host entry of the first server_name extension.\<close>

fun names_sni :: "(byte \<times> byte list) list \<Rightarrow> string option" where
  "names_sni [] = None"
| "names_sni ((t, name) # ns) = (if t = NAME_TYPE_HOST then host_name name else names_sni ns)"

fun exts_sni :: "extension list \<Rightarrow> string option" where
  "exts_sni [] = None"
| "exts_sni (Server_Name ns # xs) = names_sni ns"
| "exts_sni (Other_Ext _ _ # xs) = exts_sni xs"

definition hello_sni :: "client_hello \<Rightarrow> string option" where
  "hello_sni h = (case extensions h of None \<Rightarrow> None | Some xs \<Rightarrow> exts_sni xs)"

section \<open>The parser against the format\<close>

lemma rd_name_enc:
  "length name < 65536 \<Longrightarrow> rd_name (enc_name (t, name) @ r) = (Inr (t, name), r)"
  by (simp add: rd_name_def enc_name_def)

lemma parse_names_step:
  "length name < 65536 \<Longrightarrow> parse_names (enc_name (t, name) @ r) =
     (if t = NAME_TYPE_HOST then Inr (host_name name) else parse_names r)"
  by (subst parse_names.simps) (simp add: rd_name_enc, simp add: enc_name_def)

lemma parse_names_enc:
  "length (enc_names ns) < 65536 \<Longrightarrow> parse_names (enc_names ns) = Inr (names_sni ns)"
proof (induction ns)
  case Nil
  show ?case by (simp add: enc_names_def parse_names.simps)
next
  case (Cons p ns)
  obtain t name where p: "p = (t, name)" by force
  have len: "length name < 65536" and rest: "length (enc_names ns) < 65536"
    using Cons.prems p by (auto simp: enc_names_def enc_name_def)
  have "enc_names (p # ns) = enc_name (t, name) @ enc_names ns"
    using p by (simp add: enc_names_def)
  with Cons.IH [OF rest] len p show ?case
    by (simp add: parse_names_step)
qed

lemma parse_server_name_enc:
  "wf_ext (Server_Name ns) \<Longrightarrow> parse_server_name (ext_data (Server_Name ns)) = Inr (names_sni ns)"
  using rd_take_append [of "enc_names ns" "length (enc_names ns)" "[]"]
  by (simp add: parse_server_name_def parse_names_enc)

lemma wf_ext_bounds: "wf_ext x \<Longrightarrow> ext_kind x < 65536 \<and> length (ext_data x) < 65536"
  by (cases x) (auto simp: EXT_SERVER_NAME_def)

lemma rd_ext_enc: "wf_ext x \<Longrightarrow> rd_ext (enc_ext x @ r) = (Inr (ext_kind x, ext_data x), r)"
  using wf_ext_bounds [of x] by (simp add: rd_ext_def enc_ext_def)

lemma parse_exts_step:
  assumes "wf_ext x"
  shows "parse_exts (enc_ext x @ r) =
     (if ext_kind x = EXT_SERVER_NAME then parse_server_name (ext_data x) else parse_exts r)"
proof -
  have "enc_ext x \<noteq> []" by (simp add: enc_ext_def to_be16_def)
  with rd_ext_enc [OF assms] show ?thesis by (subst parse_exts.simps) simp
qed

lemma parse_exts_enc: "list_all wf_ext xs \<Longrightarrow> parse_exts (enc_exts xs) = Inr (exts_sni xs)"
proof (induction xs)
  case Nil
  show ?case by (simp add: enc_exts_def parse_exts.simps)
next
  case (Cons x xs)
  have "enc_exts (x # xs) = enc_ext x @ enc_exts xs"
    by (simp add: enc_exts_def)
  with Cons parse_exts_step [of x "enc_exts xs"] show ?case
    by (cases x) (simp_all add: parse_server_name_enc del: ext_data.simps(1))
qed

lemma rd_u24_enc:
  assumes "n < 16777216"
  shows "rd_u24 (word_of_nat (n div 65536) # to_be16 (n mod 65536) @ r) = (Inr n, r)"
proof -
  have "n div 65536 < 256" and "n mod 65536 div 256 < 256" using assms by auto
  moreover have "n div 65536 * 65536 + n mod 65536 div 256 * 256 + n mod 65536 mod 256 = n"
    by presburger
  moreover have "n mod 65536 mod 256 = n mod 256" by (simp add: mod_mod_cancel)
  ultimately show ?thesis
    using rd_take_append [of "[word_of_nat (n div 65536), word_of_nat (n mod 65536 div 256),
        word_of_nat (n mod 65536)]" 3 r]
    by (simp add: rd_u24_def to_be16_def unat_of_nat)
qed

lemma skip_fixed_enc:
  assumes "length v = 2" "length rnd = 32" "length s < 256" "length cs < 65536" "length c < 256"
  shows "skip_fixed (v @ rnd @ word_of_nat (length s) # s @ to_be16 (length cs) @ cs
    @ word_of_nat (length c) # c @ r) = (Inr (), r)"
  using assms by (simp add: skip_fixed_def unat_of_nat)

lemma parse_handshake_enc:
  assumes "wf_hello h"
  shows "parse_handshake (enc_handshake h) = Inr (hello_sni h)"
proof -
  let ?n = "length (enc_hello h)"
  have len: "?n < 16777216"
    using assms by (auto simp: wf_hello_def enc_handshake_def MAX_RECORD_BODY_def)
  have take: "rd_take ?n (enc_hello h) = (Inr (enc_hello h), [])"
    using rd_take_append [of "enc_hello h" ?n "[]"] by simp
  then have ctx: "scontext (rd_take ?n) HelloSpansRecords (enc_hello h) = (Inr (enc_hello h), [])"
    by simp
  let ?exts = "case extensions h of None \<Rightarrow> []
    | Some xs \<Rightarrow> to_be16 (length (enc_exts xs)) @ enc_exts xs"
  have skip: "skip_fixed (enc_hello h) = (Inr (), ?exts)"
    using assms unfolding enc_hello_def wf_hello_def by (intro skip_fixed_enc) auto
  have "(if ?exts = [] then Inr None
      else rbind (fst (sbind rd_u16 (\<lambda>ext_len. rd_take ext_len) ?exts)) parse_exts)
    = Inr (hello_sni h)"
  proof (cases "extensions h")
    case None
    then show ?thesis by (simp add: hello_sni_def)
  next
    case (Some xs)
    have "length (enc_exts xs) < 65536"
      using assms Some by (auto simp: wf_hello_def enc_handshake_def enc_hello_def MAX_RECORD_BODY_def)
    moreover have "list_all wf_ext xs" using assms Some by (simp add: wf_hello_def)
    ultimately show ?thesis
      using Some rd_take_append [of "enc_exts xs" "length (enc_exts xs)" "[]"]
      by (simp add: hello_sni_def parse_exts_enc to_be16_def [THEN arg_cong [of _ _ "\<lambda>x. x = []"]])
  qed
  with len ctx skip show ?thesis
    by (simp add: parse_handshake_def enc_handshake_def rd_u24_enc)
qed

lemma check_header_enc:
  assumes "0 < n" and "n \<le> MAX_RECORD_BODY"
  shows "check_header (HANDSHAKE_RECORD # 3 # minor # to_be16 n) = Inr n"
  using assms by (simp add: check_header_def to_be16_def MAX_RECORD_BODY_def Let_def)

lemma parse_record_enc:
  assumes "wf_hello h"
  shows "parse_record (enc_record minor h @ trailing) = Inr (hello_sni h)"
proof -
  have "0 < length (enc_handshake h)" and "length (enc_handshake h) \<le> MAX_RECORD_BODY"
    using assms by (auto simp: enc_handshake_def wf_hello_def)
  with check_header_enc parse_handshake_enc [OF assms] show ?thesis
    by (simp add: parse_record_def enc_record_def RECORD_HEADER_LEN_def to_be16_def)
qed

section \<open>What a reported host is\<close>

definition usable_host :: "string \<Rightarrow> bool" where
  "usable_host h \<longleftrightarrow> h \<noteq> [] \<and> list_all host_char h \<and> \<not> is_ipv4 h"

definition occurs_in :: "string \<Rightarrow> byte list \<Rightarrow> bool" where
  "occurs_in h bs \<longleftrightarrow> (\<exists>pre post. bs = pre @ as_bytes h @ post)"

lemma occurs_in_context: "occurs_in h bs \<Longrightarrow> occurs_in h (xs @ bs @ ys)"
  unfolding occurs_in_def by (metis append.assoc)

lemma occurs_in_Cons: "occurs_in h bs \<Longrightarrow> occurs_in h (x # bs)"
  using occurs_in_context [of h bs "[x]" "[]"] by simp

lemma occurs_in_append2: "occurs_in h bs \<Longrightarrow> occurs_in h (xs @ bs)"
  using occurs_in_context [of h bs xs "[]"] by simp

lemma occurs_in_take: "occurs_in h (take n bs) \<Longrightarrow> occurs_in h bs"
  using occurs_in_context [of h "take n bs" "[]" "drop n bs"] by simp

lemma occurs_in_drop: "occurs_in h (drop n bs) \<Longrightarrow> occurs_in h bs"
  using occurs_in_context [of h "drop n bs" "take n bs" "[]"] by simp

lemma host_name_SomeD: "host_name raw = Some h \<Longrightarrow> usable_host h \<and> as_bytes h = raw"
  by (auto simp: host_name_def usable_host_def from_utf8_def Let_def split: if_splits option.splits)

lemma parse_names_host:
  "parse_names bs = Inr (Some h) \<Longrightarrow> usable_host h \<and> occurs_in h bs"
proof (induction bs rule: parse_names.induct)
  case (1 bs)
  from "1.prems" obtain t name r where r: "bs \<noteq> []" "rd_name bs = (Inr (t, name), r)"
    and res: "(if t = NAME_TYPE_HOST then Inr (host_name name) else parse_names r) = Inr (Some h)"
    by (subst (asm) parse_names.simps) (auto split: if_splits sum.splits prod.splits)
  have bs: "bs = (t # to_be16 (length name)) @ name @ r" using rd_name_ok [OF r(2)] by simp
  show ?case
  proof (cases "t = NAME_TYPE_HOST")
    case True
    with res have "usable_host h \<and> as_bytes h = name" by (simp add: host_name_SomeD)
    with bs show ?thesis unfolding occurs_in_def by blast
  next
    case False
    with res "1.IH" [OF r(1)] r(2) have "usable_host h \<and> occurs_in h r" by fastforce
    with bs show ?thesis by (simp add: occurs_in_append2 occurs_in_Cons)
  qed
qed

lemma parse_server_name_host:
  assumes "parse_server_name bs = Inr (Some h)"
  shows "usable_host h \<and> occurs_in h bs"
proof -
  from assms obtain n r l r' where "rd_u16 bs = (Inr n, r)" "rd_take n r = (Inr l, r')"
    and l: "parse_names l = Inr (Some h)"
    by (auto simp: parse_server_name_def rbind_eq_Inr_iff fst_eq_iff sbind_eq_Inr_iff)
  then have "bs = to_be16 n @ l @ r'" by (auto dest!: rd_u16_ok rd_take_ok)
  with parse_names_host [OF l] show ?thesis by (simp add: occurs_in_context)
qed

lemma parse_exts_host:
  "parse_exts bs = Inr (Some h) \<Longrightarrow> usable_host h \<and> occurs_in h bs"
proof (induction bs rule: parse_exts.induct)
  case (1 bs)
  from "1.prems" obtain k d r where r: "bs \<noteq> []" "rd_ext bs = (Inr (k, d), r)"
    and res: "(if k = EXT_SERVER_NAME then parse_server_name d else parse_exts r) = Inr (Some h)"
    by (subst (asm) parse_exts.simps) (auto split: if_splits sum.splits prod.splits)
  have bs: "bs = (to_be16 k @ to_be16 (length d)) @ d @ r" using rd_ext_ok [OF r(2)] by simp
  show ?case
  proof (cases "k = EXT_SERVER_NAME")
    case True
    with res have "usable_host h \<and> occurs_in h d" by (simp add: parse_server_name_host)
    with bs show ?thesis by (metis occurs_in_context)
  next
    case False
    with res "1.IH" [OF r(1)] r(2) have "usable_host h \<and> occurs_in h r" by fastforce
    with bs show ?thesis by (simp add: occurs_in_append2)
  qed
qed

lemma skip_fixed_ok: "skip_fixed r = (Inr u, r') \<Longrightarrow> \<exists>pre. r = pre @ r'"
  by (auto simp: skip_fixed_def sbind_eq_Inr_iff dest!: rd_u8_ok rd_u16_ok rd_take_ok)

lemma rd_u24_ok: "rd_u24 r = (Inr n, r') \<Longrightarrow> \<exists>pre. r = pre @ r'"
  by (auto simp: rd_u24_def sbind_eq_Inr_iff dest!: rd_take_ok)

lemma parse_handshake_host:
  assumes "parse_handshake body = Inr (Some h)"
  shows "usable_host h \<and> occurs_in h body"
proof -
  from assms obtain k r1 n r2 hello r3 u rest where
      b: "rd_u8 body = (Inr k, r1)" "rd_u24 r1 = (Inr n, r2)" "rd_take n r2 = (Inr hello, r3)"
    and s: "skip_fixed hello = (Inr u, rest)"
    and e: "rbind (fst (sbind rd_u16 (\<lambda>ext_len. rd_take ext_len) rest)) parse_exts = Inr (Some h)"
    by (auto simp: parse_handshake_def rbind_eq_Inr_iff fst_eq_iff sbind_eq_Inr_iff
        scontext_eq_Inr_iff split: if_splits sum.splits prod.splits)
  from e obtain n' r4 exts r5 where "rd_u16 rest = (Inr n', r4)" "rd_take n' r4 = (Inr exts, r5)"
    and x: "parse_exts exts = Inr (Some h)"
    by (auto simp: rbind_eq_Inr_iff fst_eq_iff sbind_eq_Inr_iff)
  then have rest: "rest = to_be16 n' @ exts @ r5" by (auto dest!: rd_u16_ok rd_take_ok)
  obtain pre where "hello = pre @ rest" using skip_fixed_ok [OF s] by blast
  moreover obtain pre2 where "body = pre2 @ hello @ r3"
    using b rd_u24_ok [OF b(2)] by (metis append.assoc append_Cons rd_u8_ok rd_take_ok)
  ultimately show ?thesis
    using parse_exts_host [OF x] rest by (metis occurs_in_context occurs_in_append2)
qed

lemma parse_record_host:
  assumes "parse_record rec = Inr (Some h)"
  shows "usable_host h \<and> occurs_in h rec"
proof -
  from assms obtain n where "parse_handshake (take n (drop RECORD_HEADER_LEN rec)) = Inr (Some h)"
    by (auto simp: parse_record_def rbind_eq_Inr_iff split: if_splits)
  then show ?thesis by (auto dest!: parse_handshake_host occurs_in_take occurs_in_drop)
qed

lemma check_header_bound: "check_header hd5 = Inr n \<Longrightarrow> 0 < n \<and> n \<le> MAX_RECORD_BODY"
  by (auto simp: check_header_def Let_def split: if_splits)

lemma parse_record_extent:
  assumes "parse_record rec = Inr x"
  obtains n where "check_header (take RECORD_HEADER_LEN rec) = Inr n"
    and "RECORD_HEADER_LEN + n \<le> length rec"
  using assms by (auto simp: parse_record_def rbind_eq_Inr_iff split: if_splits)

section \<open>Peeking over a byte source\<close>

context exact_reader
begin

lemma read_record_ok:
  assumes "read_record rx s = (Inr buf, s')"
  shows "pend s = buf @ pend s' \<and>
    (\<exists>n. check_header (take RECORD_HEADER_LEN buf) = Inr n \<and> length buf = RECORD_HEADER_LEN + n)"
proof -
  from assms obtain h s1 n body where h: "rx RECORD_HEADER_LEN s = (Inr h, s1)"
    and n: "check_header h = Inr n" and b: "rx n s1 = (Inr body, s')" and "buf = h @ body"
    by (auto simp: read_record_def split: sum.splits prod.splits)
  with rx_ok [OF h] rx_ok [OF b] show ?thesis by auto
qed

lemma peek_sni_ok:
  assumes "peek_sni rx s = (Inr p, s')"
  shows "pend s = buffered p @ pend s'" and "parse_record (buffered p) = Inr (peeked_sni p)"
    and "RECORD_HEADER_LEN < length (buffered p)"
    and "length (buffered p) \<le> RECORD_HEADER_LEN + MAX_RECORD_BODY"
  using assms by (auto simp: peek_sni_def split: sum.splits prod.splits
      dest!: read_record_ok check_header_bound)

lemma peek_sni_record:
  assumes "pend s = rec @ rest" and "check_header (take RECORD_HEADER_LEN rec) = Inr n"
    and "length rec = RECORD_HEADER_LEN + n" and "parse_record rec = Inr name"
  shows "\<exists>s'. peek_sni rx s = (Inr \<lparr>peeked_sni = name, buffered = rec\<rparr>, s') \<and> pend s' = rest"
proof -
  let ?h = "take RECORD_HEADER_LEN rec" and ?b = "drop RECORD_HEADER_LEN rec"
  have "pend s = ?h @ (?b @ rest)" "length ?h = RECORD_HEADER_LEN" using assms by auto
  then obtain s1 where h: "rx RECORD_HEADER_LEN s = (Inr ?h, s1)" "pend s1 = ?b @ rest"
    by (rule rx_exactly)
  have "length ?b = n" using assms by simp
  with h(2) obtain s2 where b: "rx n s1 = (Inr ?b, s2)" "pend s2 = rest"
    by (rule rx_exactly)
  from h(1) b(1) assms(2) have "read_record rx s = (Inr rec, s2)" by (simp add: read_record_def)
  with assms(4) b(2) show ?thesis by (simp add: peek_sni_def)
qed

lemma peek_sni_bad_header:
  assumes "pend s = h @ rest" and "length h = RECORD_HEADER_LEN" and "check_header h = Inl e"
  shows "\<exists>s'. peek_sni rx s = (Inl e, s') \<and> pend s' = rest"
proof -
  obtain s1 where "rx RECORD_HEADER_LEN s = (Inr h, s1)" "pend s1 = rest"
    using rx_exactly [OF assms(1,2)] by blast
  moreover have "e \<noteq> RecordIo Stalled"
    using assms(3) by (auto simp: check_header_def Let_def split: if_splits)
  ultimately show ?thesis using assms(3) by (simp add: peek_sni_def read_record_def)
qed

end

section \<open>Properties\<close>

text \<open>C40: The parser reads back the server name of every well-formed ClientHello that fits one
  record: whatever the session id, cipher suites and other extensions are, and whatever bytes
  follow the record, parsing the encoding yields the first host entry of the first server_name
  extension, or no name when there is none or it is unusable.\<close>
theorem sni_parse_encoded:
  assumes "wf_hello h"
  shows "parse_record (enc_record minor h @ trailing) = Inr (hello_sni h)"
  using assms by (rule parse_record_enc)

definition example_hello :: client_hello where
  "example_hello = \<lparr>legacy_version = [3, 3], random = replicate 32 7, session_id = [1],
     cipher_suites = [0x13, 1], compression = [0],
     extensions = Some [Other_Ext 10 [0, 2, 0, 29], Server_Name [(0, as_bytes ''a.x'')]]\<rparr>"

lemma example_hello_wf: "wf_hello example_hello"
  by (simp add: wf_hello_def example_hello_def enc_handshake_def enc_hello_def enc_exts_def
      enc_ext_def enc_names_def enc_name_def to_be16_def MAX_RECORD_BODY_def EXT_SERVER_NAME_def)

lemma example_hello_name: "hello_sni example_hello = Some ''a.x''"
  by (simp add: hello_sni_def example_hello_def NAME_TYPE_HOST_def host_name_def from_utf8_def
      host_char_def is_alphanumeric_def is_ipv4_def Let_def)

theorem sni_parse_encoded_witness:
  "wf_hello example_hello
   \<and> parse_record (enc_record 1 example_hello @ [9]) = Inr (Some ''a.x'')"
  using sni_parse_encoded [OF example_hello_wf, of 1 "[9]"] example_hello_wf example_hello_name
  by simp

text \<open>Every proper prefix of the record of a well-formed hello is rejected with an error:
  a truncated hello never yields a name and never reads past its end.\<close>
theorem sni_truncation_rejected:
  assumes "n < length (enc_record minor h)" and "wf_hello h"
  shows "\<exists>e. parse_record (take n (enc_record minor h)) = Inl e"
proof (cases "n < RECORD_HEADER_LEN")
  case True
  then have "length (take n (enc_record minor h)) < RECORD_HEADER_LEN" by simp
  then show ?thesis unfolding parse_record_def by simp
next
  case False
  let ?m = "length (enc_handshake h)"
  have m: "0 < ?m" "?m \<le> MAX_RECORD_BODY"
    using assms(2) by (auto simp: enc_handshake_def wf_hello_def)
  have "take RECORD_HEADER_LEN (take n (enc_record minor h)) = HANDSHAKE_RECORD # 3 # minor # to_be16 ?m"
    using False by (simp add: enc_record_def to_be16_def RECORD_HEADER_LEN_def)
  then have "check_header (take RECORD_HEADER_LEN (take n (enc_record minor h))) = Inr ?m"
    using check_header_enc [OF m] by simp
  moreover have "n < RECORD_HEADER_LEN + ?m"
    using assms(1) by (simp add: enc_record_def to_be16_def RECORD_HEADER_LEN_def)
  ultimately show ?thesis using False assms(1) by (simp add: parse_record_def)
qed

theorem sni_truncation_rejected_witness:
  "\<exists>e. parse_record (take 20 (enc_record 1 example_hello)) = Inl e"
  by (rule sni_truncation_rejected [OF _ example_hello_wf])
    (simp add: example_hello_def enc_record_def enc_handshake_def enc_hello_def enc_exts_def
      enc_ext_def enc_names_def enc_name_def to_be16_def)

text \<open>A name the parser reports is usable as a routing key: it is not empty, has only ASCII
  letters, digits, hyphen, dot and underscore, is not an IP literal, and its bytes stand in the
  record that was read.\<close>
theorem sni_host_usable:
  assumes "parse_record rec = Inr (Some h)"
  shows "h \<noteq> [] \<and> list_all host_char h \<and> \<not> is_ipv4 h \<and> occurs_in h rec"
  using parse_record_host [OF assms] by (simp add: usable_host_def)

theorem sni_host_usable_witness:
  "list_all host_char ''a.x'' \<and> \<not> is_ipv4 ''a.x'' \<and> occurs_in ''a.x'' (enc_record 1 example_hello)"
  using sni_host_usable [of "enc_record 1 example_hello" "''a.x''"] example_hello_name
    parse_record_enc [OF example_hello_wf, of 1 "[]"] by simp

text \<open>Peeking consumes exactly one record and returns it for replay: the bytes returned
  followed by the bytes left on the connection are the bytes that were there, the reported name is
  the parser's verdict on those bytes, and at most 5 + 16384 bytes are ever buffered.\<close>
theorem sni_peek_replay:
  assumes "peek_sni read_exact r = (Inr p, r')"
  shows "avail r = buffered p @ avail r' \<and> parse_record (buffered p) = Inr (peeked_sni p)
    \<and> length (buffered p) \<le> 16389"
  using inb.peek_sni_ok [OF assms] by (simp add: RECORD_HEADER_LEN_def MAX_RECORD_BODY_def)

theorem sni_peek_replay_witness:
  "\<exists>p r'. peek_sni read_exact \<lparr>avail = enc_record 1 example_hello @ [9], closes = False\<rparr> = (Inr p, r')
     \<and> enc_record 1 example_hello @ [9] = buffered p @ avail r' \<and> peeked_sni p = Some ''a.x''"
proof -
  let ?rec = "enc_record 1 example_hello"
  let ?r = "\<lparr>avail = ?rec @ [9], closes = False\<rparr>"
  have name: "parse_record ?rec = Inr (Some ''a.x'')"
    using parse_record_enc [OF example_hello_wf, of 1 "[]"] example_hello_name by simp
  then obtain n where n: "check_header (take RECORD_HEADER_LEN ?rec) = Inr n"
    and le: "RECORD_HEADER_LEN + n \<le> length ?rec" by (rule parse_record_extent)
  have "n = length (enc_handshake example_hello)"
    using n check_header_enc [of "length (enc_handshake example_hello)" 1] example_hello_wf
    by (auto simp: enc_record_def wf_hello_def to_be16_def RECORD_HEADER_LEN_def enc_handshake_def
        take_Cons')
  then have "length ?rec = RECORD_HEADER_LEN + n"
    by (simp add: enc_record_def RECORD_HEADER_LEN_def)
  then obtain r' where p: "peek_sni read_exact ?r
      = (Inr \<lparr>peeked_sni = Some ''a.x'', buffered = ?rec\<rparr>, r')"
    using inb.peek_sni_record [of ?r ?rec "[9]" n "Some ''a.x''"] n name by auto
  from sni_peek_replay [OF p] p show ?thesis by auto
qed

end
