(* ===== verification/Psk.thy ===== *)
theory Psk
  imports Frame
begin

text \<open>
  Pre-shared keys of \<open>noise.rs\<close>: the 32-byte type, its constant-time equality, its hex form
  in the tenant file, and its derivation from a token. SHA-256 is a third-party crate, so the
  hash is an argument of \<open>derive_psk\<close>. Random bytes (\<open>rand::fill\<close>) are arguments too.
\<close>

section \<open>The key and its equality\<close>

datatype psk = Psk (psk_bytes: "byte list")

definition wf_psk :: "psk \<Rightarrow> bool" where
  "wf_psk p \<longleftrightarrow> length (psk_bytes p) = 32"

definition psk_eq :: "psk \<Rightarrow> psk \<Rightarrow> bool" where
  "psk_eq a b = constant_time_eq (psk_bytes a) (psk_bytes b)"

lemma psk_eq_iff [simp]: "psk_eq a b \<longleftrightarrow> a = b"
  by (cases a; cases b) (simp add: psk_eq_def constant_time_eq_iff)

definition derive_psk :: "(byte list \<Rightarrow> byte list) \<Rightarrow> string \<Rightarrow> psk" where
  "derive_psk sha256 token = Psk (sha256 (as_bytes token))"

section \<open>Hex\<close>

definition hex_digit :: "nat \<Rightarrow> char" where
  "hex_digit n = (if n < 10 then char_of (48 + n) else char_of (87 + n))"

text \<open>\<open>format!("{b:02x}")\<close>\<close>

definition hex_byte :: "byte \<Rightarrow> string" where
  "hex_byte b = [hex_digit (unat b div 16), hex_digit (unat b mod 16)]"

definition hex_string :: "byte list \<Rightarrow> string" where
  "hex_string bs = concat (map hex_byte bs)"

datatype psk_error = Not64HexCharacters

definition psk_serialize :: "psk \<Rightarrow> string" where
  "psk_serialize p = hex_string (psk_bytes p)"

fun hex_pairs :: "string \<Rightarrow> psk_error + byte list" where
  "hex_pairs (a # b # rest) =
     rbind (ok_or (from_str_radix 16 255 [a, b]) Not64HexCharacters) (\<lambda>v.
     rbind (hex_pairs rest) (\<lambda>bs. Inr (word_of_nat v # bs)))"
| "hex_pairs _ = Inr []"

definition psk_deserialize :: "string \<Rightarrow> psk_error + psk" where
  "psk_deserialize text =
     (if length text \<noteq> 64 \<or> \<not> is_ascii text then Inl Not64HexCharacters
      else rbind (hex_pairs text) (\<lambda>out. Inr (Psk out)))"

lemma length_hex_string [simp]: "length (hex_string bs) = 2 * length bs"
  by (induction bs) (simp_all add: hex_string_def hex_byte_def)

lemma hex_digit_code:
  "n < 16 \<Longrightarrow> ccode (hex_digit n) = (if n < 10 then 48 + n else 87 + n)"
  by (simp add: hex_digit_def)

lemma to_digit_hex [simp]: "n < 16 \<Longrightarrow> to_digit 16 (hex_digit n) = Some n"
  by (auto simp: to_digit_def hex_digit_code Let_def)

lemma hex_digit_sign: "n < 16 \<Longrightarrow> hex_digit n \<noteq> CHR ''+''"
  using hex_digit_code [of n] by (auto split: if_splits)

lemma from_str_radix_hex_byte:
  "from_str_radix 16 255 [hex_digit (unat (b :: byte) div 16), hex_digit (unat b mod 16)] = Some (unat b)"
proof -
  let ?h = "unat b div 16" and ?l = "unat b mod 16"
  have h: "?h < 16" using unat_byte_less [of b] by (simp add: less_mult_imp_div_less)
  have l: "?l < 16" by simp
  have v: "?h * 16 + ?l = unat b" by simp
  have le: "?h \<le> 255" "unat b \<le> 255" using h unat_byte_less [of b] by linarith+
  have "from_str_radix 16 255 [hex_digit ?h, hex_digit ?l]
    = digits_value 16 255 0 [hex_digit ?h, hex_digit ?l]"
    using hex_digit_sign [OF h] by simp
  also have "\<dots> = digits_value 16 255 ?h [hex_digit ?l]"
    using le by (simp add: to_digit_hex [OF h])
  also have "\<dots> = Some (unat b)"
    using le v by (simp add: to_digit_hex [OF l])
  finally show ?thesis .
qed

lemma hex_pairs_hex_string: "hex_pairs (hex_string bs) = Inr bs"
  by (induction bs)
    (simp_all add: hex_string_def hex_byte_def from_str_radix_hex_byte del: from_str_radix.simps)

lemma is_ascii_hex_string: "is_ascii (hex_string bs)"
proof (induction bs)
  case (Cons b bs)
  have "unat b div 16 < 16" and "unat b mod 16 < 16"
    using unat_byte_less [of b] by (simp_all add: less_mult_imp_div_less)
  with Cons show ?case
    by (auto simp: hex_string_def hex_byte_def is_ascii_def hex_digit_code)
qed (simp add: hex_string_def is_ascii_def)

lemma hex_string_inject: "hex_string a = hex_string b \<longleftrightarrow> a = b"
  by (metis hex_pairs_hex_string Inr_inject)

lemma length_hex_pairs: "hex_pairs s = Inr bs \<Longrightarrow> length bs = length s div 2"
  by (induction s arbitrary: bs rule: hex_pairs.induct) (auto simp: rbind_eq_Inr_iff)

lemma psk_deserialize_wf: "psk_deserialize text = Inr p \<Longrightarrow> wf_psk p"
  by (auto simp: psk_deserialize_def wf_psk_def rbind_eq_Inr_iff dest: length_hex_pairs split: if_splits)

lemma psk_deserialize_serialize [simp]:
  "wf_psk p \<Longrightarrow> psk_deserialize (psk_serialize p) = Inr p"
  by (cases p)
    (simp add: wf_psk_def psk_serialize_def psk_deserialize_def is_ascii_hex_string hex_pairs_hex_string)

section \<open>Properties\<close>

text \<open>The tenant file's form of a key is faithful: serialising a 32-byte key gives 64
  characters, and reading them back gives the same key.\<close>
theorem psk_roundtrip:
  assumes "wf_psk p"
  shows "length (psk_serialize p) = 64 \<and> psk_deserialize (psk_serialize p) = Inr p"
  using assms by (cases p)
    (simp add: wf_psk_def psk_serialize_def psk_deserialize_def is_ascii_hex_string hex_pairs_hex_string)

theorem psk_roundtrip_witness:
  "wf_psk (Psk (replicate 32 0xab))
   \<and> psk_deserialize (psk_serialize (Psk (replicate 32 0xab))) = Inr (Psk (replicate 32 0xab))"
  using psk_roundtrip [of "Psk (replicate 32 0xab)"] by (simp add: wf_psk_def)

text \<open>The reader of keys accepts texts that are not hex: because from_str_radix takes a
  leading plus sign, 32 pairs of a plus sign and one hex digit are read as a key, where the error
  message of the code promises that a key must be 64 hex characters.\<close>
theorem psk_accepts_plus_signs:
  "to_digit 16 (CHR ''+'') = None
   \<and> psk_deserialize (concat (replicate 32 ''+a'')) = Inr (Psk (replicate 32 10))"
  by (simp add: psk_deserialize_def to_digit_def is_ascii_def Let_def numeral_eq_Suc)

end
