(* ===== verification/Tenants.thy ===== *)
theory Tenants
  imports Psk
begin

text \<open>
  Tenants, enrollment codes and the validated snapshot of both (\<open>tenant.rs\<close>). A
  \<open>tenant_set\<close> is built by \<open>tenant_set_new\<close> only; \<open>wf_set\<close> says what it checks. Each edit
  returns a new validated set. Times are unix seconds (\<open>u64\<close>); \<open>max_conns\<close> is a \<open>usize\<close>
  that is only compared, so a natural number.
\<close>

section \<open>Data\<close>

definition DEFAULT_MAX_CONNS :: nat where "DEFAULT_MAX_CONNS = 64"

definition strip_dot :: "string \<Rightarrow> string" where
  "strip_dot h = (if h \<noteq> [] \<and> last h = CHR ''.'' then butlast h else h)"

definition normalize_host :: "string \<Rightarrow> string" where
  "normalize_host host = to_ascii_lowercase (strip_dot (trim host))"

record tenant =
  tname :: string
  tpsk :: psk
  tsni :: string
  tmax_conns :: nat
  disabled :: bool

record enroll_code =
  cpsk :: psk
  csni :: string
  cmax_conns :: nat
  expires_at :: "u64 option"

datatype identity = IsTenant tenant | IsCode enroll_code

record candidates =
  psks :: "psk list"
  ids :: "identity list"

record tenant_set =
  tenants :: "tenant list"
  codes :: "enroll_code list"

datatype tenant_error = EmptyName | DuplicateName string | EmptySni string | ZeroMaxConns string
  | DuplicateSni string string | SharedPsk string | CodeSharesPsk
  | SniTaken string string | NoTenantNamed string | BadCode | Storage string | Panicked string

definition empty_set :: tenant_set where
  "empty_set = \<lparr>tenants = [], codes = []\<rparr>"

section \<open>Validation\<close>

definition check_entry :: "string \<Rightarrow> nat \<Rightarrow> string \<Rightarrow> tenant_error + unit" where
  "check_entry sni max_conns what =
     (if normalize_host sni = [] then Inl (EmptySni what)
      else if max_conns = 0 then Inl (ZeroMaxConns what) else Inr ())"

fun check_tenants :: "string set \<Rightarrow> string set \<Rightarrow> psk set \<Rightarrow> tenant list \<Rightarrow> tenant_error + psk set" where
  "check_tenants names hosts keys [] = Inr keys"
| "check_tenants names hosts keys (t # ts) =
     (if tname t = [] then Inl EmptyName
      else if tname t \<in> names then Inl (DuplicateName (tname t))
      else rbind (check_entry (tsni t) (tmax_conns t) (tname t)) (\<lambda>_.
        if normalize_host (tsni t) \<in> hosts then Inl (DuplicateSni (tsni t) (tname t))
        else if tpsk t \<in> keys then Inl (SharedPsk (tname t))
        else check_tenants (insert (tname t) names) (insert (normalize_host (tsni t)) hosts)
          (insert (tpsk t) keys) ts))"

fun check_codes :: "psk set \<Rightarrow> enroll_code list \<Rightarrow> tenant_error + unit" where
  "check_codes keys [] = Inr ()"
| "check_codes keys (c # cs) =
     rbind (check_entry (csni c) (cmax_conns c) ''enrollment code'') (\<lambda>_.
       if cpsk c \<in> keys then Inl CodeSharesPsk else check_codes (insert (cpsk c) keys) cs)"

definition tenant_set_new :: "tenant list \<Rightarrow> enroll_code list \<Rightarrow> tenant_error + tenant_set" where
  "tenant_set_new ts cs =
     rbind (check_tenants {} {} {} ts) (\<lambda>keys.
     rbind (check_codes keys cs) (\<lambda>_. Inr \<lparr>tenants = ts, codes = cs\<rparr>))"

section \<open>Lookups\<close>

definition find_tenant :: "tenant_set \<Rightarrow> string \<Rightarrow> tenant option" where
  "find_tenant s n = find (\<lambda>t. tname t = n) (tenants s)"

definition tenant_by_sni :: "tenant_set \<Rightarrow> string \<Rightarrow> tenant option" where
  "tenant_by_sni s sni =
     (let wanted = normalize_host sni in
      find (\<lambda>t. \<not> disabled t \<and> normalize_host (tsni t) = wanted) (tenants s))"

text \<open>\<open>expires_at.is_none_or(|at| now_unix < at)\<close>\<close>

definition unexpired :: "u64 \<Rightarrow> enroll_code \<Rightarrow> bool" where
  "unexpired now c = (case expires_at c of None \<Rightarrow> True | Some at \<Rightarrow> now < at)"

definition push_candidate :: "psk \<Rightarrow> identity \<Rightarrow> candidates \<Rightarrow> candidates" where
  "push_candidate p i out = \<lparr>psks = psks out @ [p], ids = ids out @ [i]\<rparr>"

definition candidates_at :: "tenant_set \<Rightarrow> u64 \<Rightarrow> candidates" where
  "candidates_at s now =
     (let out = fold (\<lambda>t. push_candidate (tpsk t) (IsTenant t))
                  (filter (\<lambda>t. \<not> disabled t) (tenants s)) \<lparr>psks = [], ids = []\<rparr>
      in fold (\<lambda>c. push_candidate (cpsk c) (IsCode c)) (filter (unexpired now) (codes s)) out)"

section \<open>Random names, tokens and codes\<close>

text \<open>The random bytes that \<open>rand::fill\<close> yields are the argument.\<close>

definition random_hex :: "byte list \<Rightarrow> string" where
  "random_hex rnd = hex_string rnd"

definition new_tenant_name :: "byte list \<Rightarrow> string" where
  "new_tenant_name rnd6 = ''t-'' @ random_hex rnd6"

definition new_token :: "byte list \<Rightarrow> string" where
  "new_token rnd32 = random_hex rnd32"

definition new_enroll_code ::
  "(byte list \<Rightarrow> byte list) \<Rightarrow> byte list \<Rightarrow> string \<Rightarrow> nat \<Rightarrow> u64 option \<Rightarrow> string \<times> enroll_code" where
  "new_enroll_code sha256 rnd16 sni max_conns expires =
     (let code = random_hex rnd16 in
      (code, \<lparr>cpsk = derive_psk sha256 code, csni = sni, cmax_conns = max_conns,
              expires_at = expires\<rparr>))"

section \<open>Edits\<close>

definition with_tenant :: "tenant_set \<Rightarrow> tenant \<Rightarrow> tenant_error + tenant_set" where
  "with_tenant s t = tenant_set_new (tenants s @ [t]) (codes s)"

definition with_code :: "tenant_set \<Rightarrow> enroll_code \<Rightarrow> tenant_error + tenant_set" where
  "with_code s c =
     (case find (\<lambda>t. normalize_host (tsni t) = normalize_host (csni c)) (tenants s) of
        Some t \<Rightarrow> Inl (SniTaken (csni c) (tname t))
      | None \<Rightarrow> tenant_set_new (tenants s) (codes s @ [c]))"

definition without_tenant :: "tenant_set \<Rightarrow> string \<Rightarrow> tenant_error + tenant_set" where
  "without_tenant s n =
     (if find_tenant s n = None then Inl (NoTenantNamed n)
      else tenant_set_new (filter (\<lambda>t. tname t \<noteq> n) (tenants s)) (codes s))"

definition with_disabled :: "tenant_set \<Rightarrow> string \<Rightarrow> bool \<Rightarrow> tenant_error + tenant_set" where
  "with_disabled s n d =
     (if find_tenant s n = None then Inl (NoTenantNamed n)
      else tenant_set_new (map (\<lambda>t. if tname t = n then t\<lparr>disabled := d\<rparr> else t) (tenants s)) (codes s))"

definition redeem ::
  "tenant_set \<Rightarrow> psk \<Rightarrow> u64 \<Rightarrow> string \<Rightarrow> psk \<Rightarrow> tenant_error + (tenant_set \<times> tenant)" where
  "redeem s code_psk now new_name new_psk =
     rbind (ok_or (find (\<lambda>c. psk_eq (cpsk c) code_psk \<and> unexpired now c) (codes s)) BadCode) (\<lambda>code.
       let tenant = \<lparr>tname = new_name, tpsk = new_psk, tsni = csni code,
                     tmax_conns = cmax_conns code, disabled = False\<rparr>;
           codes' = filter (\<lambda>c. \<not> psk_eq (cpsk c) code_psk \<and> unexpired now c) (codes s)
       in rbind (tenant_set_new (tenants s @ [tenant]) codes') (\<lambda>next. Inr (next, tenant)))"

section \<open>What validation establishes\<close>

definition wf_tenant :: "tenant \<Rightarrow> bool" where
  "wf_tenant t \<longleftrightarrow> tname t \<noteq> [] \<and> normalize_host (tsni t) \<noteq> [] \<and> tmax_conns t \<noteq> 0"

definition wf_enroll_code :: "enroll_code \<Rightarrow> bool" where
  "wf_enroll_code c \<longleftrightarrow> normalize_host (csni c) \<noteq> [] \<and> cmax_conns c \<noteq> 0"

definition wf_set :: "tenant_set \<Rightarrow> bool" where
  "wf_set s \<longleftrightarrow> (\<forall>t \<in> set (tenants s). wf_tenant t) \<and> (\<forall>c \<in> set (codes s). wf_enroll_code c)
     \<and> distinct (map tname (tenants s))
     \<and> distinct (map (\<lambda>t. normalize_host (tsni t)) (tenants s))
     \<and> distinct (map tpsk (tenants s) @ map cpsk (codes s))"

lemma check_entry_iff [simp]:
  "check_entry sni m what = Inr u \<longleftrightarrow> normalize_host sni \<noteq> [] \<and> m \<noteq> 0"
  by (simp add: check_entry_def)

lemma check_entry_ok [simp]:
  "normalize_host sni \<noteq> [] \<Longrightarrow> 0 < m \<Longrightarrow> check_entry sni m what = Inr ()"
  by (simp add: check_entry_def)

lemma check_tenants_iff:
  "check_tenants ns hs ks ts = Inr ks' \<longleftrightarrow>
     (\<forall>t \<in> set ts. wf_tenant t) \<and> distinct (map tname ts) \<and> set (map tname ts) \<inter> ns = {}
     \<and> distinct (map (\<lambda>t. normalize_host (tsni t)) ts)
     \<and> set (map (\<lambda>t. normalize_host (tsni t)) ts) \<inter> hs = {}
     \<and> distinct (map tpsk ts) \<and> set (map tpsk ts) \<inter> ks = {} \<and> ks' = ks \<union> set (map tpsk ts)"
proof (induction ns hs ks ts rule: check_tenants.induct)
  case (1 names hosts keys)
  show ?case by auto
next
  case (2 names hosts keys t ts)
  show ?case
  proof (cases "wf_tenant t \<and> tname t \<notin> names \<and> normalize_host (tsni t) \<notin> hosts \<and> tpsk t \<notin> keys")
    case True
    then have e: "check_entry (tsni t) (tmax_conns t) (tname t) = Inr ()"
      by (simp add: wf_tenant_def)
    from True have "check_tenants names hosts keys (t # ts) =
      check_tenants (insert (tname t) names) (insert (normalize_host (tsni t)) hosts)
        (insert (tpsk t) keys) ts" by (simp add: wf_tenant_def)
    moreover note 2
    ultimately show ?thesis using True by (auto simp: wf_tenant_def)
  next
    case False
    then show ?thesis by (auto simp: wf_tenant_def rbind_eq_Inr_iff)
  qed
qed

lemma check_codes_iff:
  "check_codes ks cs = Inr u \<longleftrightarrow>
     (\<forall>c \<in> set cs. wf_enroll_code c) \<and> distinct (map cpsk cs) \<and> ks \<inter> set (map cpsk cs) = {}"
  by (induction ks cs rule: check_codes.induct) (auto simp: rbind_eq_Inr_iff wf_enroll_code_def)

lemma tenant_set_new_iff:
  "tenant_set_new ts cs = Inr s \<longleftrightarrow> s = \<lparr>tenants = ts, codes = cs\<rparr> \<and> wf_set s"
proof -
  have "tenant_set_new ts cs = Inr s \<longleftrightarrow> s = \<lparr>tenants = ts, codes = cs\<rparr>
      \<and> is_ok (check_tenants {} {} {} ts) \<and> check_codes (set (map tpsk ts)) cs = Inr ()"
    by (auto simp: tenant_set_new_def rbind_eq_Inr_iff check_tenants_iff is_ok_iff)
  also have "\<dots> \<longleftrightarrow> s = \<lparr>tenants = ts, codes = cs\<rparr> \<and> wf_set s"
    by (rule conj_cong [OF refl])
      (simp add: is_ok_iff check_tenants_iff check_codes_iff wf_set_def conj_ac)
  finally show ?thesis .
qed

lemma tenant_set_new_wf: "wf_set \<lparr>tenants = ts, codes = cs\<rparr> \<Longrightarrow>
  tenant_set_new ts cs = Inr \<lparr>tenants = ts, codes = cs\<rparr>"
  by (simp add: tenant_set_new_iff)

lemma empty_set_wf: "wf_set empty_set"
  by (simp add: wf_set_def empty_set_def)

section \<open>Lookups in a well-formed set\<close>

lemma find_tenant_iff:
  assumes "wf_set s"
  shows "find_tenant s n = Some t \<longleftrightarrow> t \<in> set (tenants s) \<and> tname t = n"
proof
  assume "find_tenant s n = Some t"
  then show "t \<in> set (tenants s) \<and> tname t = n" by (auto simp: find_tenant_def dest: find_SomeD)
next
  assume t: "t \<in> set (tenants s) \<and> tname t = n"
  from assms have "distinct (map tname (tenants s))" by (simp add: wf_set_def)
  with t show "find_tenant s n = Some t"
    unfolding find_tenant_def by (intro find_unique) (auto intro: distinct_map_unique)
qed

lemma find_tenant_None: "find_tenant s n = None \<longleftrightarrow> n \<notin> tname ` set (tenants s)"
  by (auto simp: find_tenant_def find_eq_None_iff)

lemma tenant_by_sni_iff:
  assumes "wf_set s"
  shows "tenant_by_sni s host = Some t \<longleftrightarrow>
     t \<in> set (tenants s) \<and> \<not> disabled t \<and> normalize_host (tsni t) = normalize_host host"
    (is "_ \<longleftrightarrow> ?R t")
proof
  assume "tenant_by_sni s host = Some t"
  then show "?R t" by (auto simp: tenant_by_sni_def Let_def dest: find_SomeD)
next
  assume t: "?R t"
  have d: "distinct (map (\<lambda>t. normalize_host (tsni t)) (tenants s))"
    using assms by (simp add: wf_set_def)
  show "tenant_by_sni s host = Some t"
    unfolding tenant_by_sni_def Let_def
  proof (rule find_unique)
    fix y assume "y \<in> set (tenants s)" "\<not> disabled y \<and> normalize_host (tsni y) = normalize_host host"
    with t distinct_map_unique [OF d] show "y = t" by simp
  qed (use t in auto)
qed

lemma fold_push_candidate:
  "fold (\<lambda>x. push_candidate (f x) (g x)) xs out =
     \<lparr>psks = psks out @ map f xs, ids = ids out @ map g xs\<rparr>"
  by (induction xs arbitrary: out) (simp_all add: push_candidate_def)

lemma candidates_at_eq:
  "candidates_at s now =
     \<lparr>psks = map tpsk (filter (\<lambda>t. \<not> disabled t) (tenants s)) @ map cpsk (filter (unexpired now) (codes s)),
      ids = map IsTenant (filter (\<lambda>t. \<not> disabled t) (tenants s)) @ map IsCode (filter (unexpired now) (codes s))\<rparr>"
  by (simp add: candidates_at_def Let_def fold_push_candidate)

fun identity_psk :: "identity \<Rightarrow> psk" where
  "identity_psk (IsTenant t) = tpsk t"
| "identity_psk (IsCode c) = cpsk c"

lemma candidates_psks: "psks (candidates_at s now) = map identity_psk (ids (candidates_at s now))"
  by (simp add: candidates_at_eq comp_def)

lemma length_candidates [simp]:
  "length (psks (candidates_at s now)) = length (ids (candidates_at s now))"
  by (simp add: candidates_psks)

lemma candidates_ids_iff:
  "i \<in> set (ids (candidates_at s now)) \<longleftrightarrow>
     (case i of IsTenant t \<Rightarrow> t \<in> set (tenants s) \<and> \<not> disabled t
      | IsCode c \<Rightarrow> c \<in> set (codes s) \<and> unexpired now c)"
  by (auto simp: candidates_at_eq split: identity.split)

lemma candidates_distinct:
  assumes "wf_set s"
  shows "distinct (psks (candidates_at s now))"
proof -
  have "distinct (map tpsk (tenants s) @ map cpsk (codes s))" using assms by (simp add: wf_set_def)
  then show ?thesis
    by (auto simp: candidates_at_eq distinct_map_filter intro!: distinct_map_filter)
qed

text \<open>Which identity a key stands for, independent of positions.\<close>

definition identifies :: "tenant_set \<Rightarrow> u64 \<Rightarrow> psk \<Rightarrow> identity \<Rightarrow> bool" where
  "identifies s now p i \<longleftrightarrow> i \<in> set (ids (candidates_at s now)) \<and> identity_psk i = p"

lemma identifies_unique:
  assumes "wf_set s" and "identifies s now p i" and "identifies s now p j"
  shows "i = j"
proof -
  have "distinct (map identity_psk (ids (candidates_at s now)))"
    using candidates_distinct [OF assms(1)] by (simp add: candidates_psks)
  with assms(2,3) show ?thesis
    unfolding identifies_def by (metis distinct_map_unique)
qed

section \<open>Edits keep the set well-formed\<close>

lemma edit_wf [invariants]:
  "with_tenant s t = Inr s' \<Longrightarrow> wf_set s'"
  "with_code s c = Inr s' \<Longrightarrow> wf_set s'"
  "without_tenant s n = Inr s' \<Longrightarrow> wf_set s'"
  "with_disabled s n d = Inr s' \<Longrightarrow> wf_set s'"
  "redeem s p now n k = Inr (s', t) \<Longrightarrow> wf_set s'"
  by (auto simp: with_tenant_def with_code_def without_tenant_def with_disabled_def redeem_def
      tenant_set_new_iff rbind_eq_Inr_iff Let_def split: option.splits if_splits)

lemma wf_set_filter:
  "wf_set s \<Longrightarrow> wf_set \<lparr>tenants = filter P (tenants s), codes = filter Q (codes s)\<rparr>"
  by (auto simp: wf_set_def distinct_map_filter)

section \<open>What each edit does\<close>

lemma redeem_iff:
  "redeem s p now n k = Inr (s', t) \<longleftrightarrow>
     (\<exists>c. find (\<lambda>c. cpsk c = p \<and> unexpired now c) (codes s) = Some c
        \<and> t = \<lparr>tname = n, tpsk = k, tsni = csni c, tmax_conns = cmax_conns c, disabled = False\<rparr>
        \<and> s' = \<lparr>tenants = tenants s @ [t],
                codes = filter (\<lambda>c. cpsk c \<noteq> p \<and> unexpired now c) (codes s)\<rparr>
        \<and> wf_set s')"
  by (auto simp: redeem_def rbind_eq_Inr_iff tenant_set_new_iff Let_def)

lemma wf_set_snoc_tenant:
  assumes "wf_set \<lparr>tenants = ts, codes = cs\<rparr>"
  shows "wf_set \<lparr>tenants = ts @ [t], codes = cs\<rparr> \<longleftrightarrow> wf_tenant t
    \<and> tname t \<notin> tname ` set ts \<and> normalize_host (tsni t) \<notin> (\<lambda>t. normalize_host (tsni t)) ` set ts
    \<and> tpsk t \<notin> tpsk ` set ts \<and> tpsk t \<notin> cpsk ` set cs"
proof
  assume "wf_set \<lparr>tenants = ts @ [t], codes = cs\<rparr>"
  then show "wf_tenant t
    \<and> tname t \<notin> tname ` set ts \<and> normalize_host (tsni t) \<notin> (\<lambda>t. normalize_host (tsni t)) ` set ts
    \<and> tpsk t \<notin> tpsk ` set ts \<and> tpsk t \<notin> cpsk ` set cs"
    by (auto simp: wf_set_def)
next
  assume "wf_tenant t
    \<and> tname t \<notin> tname ` set ts \<and> normalize_host (tsni t) \<notin> (\<lambda>t. normalize_host (tsni t)) ` set ts
    \<and> tpsk t \<notin> tpsk ` set ts \<and> tpsk t \<notin> cpsk ` set cs"
  with assms show "wf_set \<lparr>tenants = ts @ [t], codes = cs\<rparr>"
    by (simp add: wf_set_def)
qed

lemma without_tenant_eq:
  assumes "wf_set s" and "find_tenant s n \<noteq> None"
  shows "without_tenant s n =
    Inr \<lparr>tenants = filter (\<lambda>t. tname t \<noteq> n) (tenants s), codes = codes s\<rparr>"
  using assms wf_set_filter [OF assms(1), of _ "\<lambda>_. True"]
  by (simp add: without_tenant_def tenant_set_new_wf)

lemma set_disabled_fields [simp]:
  "tname (if b then t\<lparr>disabled := d\<rparr> else t) = tname t"
  "tpsk (if b then t\<lparr>disabled := d\<rparr> else t) = tpsk t"
  "tsni (if b then t\<lparr>disabled := d\<rparr> else t) = tsni t"
  "wf_tenant (if b then t\<lparr>disabled := d\<rparr> else t) = wf_tenant t"
  by (auto simp: wf_tenant_def)

lemma with_disabled_eq:
  assumes "wf_set s" and "find_tenant s n \<noteq> None"
  shows "with_disabled s n d =
    Inr \<lparr>tenants = map (\<lambda>t. if tname t = n then t\<lparr>disabled := d\<rparr> else t) (tenants s),
         codes = codes s\<rparr>"
proof -
  let ?f = "\<lambda>t. if tname t = n then t\<lparr>disabled := d\<rparr> else t"
  have m: "map tname (map ?f ts) = map tname ts" "map tpsk (map ?f ts) = map tpsk ts"
    "map (\<lambda>t. normalize_host (tsni t)) (map ?f ts) = map (\<lambda>t. normalize_host (tsni t)) ts" for ts
    by (simp_all add: comp_def del: if_image_distrib)
  have w: "\<forall>t \<in> set (map ?f (tenants s)). wf_tenant t"
    using assms(1) by (auto simp: wf_set_def wf_tenant_def)
  have "wf_set \<lparr>tenants = map ?f (tenants s), codes = codes s\<rparr>"
    using assms(1) w unfolding wf_set_def tenant_set.simps m by blast
  with assms(2) show ?thesis by (simp add: with_disabled_def tenant_set_new_wf)
qed

section \<open>Histories of edits\<close>

datatype edit = AddTenant tenant | IssueCode enroll_code | Revoke string | SetDisabled string bool
  | Redeem psk u64 string psk

fun apply_edit :: "tenant_set \<Rightarrow> edit \<Rightarrow> tenant_error + tenant_set" where
  "apply_edit s (AddTenant t) = with_tenant s t"
| "apply_edit s (IssueCode c) = with_code s c"
| "apply_edit s (Revoke n) = without_tenant s n"
| "apply_edit s (SetDisabled n d) = with_disabled s n d"
| "apply_edit s (Redeem p now n k) = rbind (redeem s p now n k) (\<lambda>(s', _). Inr s')"

text \<open>A failed edit writes nothing.\<close>

fun run_edits :: "tenant_set \<Rightarrow> edit list \<Rightarrow> tenant_set" where
  "run_edits s [] = s"
| "run_edits s (e # es) = run_edits (case apply_edit s e of Inl _ \<Rightarrow> s | Inr s' \<Rightarrow> s') es"

lemma apply_edit_wf [invariants]: "apply_edit s e = Inr s' \<Longrightarrow> wf_set s'"
  by (cases e) (auto simp: rbind_eq_Inr_iff intro: edit_wf)

lemma run_edits_wf [invariants]: "wf_set s \<Longrightarrow> wf_set (run_edits s es)"
  by (induction es arbitrary: s) (auto split: sum.split dest: apply_edit_wf)

lemma apply_edit_codes:
  assumes "apply_edit s e = Inr s'"
  shows "cpsk ` set (codes s') \<subseteq> cpsk ` set (codes s) \<union> {cpsk c | c. e = IssueCode c}"
  using assms by (cases e)
    (auto simp: with_tenant_def with_code_def without_tenant_def with_disabled_def
      tenant_set_new_iff redeem_iff rbind_eq_Inr_iff split: option.splits if_splits)

lemma run_edits_codes:
  "cpsk ` set (codes (run_edits s es)) \<subseteq> cpsk ` set (codes s) \<union> {cpsk c | c. IssueCode c \<in> set es}"
proof (induction es arbitrary: s)
  case (Cons e es)
  let ?n = "case apply_edit s e of Inl _ \<Rightarrow> s | Inr s' \<Rightarrow> s'"
  have "cpsk ` set (codes ?n) \<subseteq> cpsk ` set (codes s) \<union> {cpsk c | c. e = IssueCode c}"
    by (cases "apply_edit s e") (use apply_edit_codes in auto)
  with Cons [of ?n] show ?case by (simp del: apply_edit.simps) blast
qed simp

lemma redeem_unknown:
  assumes "p \<notin> cpsk ` set (codes s)"
  shows "redeem s p now n k = Inl BadCode"
proof -
  have "find (\<lambda>c. psk_eq (cpsk c) p \<and> unexpired now c) (codes s) = None"
    using assms by (auto simp: find_eq_None_iff)
  then show ?thesis by (simp only: redeem_def ok_or_simps rbind_simps)
qed

lemma normalize_host_variant:
  assumes "to_ascii_lowercase g = to_ascii_lowercase h" and "list_all printable (g @ h)"
    and "h \<noteq> []" and "last h \<noteq> CHR ''.''"
  shows "normalize_host (g @ ''.'') = normalize_host h"
proof -
  have g: "g \<noteq> []" using assms(1,3) by auto
  have "trim (g @ ''.'') = g @ ''.''"
    using assms(2) g by (intro trim_printable) (auto simp: list_all_iff printable_def)
  moreover have "trim h = h"
    using assms(2,3) by (intro trim_printable) (auto simp: list_all_iff)
  ultimately show ?thesis
    using assms by (simp add: normalize_host_def strip_dot_def)
qed

section \<open>Properties\<close>

text \<open>C20: A presented key stands for at most one identity: in a validated set the candidate keys
  are pairwise distinct, the key at each position is the key of the identity at that position, and
  the identities are exactly the enabled tenants and the unexpired codes.\<close>

theorem candidates_identify:
  assumes "wf_set s"
  shows "distinct (psks (candidates_at s now))
    \<and> psks (candidates_at s now) = map identity_psk (ids (candidates_at s now))
    \<and> set (ids (candidates_at s now)) =
        IsTenant ` {t. t \<in> set (tenants s) \<and> \<not> disabled t}
        \<union> IsCode ` {c. c \<in> set (codes s) \<and> unexpired now c}
    \<and> (identifies s now p i \<and> identifies s now p j \<longrightarrow> i = j)"
  using candidates_distinct [OF assms, of now] candidates_psks [of s now]
    identifies_unique [OF assms, of now p i j]
  by (auto simp: candidates_at_eq)

definition sample_tenant :: "string \<Rightarrow> psk \<Rightarrow> string \<Rightarrow> tenant" where
  "sample_tenant n p h = \<lparr>tname = n, tpsk = p, tsni = h, tmax_conns = 2, disabled = False\<rparr>"

definition sample_psk :: "byte \<Rightarrow> psk" where
  "sample_psk b = Psk (replicate 32 b)"

lemma sample_psk_eq [simp]: "sample_psk b = sample_psk c \<longleftrightarrow> b = c"
  by (simp add: sample_psk_def)

definition sample_set :: tenant_set where
  "sample_set = \<lparr>tenants = [sample_tenant ''a'' (sample_psk 1) ''a.example''],
     codes = [\<lparr>cpsk = sample_psk 2, csni = ''b.example'', cmax_conns = 3, expires_at = Some 100\<rparr>,
              \<lparr>cpsk = sample_psk 3, csni = ''B.Example.'', cmax_conns = 3, expires_at = None\<rparr>]\<rparr>"

lemma normalize_printable:
  "printable (hd h) \<Longrightarrow> printable (last h) \<Longrightarrow> normalize_host h = to_ascii_lowercase (strip_dot h)"
  by (simp add: normalize_host_def trim_printable)

lemma sample_lower:
  "lower_char (CHR ''a'') = CHR ''a''" "lower_char (CHR ''b'') = CHR ''b''"
  "lower_char (CHR ''e'') = CHR ''e''" "lower_char (CHR ''x'') = CHR ''x''"
  "lower_char (CHR ''m'') = CHR ''m''" "lower_char (CHR ''p'') = CHR ''p''"
  "lower_char (CHR ''l'') = CHR ''l''" "lower_char (CHR ''.'') = CHR ''.''"
  "lower_char (CHR ''A'') = CHR ''a''" "lower_char (CHR ''B'') = CHR ''b''"
  "lower_char (CHR ''E'') = CHR ''e''" "lower_char (CHR ''X'') = CHR ''x''"
  "lower_char (CHR ''M'') = CHR ''m''" "lower_char (CHR ''P'') = CHR ''p''"
  "lower_char (CHR ''L'') = CHR ''l''"
  by code_simp+

lemma sample_hosts:
  "normalize_host ''a.example'' = ''a.example''" "normalize_host ''b.example'' = ''b.example''"
  "normalize_host ''B.Example.'' = ''b.example''" "normalize_host ''A.EXAMPLE.'' = ''a.example''"
  by (simp_all add: normalize_printable printable_def strip_dot_def sample_lower)

lemma sample_wf: "wf_set sample_set"
  by (simp add: wf_set_def sample_set_def sample_tenant_def wf_tenant_def wf_enroll_code_def
      sample_hosts)

theorem candidates_identify_witness:
  "distinct (psks (candidates_at sample_set 5)) \<and> length (psks (candidates_at sample_set 5)) = 3"
  using candidates_identify [OF sample_wf, of 5]
  by (simp add: candidates_at_eq sample_set_def sample_tenant_def unexpired_def)

text \<open>Host routing: a host name is routed to the one enabled tenant that holds it, ignoring ASCII
  case, surrounding white space and one trailing dot, and to no tenant when none holds it.\<close>

theorem routing_exact:
  assumes "wf_set s"
  shows "(tenant_by_sni s host = Some t \<longleftrightarrow>
      t \<in> set (tenants s) \<and> \<not> disabled t \<and> normalize_host (tsni t) = normalize_host host)
    \<and> (normalize_host g = normalize_host host \<longrightarrow> tenant_by_sni s g = tenant_by_sni s host)"
  using tenant_by_sni_iff [OF assms, of host t] by (simp add: tenant_by_sni_def)

theorem routing_exact_witness:
  "tenant_by_sni sample_set ''A.EXAMPLE.'' = Some (sample_tenant ''a'' (sample_psk 1) ''a.example'')"
  by (rule iffD2 [OF conjunct1 [OF routing_exact [OF sample_wf]]])
    (simp add: sample_set_def sample_tenant_def sample_hosts)
text \<open>C21: An enrollment code is single-use: once it has been redeemed, no later attempt with the same
  code succeeds, whatever edits (other codes redeemed, tenants added, disabled or revoked, new codes
  issued) happen in between, as long as no one issues a code with the same key again.\<close>

theorem code_single_use:
  assumes "redeem s p now n k = Inr (s', t)"
    and "\<forall>c. IssueCode c \<in> set es \<longrightarrow> cpsk c \<noteq> p"
  shows "redeem (run_edits s' es) p now' n' k' = Inl BadCode"
proof (rule redeem_unknown)
  from assms have "p \<notin> cpsk ` set (codes s') \<union> {cpsk c | c. IssueCode c \<in> set es}"
    by (auto simp: redeem_iff)
  then show "p \<notin> cpsk ` set (codes (run_edits s' es))"
    by (rule contra_subsetD [OF run_edits_codes])
qed

definition sample_redeemed :: tenant_set where
  "sample_redeemed = \<lparr>tenants = [sample_tenant ''a'' (sample_psk 1) ''a.example'',
       \<lparr>tname = ''t-0'', tpsk = sample_psk 9, tsni = ''b.example'', tmax_conns = 3, disabled = False\<rparr>],
     codes = [\<lparr>cpsk = sample_psk 3, csni = ''B.Example.'', cmax_conns = 3, expires_at = None\<rparr>]\<rparr>"

lemma sample_redeem:
  "redeem sample_set (sample_psk 2) 5 ''t-0'' (sample_psk 9) = Inr (sample_redeemed,
    \<lparr>tname = ''t-0'', tpsk = sample_psk 9, tsni = ''b.example'', tmax_conns = 3, disabled = False\<rparr>)"
  by (simp add: redeem_iff sample_set_def sample_redeemed_def sample_tenant_def unexpired_def
      wf_set_def wf_tenant_def wf_enroll_code_def sample_hosts)

theorem code_single_use_witness:
  "redeem (run_edits sample_redeemed [SetDisabled ''a'' True, Revoke ''t-0''])
     (sample_psk 2) 6 ''t-1'' (sample_psk 8) = Inl BadCode"
  by (rule code_single_use [OF sample_redeem]) simp

text \<open>Redeeming an outstanding, unexpired code turns it into an enabled tenant that inherits the
  code's host and connection limit: the tenant is routed to, its key authenticates it, the code's key
  no longer stands for anything, every earlier tenant stays, and no other code for the same host can
  be redeemed while the tenant exists.\<close>

theorem redeem_effect:
  assumes "wf_set s" and "redeem s p now n k = Inr (s', t)"
  shows "(\<exists>c \<in> set (codes s). cpsk c = p \<and> unexpired now c \<and> tsni t = csni c
        \<and> tmax_conns t = cmax_conns c)
    \<and> tname t = n \<and> tpsk t = k \<and> \<not> disabled t \<and> tenants s' = tenants s @ [t]
    \<and> tenant_by_sni s' (tsni t) = Some t \<and> identifies s' now' k (IsTenant t)
    \<and> (k \<noteq> p \<longrightarrow> (\<forall>i. \<not> identifies s' now' p i))
    \<and> (\<forall>c \<in> set (codes s'). normalize_host (csni c) = normalize_host (tsni t) \<longrightarrow>
         \<not> is_ok (redeem s' (cpsk c) now' n' k'))"
proof -
  from assms(2) obtain c where c: "find (\<lambda>c. cpsk c = p \<and> unexpired now c) (codes s) = Some c"
    and t: "t = \<lparr>tname = n, tpsk = k, tsni = csni c, tmax_conns = cmax_conns c, disabled = False\<rparr>"
    and s': "s' = \<lparr>tenants = tenants s @ [t],
                codes = filter (\<lambda>c. cpsk c \<noteq> p \<and> unexpired now c) (codes s)\<rparr>"
    and wf: "wf_set s'" unfolding redeem_iff by blast
  have r: "tenant_by_sni s' (tsni t) = Some t"
    by (rule iffD2 [OF tenant_by_sni_iff [OF wf]]) (simp add: s' t)
  have i: "identifies s' now' k (IsTenant t)"
    by (simp add: identifies_def candidates_ids_iff s' t)
  have n: "\<not> is_ok (redeem s' (cpsk d) now' n' k')"
    if d: "d \<in> set (codes s')" "normalize_host (csni d) = normalize_host (tsni t)" for d
  proof
    assume "is_ok (redeem s' (cpsk d) now' n' k')"
    then obtain s2 t2 where "redeem s' (cpsk d) now' n' k' = Inr (s2, t2)"
      by (auto simp: is_ok_iff)
    then obtain e where e: "find (\<lambda>c. cpsk c = cpsk d \<and> unexpired now' c) (codes s') = Some e"
      and t2: "tsni t2 = csni e" and "s2 = \<lparr>tenants = tenants s' @ [t2],
          codes = filter (\<lambda>c. cpsk c \<noteq> cpsk d \<and> unexpired now' c) (codes s')\<rparr>" and "wf_set s2"
      unfolding redeem_iff by auto
    then have "normalize_host (csni e) \<noteq> normalize_host (tsni t)"
      by (auto simp: wf_set_def s')
    moreover have "distinct (map cpsk (codes s'))" using wf by (simp add: wf_set_def)
    then have "e = d" using find_SomeD [OF e] d(1) by (auto dest: distinct_map_unique)
    ultimately show False using d(2) by simp
  qed
  have "\<exists>c \<in> set (codes s). cpsk c = p \<and> unexpired now c \<and> tsni t = csni c
        \<and> tmax_conns t = cmax_conns c"
    using find_SomeD [OF c] by (auto simp: t)
  moreover have "\<not> identifies s' now' p i" if "k \<noteq> p" for i
  proof -
    have "p \<notin> tpsk ` set (tenants s)" using assms(1) find_SomeD [OF c] by (auto simp: wf_set_def)
    with that show ?thesis by (cases i) (auto simp: identifies_def candidates_ids_iff s' t)
  qed
  ultimately show ?thesis using r i n by (simp add: t s')
qed

theorem redeem_effect_witness:
  "\<not> is_ok (redeem sample_redeemed (sample_psk 3) 6 ''t-1'' (sample_psk 8))"
  using redeem_effect [OF sample_wf sample_redeem, of 6 "''t-1''" "sample_psk 8"]
  by (simp add: sample_redeemed_def sample_hosts)

text \<open>Revoking an existing tenant or switching it off succeeds, and then its key stands for nothing and its host is routed to no one, while every other key and
  every other host answers as before; switching it back on restores the set.\<close>

theorem revoke_disable_effect:
  assumes "wf_set s" and "find_tenant s n = Some t" and "e = Revoke n \<or> e = SetDisabled n True"
  shows "\<exists>s'. apply_edit s e = Inr s'
    \<and> (\<forall>i. \<not> identifies s' now (tpsk t) i) \<and> tenant_by_sni s' (tsni t) = None
    \<and> (p \<noteq> tpsk t \<longrightarrow> (\<forall>i. identifies s' now p i \<longleftrightarrow> identifies s now p i))
    \<and> (normalize_host h \<noteq> normalize_host (tsni t) \<longrightarrow> tenant_by_sni s' h = tenant_by_sni s h)
    \<and> (\<not> disabled t \<and> e = SetDisabled n True \<longrightarrow> apply_edit s' (SetDisabled n False) = Inr s)"
proof -
  have t: "t \<in> set (tenants s)" "tname t = n" using assms(1,2) by (simp_all add: find_tenant_iff)
  have ex: "find_tenant s n \<noteq> None" using assms(2) by simp
  have un: "u = t" if "u \<in> set (tenants s)" "tname u = n" for u
    using assms(1) that t by (auto simp: wf_set_def dest: distinct_map_unique)
  let ?off = "\<lambda>d. map (\<lambda>t. if tname t = n then t\<lparr>disabled := d\<rparr> else t) (tenants s)"
  define s' where "s' = (if e = Revoke n
    then \<lparr>tenants = filter (\<lambda>t. tname t \<noteq> n) (tenants s), codes = codes s\<rparr>
    else \<lparr>tenants = ?off True, codes = codes s\<rparr>)"
  have ap: "apply_edit s e = Inr s'"
    using assms(3) without_tenant_eq [OF assms(1) ex] with_disabled_eq [OF assms(1) ex]
    by (auto simp: s'_def)
  have wf: "wf_set s'" using apply_edit_wf [OF ap] .
  have cd: "codes s' = codes s" by (simp add: s'_def)
  have live: "u \<in> set (tenants s') \<and> \<not> disabled u \<longleftrightarrow>
      u \<in> set (tenants s) \<and> \<not> disabled u \<and> u \<noteq> t" for u
  proof -
    have "u \<noteq> t \<longleftrightarrow> tname u \<noteq> n" if "u \<in> set (tenants s)" using un [OF that] t(2) by blast
    then show ?thesis
      by (cases "e = Revoke n") (auto simp: s'_def image_iff split: if_splits)
  qed
  have ids: "identifies s' now q i \<longleftrightarrow> identifies s now q i \<and> i \<noteq> IsTenant t" for q i
    using live by (cases i) (auto simp: identifies_def candidates_ids_iff cd)
  have key: "\<not> identifies s' now (tpsk t) i" for i
  proof (cases i)
    case (IsTenant u)
    have "distinct (map tpsk (tenants s))" using assms(1) by (simp add: wf_set_def)
    then have "u \<in> set (tenants s) \<Longrightarrow> tpsk u = tpsk t \<Longrightarrow> u = t"
      using t(1) by (blast dest: distinct_map_unique)
    moreover have "identifies s now (tpsk t) i \<longleftrightarrow> u \<in> set (tenants s) \<and> \<not> disabled u \<and> tpsk u = tpsk t"
      by (simp add: identifies_def candidates_ids_iff IsTenant)
    ultimately show ?thesis using ids [of "tpsk t" i] IsTenant by blast
  next
    case (IsCode c)
    have "tpsk ` set (tenants s) \<inter> cpsk ` set (codes s) = {}" using assms(1) by (simp add: wf_set_def)
    then have "c \<in> set (codes s) \<Longrightarrow> cpsk c \<noteq> tpsk t" using t(1) by blast
    moreover have "identifies s now (tpsk t) i \<longleftrightarrow> c \<in> set (codes s) \<and> unexpired now c \<and> cpsk c = tpsk t"
      by (simp add: identifies_def candidates_ids_iff IsCode)
    ultimately show ?thesis using ids [of "tpsk t" i] by blast
  qed
  have route: "tenant_by_sni s' g = Some u \<longleftrightarrow> tenant_by_sni s g = Some u \<and> u \<noteq> t" for g u
    using live by (auto simp: tenant_by_sni_iff [OF wf] tenant_by_sni_iff [OF assms(1)])
  have none: "tenant_by_sni s' (tsni t) = None"
  proof (rule ccontr)
    assume "tenant_by_sni s' (tsni t) \<noteq> None"
    then obtain u where u: "tenant_by_sni s' (tsni t) = Some u" by blast
    then have "u \<in> set (tenants s)" "normalize_host (tsni u) = normalize_host (tsni t)" "u \<noteq> t"
      by (auto simp: route tenant_by_sni_iff [OF assms(1)])
    with t(1) assms(1) show False by (auto simp: wf_set_def dest: distinct_map_unique)
  qed
  have same: "tenant_by_sni s' h = tenant_by_sni s h"
    if "normalize_host h \<noteq> normalize_host (tsni t)"
  proof (rule option_eqI)
    fix u
    have "tenant_by_sni s h = Some u \<Longrightarrow> u \<noteq> t"
      using that by (auto simp: tenant_by_sni_iff [OF assms(1)])
    with route [of h u] show "tenant_by_sni s' h = Some u \<longleftrightarrow> tenant_by_sni s h = Some u" by blast
  qed
  have restored: "apply_edit s' (SetDisabled n False) = Inr s"
    if d: "\<not> disabled t" "e = SetDisabled n True"
  proof -
    have "map tname (tenants s') = map tname (tenants s)"
      by (simp add: s'_def d(2) comp_def del: if_image_distrib)
    then have "tname ` set (tenants s') = tname ` set (tenants s)" by (metis set_map)
    then have "find_tenant s' n \<noteq> None" using t by (auto simp: find_tenant_None)
    then have "with_disabled s' n False = Inr \<lparr>tenants = map (\<lambda>t. if tname t = n then t\<lparr>disabled := False\<rparr> else t) (tenants s'), codes = codes s'\<rparr>"
      by (rule with_disabled_eq [OF wf])
    moreover have "map (\<lambda>t. if tname t = n then t\<lparr>disabled := False\<rparr> else t) (tenants s') = ?off False"
      by (simp add: s'_def d(2))
    ultimately have "apply_edit s' (SetDisabled n False) = Inr \<lparr>tenants = ?off False, codes = codes s\<rparr>"
      by (simp add: cd)
    moreover have "?off False = tenants s" using un d(1) by (intro map_idI) auto
    ultimately show ?thesis by simp
  qed
  have "identifies s' now p i \<longleftrightarrow> identifies s now p i" if "p \<noteq> tpsk t" for i
    using ids [of p i] that by (auto simp: identifies_def)
  then show ?thesis using ap key none same restored by auto
qed

theorem revoke_disable_effect_witness:
  "\<exists>s'. apply_edit sample_set (Revoke ''a'') = Inr s' \<and> tenant_by_sni s' ''a.example'' = None"
  using revoke_disable_effect [OF sample_wf, of "''a''" "sample_tenant ''a'' (sample_psk 1) ''a.example''"
      "Revoke ''a''"]
  by (simp add: find_tenant_def sample_set_def sample_tenant_def del: apply_edit.simps) blast

end
