(* ===== verification/Tenant_Store.thy ===== *)
theory Tenant_Store
  imports Tenants
begin

text \<open>
  Where tenants live (\<open>tenant_store.rs\<close>, and \<open>from_toml\<close>, \<open>to_toml\<close>, \<open>load\<close> of
  \<open>tenant.rs\<close>). The trait \<open>TenantStore\<close> is the locale \<open>tenant_store\<close>: its two required
  methods and the laws its documentation promises; the provided methods are proved against it once.
  \<open>MemoryStore\<close> is an interpretation; \<open>FileStore\<close> satisfies the laws for every TOML codec
  that reads back what it wrote, and its writers are also modelled as interleaved steps.
\<close>

section \<open>The trait and its provided methods\<close>

text \<open>An edit is an \<open>FnMut\<close>: it may set one captured variable, the tenant that \<open>redeem\<close>
  creates.\<close>

type_synonym edit_fn = "tenant_set \<Rightarrow> tenant option \<Rightarrow> (tenant_error + tenant_set) \<times> tenant option"

type_synonym 's replace_fn =
  "edit_fn \<Rightarrow> tenant option \<Rightarrow> 's \<Rightarrow> (tenant_error + tenant_set) \<times> tenant option \<times> 's"

definition plain_edit :: "(tenant_set \<Rightarrow> tenant_error + tenant_set) \<Rightarrow> edit_fn" where
  "plain_edit f s created = (f s, created)"

definition replace_drop ::
  "'s replace_fn \<Rightarrow> (tenant_set \<Rightarrow> tenant_error + tenant_set) \<Rightarrow> ('s, tenant_error, unit) step" where
  "replace_drop rep f st =
     (case rep (plain_edit f) None st of (r, _, st') \<Rightarrow> (rbind r (\<lambda>_. Inr ()), st'))"

definition add_tenant :: "'s replace_fn \<Rightarrow> tenant \<Rightarrow> ('s, tenant_error, unit) step" where
  "add_tenant rep t = replace_drop rep (\<lambda>s. with_tenant s t)"

definition issue_code :: "'s replace_fn \<Rightarrow> enroll_code \<Rightarrow> ('s, tenant_error, unit) step" where
  "issue_code rep c = replace_drop rep (\<lambda>s. with_code s c)"

definition revoke :: "'s replace_fn \<Rightarrow> string \<Rightarrow> ('s, tenant_error, unit) step" where
  "revoke rep n = replace_drop rep (\<lambda>s. without_tenant s n)"

definition set_disabled :: "'s replace_fn \<Rightarrow> string \<Rightarrow> bool \<Rightarrow> ('s, tenant_error, unit) step" where
  "set_disabled rep n d = replace_drop rep (\<lambda>s. with_disabled s n d)"

definition redeem_edit :: "psk \<Rightarrow> u64 \<Rightarrow> string \<Rightarrow> psk \<Rightarrow> edit_fn" where
  "redeem_edit p now n k s created =
     (case redeem s p now n k of
        Inl e \<Rightarrow> (Inl e, created)
      | Inr (next, t) \<Rightarrow> (Inr next, Some t))"

definition store_redeem ::
  "'s replace_fn \<Rightarrow> psk \<Rightarrow> u64 \<Rightarrow> string \<Rightarrow> psk \<Rightarrow> ('s, tenant_error, tenant) step" where
  "store_redeem rep p now n k st =
     (case rep (redeem_edit p now n k) None st of
        (Inl e, _, st') \<Rightarrow> (Inl e, st')
      | (Inr _, created, st') \<Rightarrow>
          (ok_or created (Panicked ''redeem succeeded without producing a tenant''), st'))"

text \<open>The operations by the edit they perform.\<close>

fun store_op :: "'s replace_fn \<Rightarrow> edit \<Rightarrow> ('s, tenant_error, unit) step" where
  "store_op rep (AddTenant t) st = add_tenant rep t st"
| "store_op rep (IssueCode c) st = issue_code rep c st"
| "store_op rep (Revoke n) st = revoke rep n st"
| "store_op rep (SetDisabled n d) st = set_disabled rep n d st"
| "store_op rep (Redeem p now n k) st =
     (case store_redeem rep p now n k st of (r, st') \<Rightarrow> (rbind r (\<lambda>_. Inr ()), st'))"

text \<open>A history of operations: which of them succeeded, and the store they leave.\<close>

fun run_store :: "'s replace_fn \<Rightarrow> edit list \<Rightarrow> 's \<Rightarrow> edit list \<times> 's" where
  "run_store rep [] st = ([], st)"
| "run_store rep (e # es) st =
     (case store_op rep e st of (r, st1) \<Rightarrow>
        (case run_store rep es st1 of (kept, st2) \<Rightarrow> (if is_ok r then e # kept else kept, st2)))"

section \<open>The contract\<close>

text \<open>A \<open>Psk\<close> is an array of 32 bytes: what the Rust type guarantees of the values in a set.\<close>

definition typed_set :: "tenant_set \<Rightarrow> bool" where
  "typed_set s \<longleftrightarrow> (\<forall>t \<in> set (tenants s). wf_psk (tpsk t)) \<and> (\<forall>c \<in> set (codes s). wf_psk (cpsk c))"

fun typed_edit :: "edit \<Rightarrow> bool" where
  "typed_edit (AddTenant t) = wf_psk (tpsk t)"
| "typed_edit (IssueCode c) = wf_psk (cpsk c)"
| "typed_edit (Redeem p now n k) = wf_psk k"
| "typed_edit _ = True"

definition keeps_good :: "edit_fn \<Rightarrow> bool" where
  "keeps_good f \<longleftrightarrow> (\<forall>s c s' c'. wf_set s \<and> typed_set s \<and> f s c = (Inr s', c') \<longrightarrow>
     wf_set s' \<and> typed_set s')"

fun edit_of :: "edit \<Rightarrow> edit_fn" where
  "edit_of (Redeem p now n k) = redeem_edit p now n k"
| "edit_of e = plain_edit (\<lambda>s. apply_edit s e)"

lemma edit_of_Inr:
  "edit_of e s c = (Inr s', c') \<Longrightarrow> apply_edit s e = Inr s'"
  by (cases e) (auto simp: plain_edit_def redeem_edit_def split: sum.splits prod.splits)

lemma apply_edit_typed:
  assumes "apply_edit s e = Inr s'" and "typed_set s" and "typed_edit e"
  shows "typed_set s'"
  using assms
  by (cases e) (auto simp: typed_set_def with_tenant_def with_code_def without_tenant_def
      with_disabled_def tenant_set_new_iff redeem_iff rbind_eq_Inr_iff
      split: option.splits if_splits)

lemma edit_of_keeps_good: "typed_edit e \<Longrightarrow> keeps_good (edit_of e)"
  unfolding keeps_good_def by (blast dest: edit_of_Inr intro: apply_edit_wf apply_edit_typed)

locale tenant_store =
  fixes snapshot :: "'s \<Rightarrow> tenant_error + tenant_set"
    and replace_with :: "'s replace_fn"
    and inv :: "'s \<Rightarrow> bool"
  assumes replace_commits: "inv st \<Longrightarrow> keeps_good f \<Longrightarrow> replace_with f c st = (Inr s', c', st') \<Longrightarrow>
      inv st' \<and> snapshot st' = Inr s' \<and> (\<exists>s. snapshot st = Inr s \<and> f s c = (Inr s', c'))"
    and replace_aborts: "inv st \<Longrightarrow> keeps_good f \<Longrightarrow> replace_with f c st = (Inl e, c', st') \<Longrightarrow>
      inv st' \<and> snapshot st' = snapshot st"
begin

lemma op_eq:
  "store_op replace_with e st =
     (case replace_with (edit_of e) None st of (r, c, st') \<Rightarrow>
        (case r of Inl x \<Rightarrow> (Inl x, st')
         | Inr _ \<Rightarrow> (case e of Redeem _ _ _ _ \<Rightarrow>
             rbind (ok_or c (Panicked ''redeem succeeded without producing a tenant'')) (\<lambda>_. Inr ())
             | _ \<Rightarrow> Inr (), st')))"
  by (cases e) (auto simp: add_tenant_def issue_code_def revoke_def set_disabled_def
      replace_drop_def store_redeem_def split: prod.split sum.split)

lemma op_cases:
  assumes "inv st" and "typed_edit e" and "store_op replace_with e st = (r, st')"
  shows "inv st' \<and> (case r of
      Inr _ \<Rightarrow> (\<exists>s s'. snapshot st = Inr s \<and> apply_edit s e = Inr s' \<and> snapshot st' = Inr s')
    | Inl x \<Rightarrow> snapshot st' = snapshot st \<and> (\<exists>c'. replace_with (edit_of e) None st = (Inl x, c', st')))"
proof -
  obtain q c' st2 where rep: "replace_with (edit_of e) None st = (q, c', st2)"
    by (cases "replace_with (edit_of e) None st") auto
  note good = edit_of_keeps_good [OF assms(2)]
  show ?thesis
  proof (cases q)
    case (Inl x)
    with rep replace_aborts [OF assms(1) good, of None x c' st2] assms(3) show ?thesis
      by (auto simp: op_eq)
  next
    case (Inr s')
    with rep replace_commits [OF assms(1) good, of None s' c' st2]
    obtain s where s: "inv st2" "snapshot st2 = Inr s'" "snapshot st = Inr s"
      "edit_of e s None = (Inr s', c')" by auto
    have "c' \<noteq> None" if "e = Redeem p now n k" for p now n k
      using s(4) that by (auto simp: redeem_edit_def split: sum.splits prod.splits)
    with Inr rep assms(3) have "r = Inr ()" "st' = st2" by (auto simp: op_eq split: edit.splits)
    with s edit_of_Inr [OF s(4)] show ?thesis by auto
  qed
qed

text \<open>A history leaves what its successful operations leave on the pure set, in order.\<close>

lemma run_eq:
  assumes "inv st" and "\<forall>e \<in> set es. typed_edit e" and "snapshot st = Inr s"
    and "run_store replace_with es st = (kept, st')"
  shows "inv st' \<and> snapshot st' = Inr (run_edits s kept) \<and> set kept \<subseteq> set es"
  using assms
proof (induction es arbitrary: st s kept)
  case (Cons e es)
  obtain r st1 where o: "store_op replace_with e st = (r, st1)" by force
  obtain rest st2 where q: "run_store replace_with es st1 = (rest, st2)" by force
  have c: "kept = (if is_ok r then e # rest else rest)" "st' = st2"
    using Cons.prems(4) o q by auto
  note cs = op_cases [OF Cons.prems(1) _ o]
  show ?case
  proof (cases r)
    case (Inl x)
    with cs Cons.prems have "inv st1" "snapshot st1 = Inr s" by auto
    with Cons.IH [of st1 s rest] Cons.prems(2) q c Inl show ?thesis by auto
  next
    case (Inr u)
    with cs Cons.prems obtain s' where "inv st1" "apply_edit s e = Inr s'" "snapshot st1 = Inr s'"
      by auto
    with Cons.IH [of st1 s' rest] Cons.prems(2) q c Inr show ?thesis by auto
  qed
qed simp

lemma redeem_once:
  assumes "inv st" and "typed_edit (Redeem p now n k)"
    and "store_op replace_with (Redeem p now n k) st = (Inr u, st1)"
    and "\<forall>e \<in> set es. typed_edit e" and "\<forall>c. IssueCode c \<in> set es \<longrightarrow> cpsk c \<noteq> p"
    and "run_store replace_with es st1 = (kept, st2)" and "wf_psk k'"
  shows "\<not> is_ok (fst (store_op replace_with (Redeem p now' n' k') st2))"
proof
  assume "is_ok (fst (store_op replace_with (Redeem p now' n' k') st2))"
  then obtain v st3 where again: "store_op replace_with (Redeem p now' n' k') st2 = (Inr v, st3)"
    by (cases "store_op replace_with (Redeem p now' n' k') st2") (auto simp: is_ok_iff)
  from op_cases [OF assms(1-3)] obtain s s' where s: "inv st1" "snapshot st1 = Inr s'"
    "apply_edit s (Redeem p now n k) = Inr s'" by auto
  from run_eq [OF s(1) assms(4) s(2) assms(6)]
  have r: "inv st2" "snapshot st2 = Inr (run_edits s' kept)" "set kept \<subseteq> set es" by auto
  from op_cases [OF r(1) _ again] r(2) assms(7)
  have ok: "is_ok (apply_edit (run_edits s' kept) (Redeem p now' n' k'))" by auto
  have "p \<notin> cpsk ` set (codes s') \<union> {cpsk c | c. IssueCode c \<in> set kept}"
    using s(3) assms(5) r(3) by (auto simp: rbind_eq_Inr_iff redeem_iff)
  then have "p \<notin> cpsk ` set (codes (run_edits s' kept))"
    by (rule contra_subsetD [OF run_edits_codes])
  with ok show False by (simp add: redeem_unknown)
qed

end

section \<open>MemoryStore\<close>

text \<open>The mutex holds one set; the edit runs under the lock.\<close>

definition memory_snapshot :: "tenant_set \<Rightarrow> tenant_error + tenant_set" where
  "memory_snapshot st = Inr st"

definition memory_replace_with :: "tenant_set replace_fn" where
  "memory_replace_with edit c st =
     (case edit st c of
        (Inl e, c') \<Rightarrow> (Inl e, c', st)
      | (Inr next, c') \<Rightarrow> (Inr next, c', next))"

definition good_set :: "tenant_set \<Rightarrow> bool" where
  "good_set s \<longleftrightarrow> wf_set s \<and> typed_set s"

lemma memory_replace_with_Inr:
  "memory_replace_with f c st = (Inr s', c', st') \<longleftrightarrow> f st c = (Inr s', c') \<and> st' = s'"
  by (auto simp: memory_replace_with_def split: prod.splits sum.splits)

lemma memory_replace_with_Inl:
  "memory_replace_with f c st = (Inl e, c', st') \<longleftrightarrow> f st c = (Inl e, c') \<and> st' = st"
  by (auto simp: memory_replace_with_def split: prod.splits sum.splits)

interpretation mem: tenant_store memory_snapshot memory_replace_with good_set
proof
  fix f c st s' c' st'
  assume "good_set st" "keeps_good f" "memory_replace_with f c st = (Inr s', c', st')"
  then show "good_set st' \<and> memory_snapshot st' = Inr s' \<and>
      (\<exists>s. memory_snapshot st = Inr s \<and> f s c = (Inr s', c'))"
    unfolding memory_replace_with_Inr memory_snapshot_def good_set_def keeps_good_def by blast
qed (simp add: memory_replace_with_Inl)

section \<open>The tenant file\<close>

text \<open>What serde hands to and takes from the TOML crate: keys as text, defaulted fields optional.
  The codec itself, from these rows to text and back, is an argument.\<close>

record tenant_row =
  row_name :: string
  row_psk :: string
  row_sni :: string
  row_max_conns :: "nat option"
  row_disabled :: "bool option"

record code_row =
  crow_psk :: string
  crow_sni :: string
  crow_max_conns :: "nat option"
  crow_expires_at :: "u64 option"

record tenant_file =
  file_tenant :: "tenant_row list"
  file_code :: "code_row list"

type_synonym encoder = "tenant_file \<Rightarrow> string option"
type_synonym decoder = "string \<Rightarrow> tenant_file option"

definition or_default :: "'a option \<Rightarrow> 'a \<Rightarrow> 'a" where
  "or_default m d = (case m of None \<Rightarrow> d | Some x \<Rightarrow> x)"

definition read_tenant :: "tenant_row \<Rightarrow> psk_error + tenant" where
  "read_tenant r = rbind (psk_deserialize (row_psk r)) (\<lambda>p.
     Inr \<lparr>tname = row_name r, tpsk = p, tsni = row_sni r,
          tmax_conns = or_default (row_max_conns r) DEFAULT_MAX_CONNS,
          disabled = or_default (row_disabled r) False\<rparr>)"

definition read_code :: "code_row \<Rightarrow> psk_error + enroll_code" where
  "read_code r = rbind (psk_deserialize (crow_psk r)) (\<lambda>p.
     Inr \<lparr>cpsk = p, csni = crow_sni r,
          cmax_conns = or_default (crow_max_conns r) DEFAULT_MAX_CONNS,
          expires_at = crow_expires_at r\<rparr>)"

definition write_tenant :: "tenant \<Rightarrow> tenant_row" where
  "write_tenant t = \<lparr>row_name = tname t, row_psk = psk_serialize (tpsk t), row_sni = tsni t,
     row_max_conns = Some (tmax_conns t), row_disabled = Some (disabled t)\<rparr>"

definition write_code :: "enroll_code \<Rightarrow> code_row" where
  "write_code c = \<lparr>crow_psk = psk_serialize (cpsk c), crow_sni = csni c,
     crow_max_conns = Some (cmax_conns c), crow_expires_at = expires_at c\<rparr>"

definition from_toml :: "decoder \<Rightarrow> string \<Rightarrow> tenant_error + tenant_set" where
  "from_toml dec text =
     rbind (ok_or (dec text) (Storage ''parsing tenant file'')) (\<lambda>file.
     rbind (map_err (\<lambda>_. Storage ''parsing tenant file'') (try_map read_tenant (file_tenant file))) (\<lambda>ts.
     rbind (map_err (\<lambda>_. Storage ''parsing tenant file'') (try_map read_code (file_code file))) (\<lambda>cs.
     tenant_set_new ts cs)))"

definition to_toml :: "encoder \<Rightarrow> tenant_set \<Rightarrow> tenant_error + string" where
  "to_toml enc s =
     ok_or (enc \<lparr>file_tenant = map write_tenant (tenants s), file_code = map write_code (codes s)\<rparr>)
       (Storage ''serialising tenant file'')"

text \<open>\<open>load\<close>: a missing file is an empty set; \<open>unreadable\<close> is any other failure of the read.\<close>

definition load :: "decoder \<Rightarrow> bool \<Rightarrow> string option \<Rightarrow> tenant_error + tenant_set" where
  "load dec unreadable content =
     (if unreadable then Inl (Storage ''reading'')
      else case content of
        None \<Rightarrow> Inr empty_set
      | Some text \<Rightarrow> map_err (\<lambda>_. Storage ''loading tenant file'') (from_toml dec text))"

text \<open>What the code relies on of the TOML crate: reading back what was written gives the rows.\<close>

definition toml_codec :: "encoder \<Rightarrow> decoder \<Rightarrow> bool" where
  "toml_codec enc dec \<longleftrightarrow> (\<forall>file text. enc file = Some text \<longrightarrow> dec text = Some file)"

lemma read_write_tenant: "wf_psk (tpsk t) \<Longrightarrow> read_tenant (write_tenant t) = Inr t"
  by (simp add: read_tenant_def write_tenant_def or_default_def)

lemma read_write_code: "wf_psk (cpsk c) \<Longrightarrow> read_code (write_code c) = Inr c"
  by (simp add: read_code_def write_code_def or_default_def)

lemma from_to_toml:
  assumes "toml_codec enc dec" and "good_set s" and "to_toml enc s = Inr text"
  shows "from_toml dec text = Inr s"
proof -
  from assms(1,3) have d: "dec text =
      Some \<lparr>file_tenant = map write_tenant (tenants s), file_code = map write_code (codes s)\<rparr>"
    by (simp add: toml_codec_def to_toml_def)
  have "try_map read_tenant (map write_tenant (tenants s)) = Inr (tenants s)"
    and "try_map read_code (map write_code (codes s)) = Inr (codes s)"
    using assms(2) by (auto simp: good_set_def typed_set_def intro!: try_map_Inr
        read_write_tenant read_write_code)
  then show ?thesis using d assms(2)
    by (simp add: from_toml_def good_set_def tenant_set_new_iff)
qed

lemma read_wf:
  "read_tenant r = Inr t \<Longrightarrow> wf_psk (tpsk t)"
  "read_code q = Inr c \<Longrightarrow> wf_psk (cpsk c)"
  by (auto simp: read_tenant_def read_code_def rbind_eq_Inr_iff intro: psk_deserialize_wf)

lemma from_toml_good: "from_toml dec text = Inr s \<Longrightarrow> good_set s"
proof -
  assume "from_toml dec text = Inr s"
  then obtain f :: tenant_file and ts cs where "try_map read_tenant (file_tenant f) = Inr ts"
    "try_map read_code (file_code f) = Inr cs" "s = \<lparr>tenants = ts, codes = cs\<rparr>" "wf_set s"
    unfolding from_toml_def rbind_eq_Inr_iff map_err_eq_Inr_iff tenant_set_new_iff by blast
  then show ?thesis unfolding good_set_def typed_set_def
    using try_map_all read_wf by (metis tenant_set.select_convs(1,2))
qed

lemma load_good: "load dec u content = Inr s \<Longrightarrow> good_set s"
  by (auto simp: load_def good_set_def [of empty_set] typed_set_def empty_set_wf
      split: if_splits option.splits dest: from_toml_good) (auto simp: empty_set_def)

section \<open>FileStore, one writer at a time\<close>

record disk =
  file_text :: "string option"
  tmp_text :: "string option"

text \<open>Which calls into the operating system fail during one \<open>replace_with\<close>.\<close>

record io_faults =
  lock_open_fault :: bool
  lock_fault :: bool
  read_fault :: bool
  remove_fault :: bool
  create_fault :: bool
  write_fault :: "nat option"
  rename_fault :: bool
  cleanup_fault :: bool

text \<open>\<open>write_private\<close>: remove a left-over, create the file anew, write and sync; a failed write
  leaves a prefix.\<close>

definition write_private :: "io_faults \<Rightarrow> string \<Rightarrow> (disk, tenant_error, unit) step" where
  "write_private flt text d =
     (if remove_fault flt then (Inl (Storage ''writing''), d)
      else if create_fault flt then (Inl (Storage ''writing''), d\<lparr>tmp_text := None\<rparr>)
      else case write_fault flt of
        Some k \<Rightarrow> (Inl (Storage ''writing''), d\<lparr>tmp_text := Some (take k text)\<rparr>)
      | None \<Rightarrow> (Inr (), d\<lparr>tmp_text := Some text\<rparr>))"

definition rename_tmp :: "io_faults \<Rightarrow> (disk, tenant_error, unit) step" where
  "rename_tmp flt d =
     (if rename_fault flt \<or> tmp_text d = None then (Inl (Storage ''replacing''), d)
      else (Inr (), d\<lparr>file_text := tmp_text d, tmp_text := None\<rparr>))"

definition file_snapshot :: "decoder \<Rightarrow> disk \<Rightarrow> tenant_error + tenant_set" where
  "file_snapshot dec d = load dec False (file_text d)"

definition file_replace_with :: "encoder \<Rightarrow> decoder \<Rightarrow> io_faults \<Rightarrow> disk replace_fn" where
  "file_replace_with enc dec flt edit c d =
     (if lock_open_fault flt then (Inl (Storage ''opening lock file''), c, d)
      else if lock_fault flt then (Inl (Storage ''locking the tenant file''), c, d)
      else case load dec (read_fault flt) (file_text d) of
        Inl e \<Rightarrow> (Inl e, c, d)
      | Inr current \<Rightarrow>
          (case edit current c of
             (Inl e, c') \<Rightarrow> (Inl e, c', d)
           | (Inr next, c') \<Rightarrow>
               (case to_toml enc next of
                  Inl e \<Rightarrow> (Inl e, c', d)
                | Inr text \<Rightarrow>
                    (case sbind (write_private flt text) (\<lambda>_. rename_tmp flt) d of
                       (Inl e, d') \<Rightarrow>
                         (Inl e, c', if cleanup_fault flt then d' else d'\<lparr>tmp_text := None\<rparr>)
                     | (Inr _, d') \<Rightarrow> (Inr next, c', d')))))"

lemma write_rename_Inr:
  "sbind (write_private flt text) (\<lambda>_. rename_tmp flt) d = (Inr u, d') \<Longrightarrow> file_text d' = Some text"
  by (auto simp: sbind_eq_Inr_iff write_private_def rename_tmp_def split: if_splits option.splits)

lemma write_rename_Inl:
  "sbind (write_private flt text) (\<lambda>_. rename_tmp flt) d = (Inl e, d') \<Longrightarrow> file_text d' = file_text d"
  by (auto simp: sbind_eq_Inl_iff write_private_def rename_tmp_def split: if_splits option.splits)

lemma file_replace_commits:
  assumes "toml_codec enc dec" and "keeps_good f"
    and "file_replace_with enc dec flt f c d = (Inr s', c', d')"
  shows "file_snapshot dec d' = Inr s' \<and> (\<exists>s. file_snapshot dec d = Inr s \<and> f s c = (Inr s', c'))"
proof -
  from assms(3) obtain s tx u where s: "load dec (read_fault flt) (file_text d) = Inr s"
    "f s c = (Inr s', c')" and t: "to_toml enc s' = Inr tx"
    and w: "sbind (write_private flt tx) (\<lambda>_. rename_tmp flt) d = (Inr u, d')"
    by (auto simp: file_replace_with_def split: if_splits sum.splits prod.splits)
  from s(1) have l: "load dec False (file_text d) = Inr s" by (auto simp: load_def split: if_splits)
  have "good_set s'" using load_good [OF l] s(2) assms(2) unfolding keeps_good_def good_set_def by blast
  from from_to_toml [OF assms(1) this t] have "load dec False (Some tx) = Inr s'"
    by (simp add: load_def)
  then show ?thesis using write_rename_Inr [OF w] l s(2) by (auto simp: file_snapshot_def)
qed

lemma file_replace_aborts:
  "file_replace_with enc dec flt f c d = (Inl e, c', d') \<Longrightarrow> file_text d' = file_text d"
  by (auto simp: file_replace_with_def split: if_splits sum.splits prod.splits
      dest: write_rename_Inl)

text \<open>The store as a sequence of calls sees it: each call consumes the faults scheduled for it.\<close>

definition no_faults :: io_faults where
  "no_faults = \<lparr>lock_open_fault = False, lock_fault = False, read_fault = False,
     remove_fault = False, create_fault = False, write_fault = None, rename_fault = False,
     cleanup_fault = False\<rparr>"

definition file_store :: "encoder \<Rightarrow> decoder \<Rightarrow> (disk \<times> io_faults list) replace_fn" where
  "file_store enc dec edit c st =
     (case st of (d, flts) \<Rightarrow>
       (case file_replace_with enc dec (case flts of [] \<Rightarrow> no_faults | flt # _ \<Rightarrow> flt) edit c d of
          (r, c', d') \<Rightarrow> (r, c', d', tl flts)))"

text \<open>\<open>FileStore\<close> keeps the contract whatever calls fail.\<close>

lemma file_store_laws:
  assumes "toml_codec enc dec"
  shows "tenant_store (file_snapshot dec \<circ> fst) (file_store enc dec) (\<lambda>_. True)"
proof
  fix st f c s' c' st'
  assume "keeps_good f" "file_store enc dec f c st = (Inr s', c', st')"
  then show "True \<and> (file_snapshot dec \<circ> fst) st' = Inr s' \<and>
      (\<exists>s. (file_snapshot dec \<circ> fst) st = Inr s \<and> f s c = (Inr s', c'))"
    using file_replace_commits [OF assms] by (auto simp: file_store_def split: prod.splits)
next
  fix st f c e c' st'
  assume "file_store enc dec f c st = (Inl e, c', st')"
  then show "True \<and> (file_snapshot dec \<circ> fst) st' = (file_snapshot dec \<circ> fst) st"
    by (auto simp: file_store_def file_snapshot_def split: prod.splits dest: file_replace_aborts)
qed

section \<open>FileStore, concurrent writers and readers\<close>

text \<open>
  Any number of writers (threads or processes) run \<open>replace_with\<close> on one file, their steps
  interleaved with each other, with failures of the operating system and with crashes. Writer \<open>i\<close>
  performs the edit \<open>es i\<close> and belongs to process \<open>pid i\<close>, which names its temporary file.
  \<open>commits\<close> is a ghost: the writers whose rename took place, in order.
\<close>

datatype writer = Start | Locked | Edited tenant_set string | Written tenant_set string
  | Renamed tenant_set | Ended "tenant_error + tenant_set"

record files =
  content :: "string option"
  temps :: "nat \<Rightarrow> string option"
  holder :: "nat option"
  writers :: "nat \<Rightarrow> writer"
  commits :: "nat list"

definition release :: "nat \<Rightarrow> tenant_error + tenant_set \<Rightarrow> files \<Rightarrow> files" where
  "release i r f = f\<lparr>holder := (if holder f = Some i then None else holder f),
     writers := (writers f)(i := Ended r)\<rparr>"

inductive fstep ::
  "encoder \<Rightarrow> decoder \<Rightarrow> (nat \<Rightarrow> edit) \<Rightarrow> (nat \<Rightarrow> nat) \<Rightarrow> files \<Rightarrow> files \<Rightarrow> bool"
  for enc :: encoder and dec :: decoder and es :: "nat \<Rightarrow> edit" and pid :: "nat \<Rightarrow> nat"
where
  lock: "writers f i = Start \<Longrightarrow> holder f = None \<Longrightarrow>
    fstep enc dec es pid f (f\<lparr>holder := Some i, writers := (writers f)(i := Locked)\<rparr>)"
| lock_fails: "writers f i = Start \<Longrightarrow> fstep enc dec es pid f (release i (Inl e) f)"
| edits: "writers f i = Locked \<Longrightarrow> load dec False (content f) = Inr current \<Longrightarrow>
    apply_edit current (es i) = Inr next \<Longrightarrow> to_toml enc next = Inr t \<Longrightarrow>
    fstep enc dec es pid f (f\<lparr>writers := (writers f)(i := Edited next t)\<rparr>)"
| edit_fails: "writers f i = Locked \<Longrightarrow> load dec u (content f) = Inl e
      \<or> (\<exists>current. load dec u (content f) = Inr current \<and>
           (apply_edit current (es i) = Inl e
            \<or> (\<exists>next. apply_edit current (es i) = Inr next \<and> to_toml enc next = Inl e))) \<Longrightarrow>
    fstep enc dec es pid f (release i (Inl e) f)"
| writes: "writers f i = Edited next t \<Longrightarrow>
    fstep enc dec es pid f (f\<lparr>temps := (temps f)(pid i := Some (take k t))\<rparr>)"
| synced: "writers f i = Edited next t \<Longrightarrow>
    fstep enc dec es pid f (f\<lparr>temps := (temps f)(pid i := Some t),
      writers := (writers f)(i := Written next t)\<rparr>)"
| write_fails: "writers f i = Edited next t \<or> writers f i = Written next t \<Longrightarrow>
    fstep enc dec es pid f (release i (Inl e) (f\<lparr>temps := (temps f)(pid i := left_over)\<rparr>))"
| renames: "writers f i = Written next t \<Longrightarrow> temps f (pid i) = Some t' \<Longrightarrow>
    fstep enc dec es pid f (f\<lparr>content := Some t', temps := (temps f)(pid i := None),
      writers := (writers f)(i := Renamed next), commits := commits f @ [i]\<rparr>)"
| unlocks: "writers f i = Renamed next \<Longrightarrow> fstep enc dec es pid f (release i (Inr next) f)"
| crash: "(\<And>r. writers f i \<noteq> Ended r) \<Longrightarrow>
    fstep enc dec es pid f (release i (Inl (Panicked why)) f)"

inductive_cases fstepE: "fstep enc dec es pid f f'"

definition start_files :: "string option \<Rightarrow> files" where
  "start_files c = \<lparr>content = c, temps = (\<lambda>_. None), holder = None, writers = (\<lambda>_. Start), commits = []\<rparr>"

abbreviation freach ::
  "encoder \<Rightarrow> decoder \<Rightarrow> (nat \<Rightarrow> edit) \<Rightarrow> (nat \<Rightarrow> nat) \<Rightarrow> string option \<Rightarrow> files \<Rightarrow> bool" where
  "freach enc dec es pid c \<equiv> (fstep enc dec es pid)\<^sup>*\<^sup>* (start_files c)"

text \<open>The contents after the commits so far.\<close>

definition committed :: "(nat \<Rightarrow> edit) \<Rightarrow> tenant_set \<Rightarrow> nat list \<Rightarrow> tenant_set" where
  "committed es init is = run_edits init (map es is)"

definition writer_ok ::
  "encoder \<Rightarrow> (nat \<Rightarrow> edit) \<Rightarrow> (nat \<Rightarrow> nat) \<Rightarrow> tenant_set \<Rightarrow> files \<Rightarrow> nat \<Rightarrow> bool" where
  "writer_ok enc es pid init f i = (case writers f i of
      Start \<Rightarrow> i \<notin> set (commits f) \<and> holder f \<noteq> Some i
    | Locked \<Rightarrow> i \<notin> set (commits f) \<and> holder f = Some i
    | Edited next t \<Rightarrow> i \<notin> set (commits f) \<and> holder f = Some i
        \<and> apply_edit (committed es init (commits f)) (es i) = Inr next \<and> to_toml enc next = Inr t
    | Written next t \<Rightarrow> i \<notin> set (commits f) \<and> holder f = Some i
        \<and> apply_edit (committed es init (commits f)) (es i) = Inr next \<and> to_toml enc next = Inr t
        \<and> temps f (pid i) = Some t
    | Renamed next \<Rightarrow> i \<in> set (commits f) \<and> holder f = Some i
    | Ended r \<Rightarrow> (is_ok r \<longrightarrow> i \<in> set (commits f)) \<and> holder f \<noteq> Some i)"

definition files_inv ::
  "encoder \<Rightarrow> decoder \<Rightarrow> (nat \<Rightarrow> edit) \<Rightarrow> (nat \<Rightarrow> nat) \<Rightarrow> tenant_set \<Rightarrow> files \<Rightarrow> bool" where
  "files_inv enc dec es pid init f \<longleftrightarrow>
     load dec False (content f) = Inr (committed es init (commits f))
     \<and> distinct (commits f)
     \<and> (\<forall>xs i ys. commits f = xs @ i # ys \<longrightarrow> is_ok (apply_edit (committed es init xs) (es i)))
     \<and> (\<forall>i. writer_ok enc es pid init f i)"

lemma files_inv_start:
  assumes "load dec False c = Inr init"
  shows "files_inv enc dec es pid init (start_files c)"
  using assms by (simp add: files_inv_def start_files_def committed_def writer_ok_def)

lemma committed_snoc:
  "apply_edit (committed es init xs) (es i) = Inr s \<Longrightarrow> committed es init (xs @ [i]) = s"
proof -
  have "run_edits s0 (as @ [e]) = (case apply_edit (run_edits s0 as) e of
      Inl _ \<Rightarrow> run_edits s0 as | Inr s' \<Rightarrow> s')" for s0 as e
    by (induction as arbitrary: s0) (auto split: sum.split)
  then show "apply_edit (committed es init xs) (es i) = Inr s \<Longrightarrow> ?thesis"
    by (simp add: committed_def)
qed

text \<open>Only the writer that moves and the holder of the lock are concerned by a step.\<close>

lemma writer_ok_other:
  assumes "writer_ok enc es pid init f j" and "writers f' j = writers f j"
    and "holder f' = Some j \<longleftrightarrow> holder f = Some j" and "commits f' = commits f"
    and "temps f' (pid j) = temps f (pid j) \<or> holder f \<noteq> Some j"
  shows "writer_ok enc es pid init f' j"
  using assms unfolding writer_ok_def by (cases "writers f j") auto

lemma files_inv_local:
  assumes "files_inv enc dec es pid init f" and "content f' = content f" and "commits f' = commits f"
    and "\<And>j. j \<noteq> i \<Longrightarrow> writers f' j = writers f j"
    and "\<And>j. j \<noteq> i \<Longrightarrow> holder f' = Some j \<longleftrightarrow> holder f = Some j"
    and "\<And>j. j \<noteq> i \<Longrightarrow> temps f' (pid j) = temps f (pid j) \<or> holder f = Some i"
    and "writer_ok enc es pid init f' i"
  shows "files_inv enc dec es pid init f'"
proof -
  have "writer_ok enc es pid init f' j" for j
  proof (cases "j = i")
    case False
    with assms(1) show ?thesis
      by (intro writer_ok_other [of enc es pid init f j f'])
        (use assms(3-6) False in \<open>auto simp: files_inv_def\<close>)
  qed (use assms(7) in simp)
  with assms(1-3) show ?thesis by (simp add: files_inv_def)
qed

lemma files_inv_release:
  assumes "files_inv enc dec es pid init f" and "is_ok r \<longrightarrow> i \<in> set (commits f)"
    and "writers f i = Edited a b \<or> writers f i = Written a b \<or> left_over = temps f (pid i)"
  shows "files_inv enc dec es pid init (release i r (f\<lparr>temps := (temps f)(pid i := left_over)\<rparr>))"
proof (rule files_inv_local [OF assms(1), where i = i])
  have w: "writer_ok enc es pid init f i" using assms(1) by (simp add: files_inv_def)
  show "temps (release i r (f\<lparr>temps := (temps f)(pid i := left_over)\<rparr>)) (pid j) = temps f (pid j)
      \<or> holder f = Some i" for j
    using assms(3) w by (auto simp: release_def writer_ok_def split: writer.splits)
  show "writer_ok enc es pid init (release i r (f\<lparr>temps := (temps f)(pid i := left_over)\<rparr>)) i"
    using assms(2) by (simp add: release_def writer_ok_def)
qed (auto simp: release_def)

lemma files_inv_release':
  "files_inv enc dec es pid init f \<Longrightarrow> is_ok r \<longrightarrow> i \<in> set (commits f) \<Longrightarrow>
   files_inv enc dec es pid init (release i r f)"
  using files_inv_release [of enc dec es pid init f r i undefined undefined "temps f (pid i)"]
  by simp

lemma files_inv_rename:
  assumes codec: "toml_codec enc dec" and inv: "files_inv enc dec es pid init f"
    and typed: "typed_edit (es i)"
    and w: "writers f i = Written next t" and tm: "temps f (pid i) = Some t'"
  shows "files_inv enc dec es pid init (f\<lparr>content := Some t', temps := (temps f)(pid i := None),
      writers := (writers f)(i := Renamed next), commits := commits f @ [i]\<rparr>)"
    (is "files_inv _ _ _ _ _ ?f'")
proof -
  have all: "writer_ok enc es pid init f j" for j using inv by (simp add: files_inv_def)
  from all [of i] w tm have h: "holder f = Some i" "i \<notin> set (commits f)" and t': "t' = t"
    and ok: "apply_edit (committed es init (commits f)) (es i) = Inr next"
    and tx: "to_toml enc next = Inr t" by (auto simp: writer_ok_def)
  have "good_set (committed es init (commits f))"
    using inv by (auto simp: files_inv_def intro: load_good)
  then have "good_set next"
    using apply_edit_wf [OF ok] apply_edit_typed [OF ok _ typed] by (simp add: good_set_def)
  then have "load dec False (Some t) = Inr next"
    using from_to_toml [OF codec _ tx] by (simp add: load_def)
  moreover have "is_ok (apply_edit (committed es init xs) (es j))"
    if "commits f @ [i] = xs @ j # ys" for xs j ys
  proof (cases ys rule: rev_cases)
    case Nil
    with that ok show ?thesis by simp
  next
    case (snoc zs z)
    with that have "commits f = xs @ j # zs" by simp
    with inv show ?thesis by (simp add: files_inv_def)
  qed
  moreover have "writer_ok enc es pid init ?f' j" for j
  proof (cases "j = i")
    case True
    then show ?thesis using h by (simp add: writer_ok_def)
  next
    case False
    then show ?thesis using all [of j] h by (cases "writers f j") (auto simp: writer_ok_def)
  qed
  ultimately show ?thesis
    using inv h t' committed_snoc [OF ok] by (simp add: files_inv_def)
qed

lemma fstep_inv [invariants]:
  assumes codec: "toml_codec enc dec" and typed: "\<forall>i. typed_edit (es i)"
    and inv: "files_inv enc dec es pid init f" and step: "fstep enc dec es pid f f'"
  shows "files_inv enc dec es pid init f'"
proof -
  have all: "writer_ok enc es pid init f i" for i using inv by (simp add: files_inv_def)
  from step show ?thesis
  proof cases
    case (lock i)
    then show ?thesis using all [of i]
      by (intro files_inv_local [OF inv, where i = i]) (auto simp: writer_ok_def)
  next
    case (edits i current "next" t)
    then have "current = committed es init (commits f)" using inv by (simp add: files_inv_def)
    with edits show ?thesis using all [of i]
      by (intro files_inv_local [OF inv, where i = i]) (auto simp: writer_ok_def)
  next
    case (writes i "next" t k)
    then show ?thesis using all [of i]
      by (intro files_inv_local [OF inv, where i = i]) (auto simp: writer_ok_def)
  next
    case (synced i "next" t)
    then show ?thesis using all [of i]
      by (intro files_inv_local [OF inv, where i = i]) (auto simp: writer_ok_def)
  next
    case (write_fails i "next" t e left_over)
    then show ?thesis using files_inv_release [OF inv, of "Inl e" i "next" t left_over]
      by (simp only: is_ok_simps) blast
  next
    case (renames i "next" t t')
    then show ?thesis using files_inv_rename [OF codec inv] typed by simp
  next
    case (unlocks i "next")
    then show ?thesis using all [of i] files_inv_release' [OF inv, of "Inr next" i]
      by (simp add: writer_ok_def)
  qed (use files_inv_release' [OF inv] in simp_all)
qed

lemma freach_inv:
  assumes "toml_codec enc dec" and "\<forall>i. typed_edit (es i)" and "load dec False c = Inr init"
    and "freach enc dec es pid c f"
  shows "files_inv enc dec es pid init f"
  using assms(4)
proof (induction rule: rtranclp_induct)
  case base
  show ?case by (rule files_inv_start [OF assms(3)])
next
  case (step f f')
  then show ?case using fstep_inv [OF assms(1,2)] by blast
qed

section \<open>Properties\<close>

text \<open>Two redemptions in a linear history: the second fails.\<close>

lemma redeem_after_redeem:
  assumes "is_ok (apply_edit (committed es init xs) (es i))"
    and "is_ok (apply_edit (committed es init (xs @ i # ys)) (es j))"
    and "es i = Redeem p now n k" and "es j = Redeem p now' n' k'"
    and "\<forall>m c. es m = IssueCode c \<longrightarrow> cpsk c \<noteq> p"
  shows False
proof -
  from assms(1) obtain s' where s': "apply_edit (committed es init xs) (es i) = Inr s'"
    by (auto simp: is_ok_iff)
  have "run_edits s0 (as @ bs) = run_edits (run_edits s0 as) bs" for s0 as bs
    by (induction as arbitrary: s0) auto
  then have c: "committed es init (xs @ i # ys) = run_edits s' (map es ys)"
    using committed_snoc [of es init xs i, OF s'] by (simp add: committed_def)
  have "p \<notin> cpsk ` set (codes s') \<union> {cpsk c | c. IssueCode c \<in> set (map es ys)}"
  proof
    assume "p \<in> cpsk ` set (codes s') \<union> {cpsk c | c. IssueCode c \<in> set (map es ys)}"
    moreover have "p \<notin> cpsk ` set (codes s')"
      using s' assms(3) by (auto simp: rbind_eq_Inr_iff redeem_iff)
    ultimately obtain c where "p = cpsk c" "IssueCode c \<in> es ` set ys" by auto
    then obtain m where "es m = IssueCode c" by (metis imageE)
    with assms(5) \<open>p = cpsk c\<close> show False by blast
  qed
  then have "p \<notin> cpsk ` set (codes (run_edits s' (map es ys)))"
    by (rule contra_subsetD [OF run_edits_codes])
  with assms(2,4) c show False by (simp add: redeem_unknown)
qed

text \<open>C34: A sequence of store operations on a tenant file leaves exactly what its successful
  operations produce on the validated set, in order, whatever calls into the operating system fail
  on the way: a failed operation changes nothing, and the stored set stays readable.\<close>

theorem file_store_history:
  assumes "toml_codec enc dec" and "list_all typed_edit es" and "file_snapshot dec d = Inr s"
    and "run_store (file_store enc dec) es (d, flts) = (kept, d', rest)"
  shows "file_snapshot dec d' = Inr (run_edits s kept) \<and> good_set (run_edits s kept) \<and> set kept \<subseteq> set es"
proof -
  have "file_snapshot dec d' = Inr (run_edits s kept) \<and> set kept \<subseteq> set es"
    using tenant_store.run_eq [OF file_store_laws [OF assms(1)],
        where st = "(d, flts)" and st' = "(d', rest)" and es = es and s = s and kept = kept]
      assms(2-4) by (simp add: list_all_iff)
  then show ?thesis using load_good by (auto simp: file_snapshot_def)
qed

definition sample_code :: enroll_code where
  "sample_code = \<lparr>cpsk = sample_psk 2, csni = ''b.example'', cmax_conns = 3, expires_at = Some 100\<rparr>"

definition sample_new :: tenant where
  "sample_new = \<lparr>tname = ''t-0'', tpsk = sample_psk 9, tsni = ''b.example'', tmax_conns = 3,
     disabled = False\<rparr>"

definition code_file :: tenant_file where
  "code_file = \<lparr>file_tenant = [], file_code = [write_code sample_code]\<rparr>"

definition tenant_only_file :: tenant_file where
  "tenant_only_file = \<lparr>file_tenant = [write_tenant sample_new], file_code = []\<rparr>"

definition sample_enc :: encoder where
  "sample_enc file = (if file = code_file then Some ''c'' else if file = tenant_only_file then Some ''t''
     else None)"

definition sample_dec :: decoder where
  "sample_dec t = (if t = ''c'' then Some code_file else if t = ''t'' then Some tenant_only_file
     else None)"

lemma sample_codec: "toml_codec sample_enc sample_dec"
  by (simp add: toml_codec_def sample_enc_def sample_dec_def)

lemma sample_wf_psk [simp]: "wf_psk (sample_psk b)"
  by (simp add: wf_psk_def sample_psk_def)

definition code_set :: tenant_set where
  "code_set = \<lparr>tenants = [], codes = [sample_code]\<rparr>"

definition tenant_only_set :: tenant_set where
  "tenant_only_set = \<lparr>tenants = [sample_new], codes = []\<rparr>"

lemma sample_stored:
  "load sample_dec False (Some ''c'') = Inr code_set"
  "load sample_dec False (Some ''t'') = Inr tenant_only_set"
  "to_toml sample_enc tenant_only_set = Inr ''t''"
proof -
  have w: "wf_set code_set" "wf_set tenant_only_set"
    by (simp_all add: wf_set_def code_set_def tenant_only_set_def sample_code_def sample_new_def
        wf_tenant_def wf_enroll_code_def sample_hosts)
  have r: "read_code (write_code sample_code) = Inr sample_code"
    "read_tenant (write_tenant sample_new) = Inr sample_new"
    by (simp_all add: read_write_code read_write_tenant sample_code_def sample_new_def)
  show "load sample_dec False (Some ''c'') = Inr code_set"
    "load sample_dec False (Some ''t'') = Inr tenant_only_set"
    using w r by (simp_all add: load_def from_toml_def sample_dec_def code_file_def
        tenant_only_file_def tenant_set_new_iff code_set_def tenant_only_set_def)
  show "to_toml sample_enc tenant_only_set = Inr ''t''"
    by (simp add: to_toml_def sample_enc_def tenant_only_set_def tenant_only_file_def code_file_def)
qed

definition sample_redemption :: edit where
  "sample_redemption = Redeem (sample_psk 2) 5 ''t-0'' (sample_psk 9)"

lemma sample_redeems: "apply_edit code_set sample_redemption = Inr tenant_only_set"
  by (simp add: sample_redemption_def rbind_eq_Inr_iff redeem_iff code_set_def tenant_only_set_def
      sample_code_def sample_new_def unexpired_def wf_set_def wf_tenant_def sample_hosts)

theorem file_store_history_witness:
  "file_snapshot sample_dec \<lparr>file_text = Some ''t'', tmp_text = None\<rparr> = Inr (run_edits code_set [sample_redemption])"
proof -
  have "redeem code_set (sample_psk 2) 5 ''t-0'' (sample_psk 9) = Inr (tenant_only_set, sample_new)"
    by (simp add: redeem_iff code_set_def tenant_only_set_def
      sample_code_def sample_new_def unexpired_def wf_set_def wf_tenant_def sample_hosts)
  then have "run_store (file_store sample_enc sample_dec) [sample_redemption]
      (\<lparr>file_text = Some ''c'', tmp_text = None\<rparr>, [no_faults]) =
    ([sample_redemption], \<lparr>file_text = Some ''t'', tmp_text = None\<rparr>, [])"
    by (simp add: sample_redemption_def store_redeem_def file_store_def file_replace_with_def
        no_faults_def sample_stored redeem_edit_def sbind_def write_private_def rename_tmp_def)
  from file_store_history [OF sample_codec _ _ this, of code_set] show ?thesis
    by (simp add: sample_redemption_def file_snapshot_def sample_stored)
qed

text \<open>One writer redeems the code; a second one then finds it used.\<close>

definition sample_end :: files where
  "sample_end = \<lparr>content = Some ''t'', temps = (\<lambda>_. None), holder = None,
     writers = (\<lambda>_. Start)(0 := Ended (Inr tenant_only_set), 1 := Ended (Inl BadCode)), commits = [0]\<rparr>"

lemma sample_run: "freach sample_enc sample_dec (\<lambda>_. sample_redemption) id (Some ''c'') sample_end"
proof -
  let ?step = "fstep sample_enc sample_dec (\<lambda>_. sample_redemption) id"
  define f0 where "f0 = start_files (Some ''c'')"
  define f1 where "f1 = f0\<lparr>holder := Some 0, writers := (writers f0)(0 := Locked)\<rparr>"
  define f2 where "f2 = f1\<lparr>writers := (writers f1)(0 := Edited tenant_only_set ''t'')\<rparr>"
  define f3 where "f3 = f2\<lparr>temps := (temps f2)(id 0 := Some ''t''),
      writers := (writers f2)(0 := Written tenant_only_set ''t'')\<rparr>"
  define f4 where "f4 = f3\<lparr>content := Some ''t'', temps := (temps f3)(id 0 := None),
      writers := (writers f3)(0 := Renamed tenant_only_set), commits := commits f3 @ [0]\<rparr>"
  define f5 where "f5 = release 0 (Inr tenant_only_set) f4"
  define f6 where "f6 = f5\<lparr>holder := Some 1, writers := (writers f5)(1 := Locked)\<rparr>"
  note defs = f0_def f1_def f2_def f3_def f4_def f5_def f6_def start_files_def release_def
  have 1: "?step f0 f1" unfolding f1_def by (rule fstep.lock) (simp_all add: defs)
  have 2: "?step f1 f2" unfolding f2_def
    by (rule fstep.edits [OF _ _ sample_redeems sample_stored(3)]) (simp_all add: defs sample_stored)
  have 3: "?step f2 f3" unfolding f3_def by (rule fstep.synced) (simp add: defs)
  have 4: "?step f3 f4" unfolding f4_def by (rule fstep.renames) (simp_all add: defs)
  have 5: "?step f4 f5" unfolding f5_def by (rule fstep.unlocks) (simp add: defs)
  have 6: "?step f5 f6" unfolding f6_def by (rule fstep.lock) (simp_all add: defs)
  have used: "apply_edit tenant_only_set sample_redemption = Inl BadCode"
    by (simp add: sample_redemption_def redeem_unknown tenant_only_set_def)
  have 7: "?step f6 (release 1 (Inl BadCode) f6)"
    by (rule fstep.edit_fails [where u = False], simp add: defs)
      (rule disjI2, rule exI [of _ tenant_only_set], simp add: used, simp add: defs sample_stored)
  have e: "release 1 (Inl BadCode) f6 = sample_end"
    by (simp add: sample_end_def defs fun_eq_iff)
  note into = converse_rtranclp_into_rtranclp [where r = ?step]
  from into [OF 1 into [OF 2 into [OF 3 into [OF 4 into [OF 5 into [OF 6
      r_into_rtranclp [where r = ?step, OF 7]]]]]]]
  show ?thesis by (simp only: e f0_def)
qed

text \<open>C22: Concurrent writers lose nothing and readers see no half-written file: in every state that
  any interleaving of writers, operating-system failures and crashes reaches, the file holds exactly
  the edits of the writers whose rename took place, applied one after the other, each at most once,
  and every writer that reported success is one of them.\<close>

theorem file_store_linearizable:
  assumes "toml_codec enc dec" and "\<forall>i. typed_edit (es i)" and "load dec False c = Inr init"
    and "freach enc dec es pid c f"
  shows "load dec False (content f) = Inr (run_edits init (map es (commits f)))
    \<and> distinct (commits f) \<and> (\<forall>i s. writers f i = Ended (Inr s) \<longrightarrow> i \<in> set (commits f))
    \<and> (\<forall>xs i ys. commits f = xs @ i # ys \<longrightarrow> is_ok (apply_edit (run_edits init (map es xs)) (es i)))"
proof -
  have inv: "files_inv enc dec es pid init f" by (rule freach_inv [OF assms])
  have "i \<in> set (commits f)" if "writers f i = Ended (Inr s)" for i s
  proof -
    have "writer_ok enc es pid init f i" using inv by (simp add: files_inv_def)
    with that show ?thesis by (simp add: writer_ok_def)
  qed
  with inv show ?thesis by (simp add: files_inv_def committed_def)
qed

theorem file_store_linearizable_witness:
  "load sample_dec False (content sample_end) = Inr (run_edits code_set [sample_redemption])
   \<and> 0 \<in> set (commits sample_end)"
  using file_store_linearizable [OF sample_codec _ sample_stored(1) sample_run]
  by (simp add: sample_redemption_def sample_end_def)

text \<open>Of any number of concurrent redemptions of the same enrollment code at most one reports
  success, when no writer issues the code again.\<close>

theorem redemption_race:
  assumes "toml_codec enc dec" and "\<forall>i. typed_edit (es i)" and "load dec False c = Inr init"
    and "freach enc dec es pid c f" and "\<forall>m c. es m = IssueCode c \<longrightarrow> cpsk c \<noteq> p"
    and "es i = Redeem p now n k" and "es j = Redeem p now' n' k'"
    and "writers f i = Ended (Inr s)" and "writers f j = Ended (Inr s')"
  shows "i = j"
proof (rule ccontr)
  assume "i \<noteq> j"
  have inv: "files_inv enc dec es pid init f" by (rule freach_inv [OF assms(1-4)])
  then have "writer_ok enc es pid init f i" "writer_ok enc es pid init f j"
    by (simp_all add: files_inv_def)
  with assms(8,9) have m: "i \<in> set (commits f)" "j \<in> set (commits f)"
    by (simp_all add: writer_ok_def)
  have ok: "is_ok (apply_edit (committed es init xs) (es m))" if "commits f = xs @ m # ys" for xs m ys
    using inv that by (simp add: files_inv_def)
  have "\<exists>xs ys zs. commits f = xs @ i # ys @ j # zs \<or> commits f = xs @ j # ys @ i # zs"
    using m \<open>i \<noteq> j\<close> by (rule split_two)
  then show False
    using redeem_after_redeem [of es init _ i _ j, OF _ _ assms(6,7,5)]
      redeem_after_redeem [of es init _ j _ i, OF _ _ assms(7,6,5)] ok
    by (metis append.assoc append_Cons)
qed

theorem redemption_race_witness:
  "{j. writers sample_end j = Ended (Inr tenant_only_set)} \<subseteq> {0}"
proof
  fix j assume "j \<in> {j. writers sample_end j = Ended (Inr tenant_only_set)}"
  then have j: "writers sample_end j = Ended (Inr tenant_only_set)" by simp
  have typed: "\<forall>i::nat. typed_edit sample_redemption" by (simp add: sample_redemption_def)
  have issue: "\<forall>m::nat. \<forall>c. sample_redemption = IssueCode c \<longrightarrow> cpsk c \<noteq> sample_psk 2"
    by (simp add: sample_redemption_def)
  have zero: "writers sample_end 0 = Ended (Inr tenant_only_set)" by (simp add: sample_end_def)
  have "0 = j"
    by (rule redemption_race [OF sample_codec typed sample_stored(1) sample_run issue
        sample_redemption_def sample_redemption_def zero j])
  then show "j \<in> {0}" by simp
qed

end
