(* ===== verification/Noise_Stream.thy ===== *)
theory Noise_Stream
  imports Frame
begin

text \<open>
  The Noise transport stream (\<open>noise.rs\<close>, \<open>FrameReader\<close>, \<open>FrameWriter\<close> and
  \<open>NoiseStream\<close>): resumable framing over a transport that delivers and accepts bytes in
  arbitrary pieces, with encryption by an argument. The inner transport's \<open>poll_read\<close> and
  \<open>poll_write\<close> and the cipher's \<open>read_message\<close> and \<open>write_message\<close> are arguments; the
  contracts of the transport are the locales \<open>poll_reader\<close> and \<open>poll_writer\<close>.
\<close>

section \<open>Constants and polls\<close>

definition MAX_PLAINTEXT :: nat where "MAX_PLAINTEXT = 65535 - 16"
definition MAX_MESSAGE :: nat where "MAX_MESSAGE = 65535"

datatype 'a poll = Pending | Ready 'a

datatype snow_error = Snow

definition to_io_err :: "snow_error \<Rightarrow> io_error" where
  "to_io_err e = InvalidData"

definition truncated :: io_error where
  "truncated = UnexpectedEof"

text \<open>A read of at most \<open>n\<close> bytes; a write that reports how many bytes it took.\<close>

type_synonym 'io read_fn = "nat \<Rightarrow> 'io \<Rightarrow> (io_error + byte list) poll \<times> 'io"
type_synonym 'io write_fn = "byte list \<Rightarrow> 'io \<Rightarrow> (io_error + nat) poll \<times> 'io"

section \<open>FrameReader\<close>

record frame_reader =
  len_buf :: "byte list"
  len_filled :: nat
  have_len :: bool
  body_buf :: "byte list"
  body_len :: nat
  body_filled :: nat

definition frame_reader_default :: frame_reader where
  "frame_reader_default = \<lparr>len_buf = replicate 2 0, len_filled = 0, have_len = False,
     body_buf = replicate MAX_MESSAGE 0, body_len = 0, body_filled = 0\<rparr>"

text \<open>The two loops of \<open>poll_frame\<close>. \<open>None\<close> is falling through; \<open>Some\<close> is an early return.\<close>

function fill_len ::
  "'io read_fn \<Rightarrow> frame_reader \<Rightarrow> 'io \<Rightarrow> (io_error + nat option) poll option \<times> frame_reader \<times> 'io" where
  "fill_len rd r io =
     (if len_filled r < 2 then
        (case rd (2 - len_filled r) io of
           (Ready (Inr bs), io') \<Rightarrow>
             if bs = [] then
               (Some (Ready (if len_filled r = 0 then Inr None else Inl truncated)), r, io')
             else fill_len rd (r\<lparr>len_buf := put_at (len_filled r) bs (len_buf r),
                 len_filled := len_filled r + length bs\<rparr>) io'
         | (Ready (Inl e), io') \<Rightarrow> (Some (Ready (Inl e)), r, io')
         | (Pending, io') \<Rightarrow> (Some Pending, r, io'))
      else (None, r, io))"
  by pat_completeness auto
termination
  by (relation "measure (\<lambda>(rd, r, io). 2 - len_filled r)") (auto simp: neq_Nil_conv)

function fill_body ::
  "'io read_fn \<Rightarrow> frame_reader \<Rightarrow> 'io \<Rightarrow> (io_error + nat option) poll option \<times> frame_reader \<times> 'io" where
  "fill_body rd r io =
     (if body_filled r < body_len r then
        (case rd (body_len r - body_filled r) io of
           (Ready (Inr bs), io') \<Rightarrow>
             if bs = [] then (Some (Ready (Inl truncated)), r, io')
             else fill_body rd (r\<lparr>body_buf := put_at (body_filled r) bs (body_buf r),
                 body_filled := body_filled r + length bs\<rparr>) io'
         | (Ready (Inl e), io') \<Rightarrow> (Some (Ready (Inl e)), r, io')
         | (Pending, io') \<Rightarrow> (Some Pending, r, io'))
      else (None, r, io))"
  by pat_completeness auto
termination
  by (relation "measure (\<lambda>(rd, r, io). body_len r - body_filled r)") (auto simp: neq_Nil_conv)

declare fill_len.simps [simp del] fill_body.simps [simp del]

definition start_body :: "frame_reader \<Rightarrow> frame_reader" where
  "start_body r = r\<lparr>body_len := from_be16 (len_buf r ! 0) (len_buf r ! 1), body_filled := 0,
     have_len := True\<rparr>"

definition poll_frame ::
  "'io read_fn \<Rightarrow> frame_reader \<Rightarrow> 'io \<Rightarrow> (io_error + nat option) poll \<times> frame_reader \<times> 'io" where
  "poll_frame rd r io =
     (case (if have_len r then (None, r, io)
            else (case fill_len rd r io of
                    (Some res, r1, io1) \<Rightarrow> (Some res, r1, io1)
                  | (None, r1, io1) \<Rightarrow> (None, start_body r1, io1))) of
        (Some res, r1, io1) \<Rightarrow> (res, r1, io1)
      | (None, r1, io1) \<Rightarrow>
          (case fill_body rd r1 io1 of
             (Some res, r2, io2) \<Rightarrow> (res, r2, io2)
           | (None, r2, io2) \<Rightarrow>
               (Ready (Inr (Some (body_len r2))), r2\<lparr>have_len := False, len_filled := 0\<rparr>, io2)))"

text \<open>The bytes of the current frame read so far, and the shape of a reader between polls.\<close>

definition partial :: "frame_reader \<Rightarrow> byte list" where
  "partial r = (if have_len r then to_be16 (body_len r) @ take (body_filled r) (body_buf r)
                else take (len_filled r) (len_buf r))"

definition wf_reader :: "frame_reader \<Rightarrow> bool" where
  "wf_reader r \<longleftrightarrow> length (len_buf r) = 2 \<and> len_filled r \<le> 2 \<and> length (body_buf r) = MAX_MESSAGE
     \<and> (have_len r \<longrightarrow> body_filled r \<le> body_len r \<and> body_len r \<le> MAX_MESSAGE)"

lemma wf_reader_default: "wf_reader frame_reader_default"
  by (simp add: wf_reader_def frame_reader_default_def)

lemma partial_default [simp]: "partial frame_reader_default = []"
  by (simp add: partial_def frame_reader_default_def)

section \<open>FrameWriter\<close>

record frame_writer =
  wbuf :: "byte list"
  wlen :: nat
  wsent :: nat

definition frame_writer_default :: frame_writer where
  "frame_writer_default = \<lparr>wbuf = replicate (2 + MAX_MESSAGE) 0, wlen = 0, wsent = 0\<rparr>"

definition is_pending :: "frame_writer \<Rightarrow> bool" where
  "is_pending w \<longleftrightarrow> wsent w < wlen w"

function poll_drain ::
  "'io write_fn \<Rightarrow> frame_writer \<Rightarrow> 'io \<Rightarrow> (io_error + unit) poll \<times> frame_writer \<times> 'io" where
  "poll_drain wr w io =
     (if is_pending w then
        (case wr (drop (wsent w) (take (wlen w) (wbuf w))) io of
           (Ready (Inr n), io') \<Rightarrow>
             if n = 0 then (Ready (Inl WriteZero), w, io')
             else poll_drain wr (w\<lparr>wsent := wsent w + n\<rparr>) io'
         | (Ready (Inl e), io') \<Rightarrow> (Ready (Inl e), w, io')
         | (Pending, io') \<Rightarrow> (Pending, w, io'))
      else (Ready (Inr ()), w, io))"
  by pat_completeness auto
termination
  by (relation "measure (\<lambda>(wr, w, io). wlen w - wsent w)") (auto simp: is_pending_def)

declare poll_drain.simps [simp del]

text \<open>The bytes of the frame in flight that the transport has not taken yet.\<close>

definition outstanding :: "frame_writer \<Rightarrow> byte list" where
  "outstanding w = drop (wsent w) (take (wlen w) (wbuf w))"

definition wf_writer :: "frame_writer \<Rightarrow> bool" where
  "wf_writer w \<longleftrightarrow> length (wbuf w) = 2 + MAX_MESSAGE \<and> wlen w \<le> 2 + MAX_MESSAGE \<and> wsent w \<le> wlen w"

lemma wf_writer_default: "wf_writer frame_writer_default"
  by (simp add: wf_writer_def frame_writer_default_def)

lemma outstanding_default [simp]: "outstanding frame_writer_default = []"
  by (simp add: outstanding_def frame_writer_default_def)

lemma outstanding_Nil_iff: "wf_writer w \<Longrightarrow> outstanding w = [] \<longleftrightarrow> \<not> is_pending w"
  by (auto simp: outstanding_def wf_writer_def is_pending_def)

text \<open>\<open>accepted\<close> is what the transport has taken so far.\<close>

locale poll_writer =
  fixes wr :: "'io write_fn" and accepted :: "'io \<Rightarrow> byte list"
  assumes wr_some: "wr bs io = (Ready (Inr n), io') \<Longrightarrow> n \<le> length bs \<and> accepted io' = accepted io @ take n bs"
    and wr_other: "wr bs io = (Pending, io') \<or> wr bs io = (Ready (Inl e), io') \<Longrightarrow> accepted io' = accepted io"
begin

lemma poll_drain_spec:
  assumes "poll_drain wr w io = (res, w', io')" and "wf_writer w"
  shows "wf_writer w' \<and> wbuf w' = wbuf w \<and> wlen w' = wlen w
    \<and> accepted io' @ outstanding w' = accepted io @ outstanding w
    \<and> (res = Ready (Inr ()) \<longrightarrow> outstanding w' = [])"
  using assms
proof (induction "wlen w - wsent w" arbitrary: w io rule: less_induct)
  case less
  show ?case
  proof (cases "is_pending w")
    case False
    with less.prems show ?thesis
      by (subst (asm) poll_drain.simps) (auto simp: outstanding_Nil_iff)
  next
    case True
    obtain q io1 where q: "wr (outstanding w) io = (q, io1)" by force
    show ?thesis
    proof (cases q)
      case Pending
      with True q less.prems wr_other [of "outstanding w" io io1] show ?thesis
        by (subst (asm) poll_drain.simps) (auto simp: outstanding_def)
    next
      case (Ready x)
      show ?thesis
      proof (cases x)
        case (Inl e)
        with Ready True q less.prems wr_other [of "outstanding w" io io1 e] show ?thesis
          by (subst (asm) poll_drain.simps) (auto simp: outstanding_def)
      next
        case (Inr n)
        note wrq = q [unfolded Ready Inr]
        from wr_some [OF wrq] have n: "n \<le> length (outstanding w)"
          "accepted io1 = accepted io @ take n (outstanding w)" by auto
        show ?thesis
        proof (cases "n = 0")
          case True
          with wrq n \<open>is_pending w\<close> less.prems show ?thesis
            by (subst (asm) poll_drain.simps) (auto simp: outstanding_def)
        next
          case False
          let ?w = "w\<lparr>wsent := wsent w + n\<rparr>"
          have run: "poll_drain wr ?w io1 = (res, w', io')"
            using less.prems(1) True wrq False
            by (subst (asm) poll_drain.simps) (simp add: outstanding_def)
          have dec: "wlen ?w - wsent ?w < wlen w - wsent w"
            using True False by (auto simp: is_pending_def)
          have "wf_writer ?w" using less.prems(2) n(1) by (auto simp: wf_writer_def outstanding_def)
          moreover have "outstanding ?w = drop n (outstanding w)"
            by (simp add: outstanding_def add.commute)
          ultimately show ?thesis using less.hyps [OF dec run] n(2) by simp
        qed
      qed
    qed
  qed
qed

end

section \<open>The contract of a transport that is read\<close>

text \<open>\<open>pend\<close> is what the peer has still to deliver, however it is cut into pieces.\<close>

locale poll_reader =
  fixes rd :: "'io read_fn" and pend :: "'io \<Rightarrow> byte list"
  assumes rd_some: "rd n io = (Ready (Inr bs), io') \<Longrightarrow> length bs \<le> n \<and> pend io = bs @ pend io'"
    and rd_eof: "rd n io = (Ready (Inr []), io') \<Longrightarrow> 0 < n \<Longrightarrow> pend io = []"
    and rd_other: "rd n io = (Pending, io') \<or> rd n io = (Ready (Inl e), io') \<Longrightarrow> pend io' = pend io"
begin

definition inner_error :: "io_error \<Rightarrow> bool" where
  "inner_error e \<longleftrightarrow> (\<exists>n io io'. rd n io = (Ready (Inl e), io'))"

lemma inner_errorI: "rd n io = (Ready (Inl e), io') \<Longrightarrow> inner_error e"
  by (auto simp: inner_error_def)

lemma fill_len_spec:
  assumes "fill_len rd r io = (res, r', io')" and "wf_reader r" and "\<not> have_len r"
  shows "wf_reader r' \<and> \<not> have_len r' \<and> partial r @ pend io = partial r' @ pend io'
    \<and> (res = None \<longrightarrow> len_filled r' = 2)
    \<and> (\<forall>n. res \<noteq> Some (Ready (Inr (Some n))))
    \<and> (res = Some (Ready (Inr None)) \<longrightarrow> partial r' = [] \<and> pend io' = [])
    \<and> (\<forall>e. res = Some (Ready (Inl e)) \<longrightarrow> e = truncated \<or> inner_error e)"
  using assms
proof (induction "2 - len_filled r" arbitrary: r io rule: less_induct)
  case less
  note wf = less.prems(2,3)
  show ?case
  proof (cases "len_filled r < 2")
    case False
    with less.prems show ?thesis by (subst (asm) fill_len.simps) (auto simp: wf_reader_def)
  next
    case True
    obtain q io1 where q: "rd (2 - len_filled r) io = (q, io1)" by force
    show ?thesis
    proof (cases q)
      case Pending
      with True q less.prems rd_other [of "2 - len_filled r" io io1] show ?thesis
        by (subst (asm) fill_len.simps) auto
    next
      case (Ready x)
      show ?thesis
      proof (cases x)
        case (Inl e)
        with Ready True q less.prems inner_errorI
          rd_other [of "2 - len_filled r" io io1 e] show ?thesis
          by (subst (asm) fill_len.simps) auto
      next
        case (Inr bs)
        note rdq = q [unfolded Ready Inr]
        from rd_some [OF rdq] have b: "length bs \<le> 2 - len_filled r" "pend io = bs @ pend io1" by auto
        show ?thesis
        proof (cases "bs = []")
          case True
          with rd_eof [of "2 - len_filled r" io io1] rdq \<open>len_filled r < 2\<close> have "pend io = []" by simp
          with True rdq b \<open>len_filled r < 2\<close> less.prems show ?thesis
            by (subst (asm) fill_len.simps) (auto simp: partial_def split: if_splits)
        next
          case False
          let ?r = "r\<lparr>len_buf := put_at (len_filled r) bs (len_buf r),
              len_filled := len_filled r + length bs\<rparr>"
          have run: "fill_len rd ?r io1 = (res, r', io')"
            using less.prems(1) \<open>len_filled r < 2\<close> rdq False by (subst (asm) fill_len.simps) simp
          have dec: "2 - len_filled ?r < 2 - len_filled r"
            using \<open>len_filled r < 2\<close> False by (cases bs) auto
          have le: "len_filled r + length bs \<le> length (len_buf r)"
            using wf b \<open>len_filled r < 2\<close> by (auto simp: wf_reader_def)
          then have "wf_reader ?r" "\<not> have_len ?r" using wf by (auto simp: wf_reader_def)
          moreover have "partial r @ pend io = partial ?r @ pend io1"
            using wf(2) b(2) le by (simp add: partial_def)
          ultimately show ?thesis using less.hyps [OF dec run] by simp
        qed
      qed
    qed
  qed
qed

lemma fill_body_spec:
  assumes "fill_body rd r io = (res, r', io')" and "wf_reader r" and "have_len r"
  shows "wf_reader r' \<and> have_len r' \<and> body_len r' = body_len r
    \<and> partial r @ pend io = partial r' @ pend io'
    \<and> (res = None \<longrightarrow> body_filled r' = body_len r') \<and> (\<forall>x. res \<noteq> Some (Ready (Inr x)))
    \<and> (\<forall>e. res = Some (Ready (Inl e)) \<longrightarrow> e = truncated \<or> inner_error e)"
  using assms
proof (induction "body_len r - body_filled r" arbitrary: r io rule: less_induct)
  case less
  note wf = less.prems(2,3)
  show ?case
  proof (cases "body_filled r < body_len r")
    case False
    with less.prems show ?thesis by (subst (asm) fill_body.simps) (auto simp: wf_reader_def)
  next
    case True
    obtain q io1 where q: "rd (body_len r - body_filled r) io = (q, io1)" by force
    show ?thesis
    proof (cases q)
      case Pending
      with True q less.prems rd_other [of "body_len r - body_filled r" io io1] show ?thesis
        by (subst (asm) fill_body.simps) auto
    next
      case (Ready x)
      show ?thesis
      proof (cases x)
        case (Inl e)
        with Ready True q less.prems inner_errorI
          rd_other [of "body_len r - body_filled r" io io1 e] show ?thesis
          by (subst (asm) fill_body.simps) auto
      next
        case (Inr bs)
        note rdq = q [unfolded Ready Inr]
        from rd_some [OF rdq] have b: "length bs \<le> body_len r - body_filled r" "pend io = bs @ pend io1"
          by auto
        show ?thesis
        proof (cases "bs = []")
          case True
          with rdq b \<open>body_filled r < body_len r\<close> less.prems show ?thesis
            by (subst (asm) fill_body.simps) auto
        next
          case False
          let ?r = "r\<lparr>body_buf := put_at (body_filled r) bs (body_buf r),
              body_filled := body_filled r + length bs\<rparr>"
          have run: "fill_body rd ?r io1 = (res, r', io')"
            using less.prems(1) True rdq False by (subst (asm) fill_body.simps) simp
          have dec: "body_len ?r - body_filled ?r < body_len r - body_filled r"
            using True False by (cases bs) auto
          have le: "body_filled r + length bs \<le> length (body_buf r)"
            using wf b True by (auto simp: wf_reader_def)
          have "wf_reader ?r" "have_len ?r" using wf b True le by (auto simp: wf_reader_def)
          moreover have "partial r @ pend io = partial ?r @ pend io1"
            using wf(2) b(2) le by (simp add: partial_def)
          ultimately show ?thesis using less.hyps [OF dec run] by simp
        qed
      qed
    qed
  qed
qed

text \<open>One poll: whatever was read is kept, and a finished frame is exactly the next one.\<close>

lemma poll_frame_spec:
  assumes "poll_frame rd r io = (res, r', io')" and "wf_reader r"
  shows "wf_reader r' \<and> (case res of
      Ready (Inr (Some n)) \<Rightarrow> n \<le> MAX_MESSAGE \<and> partial r' = []
        \<and> partial r @ pend io = frame_bytes (take n (body_buf r')) @ pend io'
    | Ready (Inr None) \<Rightarrow> partial r' = [] \<and> pend io' = [] \<and> partial r @ pend io = []
    | Ready (Inl e) \<Rightarrow> partial r @ pend io = partial r' @ pend io' \<and> (e = truncated \<or> inner_error e)
    | Pending \<Rightarrow> partial r @ pend io = partial r' @ pend io')"
proof -
  obtain res1 r1 io1 where h: "(if have_len r then (None, r, io)
      else (case fill_len rd r io of
              (Some res, r1, io1) \<Rightarrow> (Some res, r1, io1)
            | (None, r1, io1) \<Rightarrow> (None, start_body r1, io1))) = (res1, r1, io1)"
    by (cases "(if have_len r then (None, r, io)
      else (case fill_len rd r io of
              (Some res, r1, io1) \<Rightarrow> (Some res, r1, io1)
            | (None, r1, io1) \<Rightarrow> (None, start_body r1, io1)))") auto
  have head: "wf_reader r1 \<and> partial r @ pend io = partial r1 @ pend io1
      \<and> (res1 = None \<longrightarrow> have_len r1) \<and> (\<forall>n. res1 \<noteq> Some (Ready (Inr (Some n))))
      \<and> (res1 = Some (Ready (Inr None)) \<longrightarrow> partial r1 = [] \<and> pend io1 = [])
      \<and> (\<forall>e. res1 = Some (Ready (Inl e)) \<longrightarrow> e = truncated \<or> inner_error e)"
  proof (cases "have_len r")
    case True
    with h assms(2) show ?thesis by auto
  next
    case False
    obtain q r2 io2 where f: "fill_len rd r io = (q, r2, io2)" by (cases "fill_len rd r io") auto
    note sp = fill_len_spec [OF f assms(2) False]
    show ?thesis
    proof (cases q)
      case (Some x)
      with h f False sp show ?thesis by auto
    next
      case None
      with h f False have r1: "r1 = start_body r2" "io1 = io2" "res1 = None" by auto
      from sp None have two: "len_filled r2 = 2" "length (len_buf r2) = 2" "\<not> have_len r2"
        by (auto simp: wf_reader_def)
      have "len_buf r2 = [len_buf r2 ! 0, len_buf r2 ! 1]"
        using two(2) by (cases "len_buf r2"; cases "tl (len_buf r2)") auto
      then have "partial r1 = partial r2"
        using two by (simp add: r1 partial_def start_body_def)
      moreover have "wf_reader r1"
        using sp by (simp add: r1 start_body_def wf_reader_def MAX_MESSAGE_def)
      ultimately show ?thesis using sp r1 by (simp add: start_body_def)
    qed
  qed
  show ?thesis
  proof (cases res1)
    case (Some x)
    with assms(1) h have "res = x" "r' = r1" "io' = io1" by (auto simp: poll_frame_def)
    with head Some show ?thesis by (auto split: poll.split sum.split option.split)
  next
    case None
    obtain q r2 io2 where b: "fill_body rd r1 io1 = (q, r2, io2)" by (cases "fill_body rd r1 io1") auto
    from head None have "wf_reader r1" "have_len r1" by auto
    note sp = fill_body_spec [OF b this]
    show ?thesis
    proof (cases q)
      case (Some x)
      with assms(1) h None b have "res = x" "r' = r2" "io' = io2" by (auto simp: poll_frame_def)
      with head None Some sp show ?thesis by (auto split: poll.split sum.split option.split)
    next
      case (None)
      then have e: "res = Ready (Inr (Some (body_len r2)))" "io' = io2"
        "r' = r2\<lparr>have_len := False, len_filled := 0\<rparr>"
        using assms(1) h \<open>res1 = None\<close> b by (auto simp: poll_frame_def)
      have len: "body_len r2 \<le> MAX_MESSAGE" "length (body_buf r2) = MAX_MESSAGE"
        "body_filled r2 = body_len r2" using sp None by (auto simp: wf_reader_def)
      then have "partial r2 = frame_bytes (take (body_len r2) (body_buf r2))"
        using sp by (simp add: partial_def frame_bytes_def min_def)
      then show ?thesis using e head \<open>res1 = None\<close> sp len
        by (simp add: wf_reader_def partial_def)
    qed
  qed
qed

end

section \<open>NoiseStream\<close>

record ('io, 't) noise_stream =
  inner :: 'io
  transport :: 't
  reader :: frame_reader
  plaintext_buf :: "byte list"
  plaintext_len :: nat
  plaintext_pos :: nat
  fwriter :: frame_writer

definition noise_stream_new :: "'io \<Rightarrow> 't \<Rightarrow> ('io, 't) noise_stream" where
  "noise_stream_new io t = \<lparr>inner = io, transport = t, reader = frame_reader_default,
     plaintext_buf = replicate MAX_MESSAGE 0, plaintext_len = 0, plaintext_pos = 0,
     fwriter = frame_writer_default\<rparr>"

text \<open>The two halves of the cipher state (\<open>snow::TransportState\<close>): a message in, a message out.\<close>

type_synonym 't cipher_fn = "byte list \<Rightarrow> 't \<Rightarrow> (snow_error + byte list) \<times> 't"

partial_function (option) noise_poll_read ::
  "'io read_fn \<Rightarrow> 't cipher_fn \<Rightarrow> nat \<Rightarrow> ('io, 't) noise_stream
    \<Rightarrow> ((io_error + byte list) poll \<times> ('io, 't) noise_stream) option" where
  "noise_poll_read rd rm remaining st =
     (if plaintext_pos st < plaintext_len st then
        let available = drop (plaintext_pos st) (take (plaintext_len st) (plaintext_buf st));
            n = min (length available) remaining
        in Some (Ready (Inr (take n available)), st\<lparr>plaintext_pos := plaintext_pos st + n\<rparr>)
      else
        (case poll_frame rd (reader st) (inner st) of (res, r', io') \<Rightarrow>
           (let st1 = st\<lparr>reader := r', inner := io'\<rparr> in
            case res of
              Pending \<Rightarrow> Some (Pending, st1)
            | Ready q \<Rightarrow>
                (case q of
                   Inl e \<Rightarrow> Some (Ready (Inl e), st1)
                 | Inr m \<Rightarrow>
                     (case m of
                        None \<Rightarrow> Some (Ready (Inr []), st1)
                      | Some n \<Rightarrow>
                          (case rm (take n (body_buf r')) (transport st) of (d, t') \<Rightarrow>
                             (case d of
                                Inl e \<Rightarrow> Some (Ready (Inl (to_io_err e)), st1\<lparr>transport := t'\<rparr>)
                              | Inr plain \<Rightarrow>
                                  noise_poll_read rd rm remaining
                                    (st1\<lparr>transport := t', plaintext_buf := put_at 0 plain (plaintext_buf st),
                                       plaintext_len := length plain, plaintext_pos := 0\<rparr>))))))))"

definition noise_poll_write ::
  "'io write_fn \<Rightarrow> 't cipher_fn \<Rightarrow> byte list \<Rightarrow> ('io, 't) noise_stream
    \<Rightarrow> (io_error + nat) poll \<times> ('io, 't) noise_stream" where
  "noise_poll_write wr wm buf st =
     (case (if is_pending (fwriter st) then poll_drain wr (fwriter st) (inner st)
            else (Ready (Inr ()), fwriter st, inner st)) of
        (Ready (Inl e), w, io) \<Rightarrow> (Ready (Inl e), st\<lparr>fwriter := w, inner := io\<rparr>)
      | (Pending, w, io) \<Rightarrow> (Pending, st\<lparr>fwriter := w, inner := io\<rparr>)
      | (Ready (Inr _), w, io) \<Rightarrow>
          if buf = [] then (Ready (Inr 0), st\<lparr>fwriter := w, inner := io\<rparr>)
          else
            let chunk_len = min (length buf) MAX_PLAINTEXT in
            (case wm (take chunk_len buf) (transport st) of
               (Inl e, t') \<Rightarrow>
                 (Ready (Inl (to_io_err e)), st\<lparr>fwriter := w, inner := io, transport := t'\<rparr>)
             | (Inr c, t') \<Rightarrow>
                 let w1 = w\<lparr>wbuf := put_at 0 (to_be16 (length c mod 65536)) (put_at 2 c (wbuf w)),
                            wlen := 2 + length c, wsent := 0\<rparr>
                 in (case poll_drain wr w1 io of
                       (res, w2, io2) \<Rightarrow>
                         ((case res of Ready (Inl e) \<Rightarrow> Ready (Inl e) | _ \<Rightarrow> Ready (Inr chunk_len)),
                          st\<lparr>fwriter := w2, inner := io2, transport := t'\<rparr>))))"

text \<open>\<open>poll_flush\<close> and \<open>poll_shutdown\<close> drain the frame in flight, then forward to the inner
  transport's operation.\<close>

definition noise_poll_forward ::
  "'io write_fn \<Rightarrow> ('io \<Rightarrow> (io_error + unit) poll \<times> 'io) \<Rightarrow> ('io, 't) noise_stream
    \<Rightarrow> (io_error + unit) poll \<times> ('io, 't) noise_stream" where
  "noise_poll_forward wr op st =
     (case (if is_pending (fwriter st) then poll_drain wr (fwriter st) (inner st)
            else (Ready (Inr ()), fwriter st, inner st)) of
        (Ready (Inr _), w, io) \<Rightarrow> (case op io of (r, io') \<Rightarrow> (r, st\<lparr>fwriter := w, inner := io'\<rparr>))
      | (other, w, io) \<Rightarrow> (other, st\<lparr>fwriter := w, inner := io\<rparr>))"

abbreviation noise_poll_flush where "noise_poll_flush \<equiv> noise_poll_forward"
abbreviation noise_poll_shutdown where "noise_poll_shutdown \<equiv> noise_poll_forward"

section \<open>What the stream relies on of the cipher\<close>

text \<open>
  \<open>sync s r\<close>: the sending half \<open>s\<close> and the receiving half \<open>r\<close> are in step. A message that
  was encrypted is 16 bytes longer than its plaintext, and the receiving half decrypts it.
\<close>

definition ciphers_match :: "'t cipher_fn \<Rightarrow> 't cipher_fn \<Rightarrow> ('t \<Rightarrow> 't \<Rightarrow> bool) \<Rightarrow> bool" where
  "ciphers_match wm rm sync \<longleftrightarrow> (\<forall>s r p c s'. sync s r \<and> wm p s = (Inr c, s') \<longrightarrow>
     length c = length p + 16 \<and> (\<exists>r'. rm c r = (Inr p, r') \<and> sync s' r'))"

text \<open>The messages that encrypting a list of chunks gives, as long as encryption succeeds.\<close>

fun ciphertexts :: "'t cipher_fn \<Rightarrow> 't \<Rightarrow> byte list list \<Rightarrow> byte list list option" where
  "ciphertexts wm s [] = Some []"
| "ciphertexts wm s (p # ps) =
     (case wm p s of
        (Inr c, s') \<Rightarrow> map_option ((#) c) (ciphertexts wm s' ps)
      | (Inl _, _) \<Rightarrow> None)"

lemma ciphertexts_Cons_iff:
  "ciphertexts wm s (p # ps) = Some cs \<longleftrightarrow>
     (\<exists>c s' cs'. wm p s = (Inr c, s') \<and> ciphertexts wm s' ps = Some cs' \<and> cs = c # cs')"
  by (auto split: prod.splits sum.splits)

lemma frame_bytes_inj:
  assumes "frame_bytes a @ xs = frame_bytes b @ ys" and "length a \<le> 65535" and "length b \<le> 65535"
  shows "a = b \<and> xs = ys"
proof -
  have "to_be16 (length a) = to_be16 (length b)"
    using arg_cong [OF assms(1), of "take 2"] by (simp add: frame_bytes_def)
  then have n: "(word_of_nat (length a div 256) :: byte) = word_of_nat (length b div 256)"
    "(word_of_nat (length a) :: byte) = word_of_nat (length b)"
    by (simp_all only: to_be16_def list.inject)
  have "from_be16 (word_of_nat (length a div 256)) (word_of_nat (length a)) = length a"
    "from_be16 (word_of_nat (length b div 256)) (word_of_nat (length b)) = length b"
    using assms(2,3) by (simp_all add: le_imp_less_Suc)
  with n have "length a = length b" by metis
  with assms(1) show ?thesis by (simp add: frame_bytes_def)
qed

section \<open>Reading\<close>

definition plain :: "('io, 't) noise_stream \<Rightarrow> byte list" where
  "plain st = drop (plaintext_pos st) (take (plaintext_len st) (plaintext_buf st))"

definition wf_stream :: "('io, 't) noise_stream \<Rightarrow> bool" where
  "wf_stream st \<longleftrightarrow> wf_reader (reader st) \<and> wf_writer (fwriter st)
     \<and> length (plaintext_buf st) = MAX_MESSAGE \<and> plaintext_len st \<le> MAX_MESSAGE"

lemma wf_stream_new: "wf_stream (noise_stream_new io t)"
  by (simp add: wf_stream_def noise_stream_new_def wf_reader_default wf_writer_default)

lemma plain_new [simp]: "plain (noise_stream_new io t) = []"
  by (simp add: plain_def noise_stream_new_def)

context poll_reader
begin

text \<open>
  \<open>incoming s ps tail st\<close>: the chunks \<open>ps\<close>, encrypted from \<open>s\<close> on, are what the stream has not
  decrypted yet; \<open>tail\<close> is the part of their frames that never arrives.
\<close>

definition incoming ::
  "'t cipher_fn \<Rightarrow> ('t \<Rightarrow> 't \<Rightarrow> bool) \<Rightarrow> 't \<Rightarrow> byte list list \<Rightarrow> byte list \<Rightarrow> ('io, 't) noise_stream \<Rightarrow> bool" where
  "incoming wm sync s ps tail st \<longleftrightarrow> wf_stream st \<and> sync s (transport st)
     \<and> (\<forall>p \<in> set ps. length p \<le> MAX_PLAINTEXT)
     \<and> (\<exists>cs. ciphertexts wm s ps = Some cs
          \<and> partial (reader st) @ pend (inner st) @ tail = concat (map frame_bytes cs))"

lemma noise_poll_read_spec:
  assumes "ciphers_match wm rm sync" and "incoming wm sync s ps tail st"
  shows "\<exists>res st' s' ps'. noise_poll_read rd rm n st = Some (res, st')
    \<and> incoming wm sync s' ps' tail st'
    \<and> plain st @ concat ps = (case res of Ready (Inr bs) \<Rightarrow> bs | _ \<Rightarrow> []) @ plain st' @ concat ps'
    \<and> (case res of
          Ready (Inr bs) \<Rightarrow> length bs \<le> n \<and> (bs = [] \<and> 0 < n \<longrightarrow> plain st' = [] \<and> partial (reader st') = [] \<and> pend (inner st') = [])
        | Ready (Inl e) \<Rightarrow> e = truncated \<or> inner_error e
        | Pending \<Rightarrow> plain st' = [])"
  using assms(2)
proof (induction "length (partial (reader st) @ pend (inner st))" arbitrary: s ps st rule: less_induct)
  case less
  note inc = less.prems [unfolded incoming_def]
  show ?case
  proof (cases "plaintext_pos st < plaintext_len st")
    case True
    let ?k = "min (length (plain st)) n"
    let ?st = "st\<lparr>plaintext_pos := plaintext_pos st + ?k\<rparr>"
    have run: "noise_poll_read rd rm n st = Some (Ready (Inr (take ?k (plain st))), ?st)"
      using True by (subst noise_poll_read.simps) (simp add: Let_def plain_def)
    have p: "plain ?st = drop ?k (plain st)" by (simp add: plain_def add.commute)
    have ne: "0 < length (plain st)" using True inc by (simp add: plain_def wf_stream_def)
    have "incoming wm sync s ps tail ?st" using inc by (simp add: incoming_def wf_stream_def)
    moreover have "plain st @ concat ps = take ?k (plain st) @ plain ?st @ concat ps"
      unfolding p by (metis append.assoc append_take_drop_id)
    moreover have "0 < n \<Longrightarrow> take ?k (plain st) \<noteq> []" using ne by (cases "plain st") auto
    ultimately show ?thesis using run
      by (intro exI [of _ "Ready (Inr (take ?k (plain st)))"] exI [of _ ?st] exI [of _ s] exI [of _ ps])
        (simp del: take_eq_Nil take_eq_Nil2, blast)
  next
    case False
    then have p0: "plain st = []" by (simp add: plain_def)
    obtain q r' io' where pf: "poll_frame rd (reader st) (inner st) = (q, r', io')"
      by (cases "poll_frame rd (reader st) (inner st)") auto
    have "wf_reader (reader st)" using inc by (simp add: wf_stream_def)
    note sp = poll_frame_spec [OF pf this]
    let ?st1 = "st\<lparr>reader := r', inner := io'\<rparr>"
    have p1: "plain ?st1 = []" using p0 by (simp add: plain_def)
    from inc obtain cs where cs: "ciphertexts wm s ps = Some cs"
      "partial (reader st) @ pend (inner st) @ tail = concat (map frame_bytes cs)" by blast
    have keep: "incoming wm sync s ps tail ?st1"
      if "partial (reader st) @ pend (inner st) = partial r' @ pend io'"
    proof -
      have "partial r' @ pend io' @ tail = concat (map frame_bytes cs)"
        using cs(2) that by (metis append.assoc)
      with inc sp cs(1) show ?thesis by (simp add: incoming_def wf_stream_def)
    qed
    note unf = noise_poll_read.simps [of rd rm n st]
    show ?thesis
    proof (cases q)
      case Pending
      with unf False pf have run: "noise_poll_read rd rm n st = Some (Pending, ?st1)" by simp
      from sp Pending have "partial (reader st) @ pend (inner st) = partial r' @ pend io'" by simp
      from keep [OF this] run p0 p1 show ?thesis
        by (intro exI [of _ "Pending"] exI [of _ ?st1] exI [of _ s] exI [of _ ps]) simp
    next
      case (Ready x)
      show ?thesis
      proof (cases x)
        case (Inl e)
        with Ready unf False pf have run: "noise_poll_read rd rm n st = Some (Ready (Inl e), ?st1)" by simp
        from sp Ready Inl have "partial (reader st) @ pend (inner st) = partial r' @ pend io'"
          "e = truncated \<or> inner_error e" by simp_all
        with keep [OF this(1)] run p0 p1 show ?thesis
          by (intro exI [of _ "Ready (Inl e)"] exI [of _ ?st1] exI [of _ s] exI [of _ ps]) simp
      next
        case (Inr y)
        show ?thesis
        proof (cases y)
          case None
          with Ready Inr unf False pf
          have run: "noise_poll_read rd rm n st = Some (Ready (Inr []), ?st1)" by simp
          from sp Ready Inr None have e: "partial r' = []" "pend io' = []"
            "partial (reader st) @ pend (inner st) = partial r' @ pend io'" by simp_all
          from keep [OF e(3)] e run p0 p1 show ?thesis
            by (intro exI [of _ "Ready (Inr [])"] exI [of _ ?st1] exI [of _ s] exI [of _ ps]) simp
        next
          case (Some m)
          let ?body = "take m (body_buf r')"
          from sp Ready Inr Some have m: "wf_reader r'" "m \<le> MAX_MESSAGE" "partial r' = []"
            "partial (reader st) @ pend (inner st) = frame_bytes ?body @ pend io'" by simp_all
          then have lb: "length ?body \<le> 65535" by (simp add: MAX_MESSAGE_def)
          have eq: "frame_bytes ?body @ (pend io' @ tail) = concat (map frame_bytes cs)"
            using cs(2) m(4) by (metis append.assoc)
          then obtain c cs' where c: "cs = c # cs'"
            by (cases cs) (auto simp: frame_bytes_def to_be16_def)
          with cs(1) obtain p ps' s1 where p: "ps = p # ps'" "wm p s = (Inr c, s1)"
            "ciphertexts wm s1 ps' = Some cs'"
            by (cases ps) (auto simp: ciphertexts_Cons_iff simp del: ciphertexts.simps(2))
          have lp: "length p \<le> MAX_PLAINTEXT" using inc p(1) by simp
          from assms(1) inc p(2) obtain t' where t': "length c = length p + 16"
            "rm c (transport st) = (Inr p, t')" "sync s1 t'"
            unfolding ciphers_match_def by blast
          have "length c \<le> 65535" using t'(1) lp by (simp add: MAX_PLAINTEXT_def)
          with frame_bytes_inj [OF _ lb this] eq c have bc: "?body = c"
            "pend io' @ tail = concat (map frame_bytes cs')" by auto
          let ?st2 = "?st1\<lparr>transport := t', plaintext_buf := put_at 0 p (plaintext_buf st),
             plaintext_len := length p, plaintext_pos := 0\<rparr>"
          have run: "noise_poll_read rd rm n st = noise_poll_read rd rm n ?st2"
            using unf False pf Ready Inr Some bc(1) t'(2) by simp
          have bl: "length p \<le> length (plaintext_buf st)"
            using inc lp by (simp add: wf_stream_def MAX_PLAINTEXT_def MAX_MESSAGE_def)
          have p2: "plain ?st2 = p"
            using take_put_at [of 0 p "plaintext_buf st"] bl by (simp add: plain_def)
          have "incoming wm sync s1 ps' tail ?st2"
            using inc m(1,3) t'(3) p bc(2) bl
            by (simp add: incoming_def wf_stream_def)
          moreover have "length (partial (reader ?st2) @ pend (inner ?st2))
              < length (partial (reader st) @ pend (inner st))"
            using m(3,4) by simp
          ultimately obtain res st' s' qs where
            "noise_poll_read rd rm n ?st2 = Some (res, st')" "incoming wm sync s' qs tail st'"
            "p @ concat ps' = (case res of Ready (Inr bs) \<Rightarrow> bs | _ \<Rightarrow> []) @ plain st' @ concat qs"
            "case res of
              Ready (Inr bs) \<Rightarrow> length bs \<le> n \<and> (bs = [] \<and> 0 < n \<longrightarrow> plain st' = [] \<and> partial (reader st') = [] \<and> pend (inner st') = [])
            | Ready (Inl e) \<Rightarrow> e = truncated \<or> inner_error e
            | Pending \<Rightarrow> plain st' = []"
            using less.hyps [of ?st2 s1 ps'] unfolding p2 by blast
          then show ?thesis using run p0 p(1)
            by (intro exI [of _ res] exI [of _ st'] exI [of _ s'] exI [of _ qs]) simp
        qed
      qed
    qed
  qed
qed

end

text \<open>A reader's life: polls with the given capacities, up to the end of the stream or an error.\<close>

datatype ending = Going | Closed | Broken io_error

fun recv_run ::
  "'io read_fn \<Rightarrow> 't cipher_fn \<Rightarrow> nat list \<Rightarrow> ('io, 't) noise_stream
    \<Rightarrow> (byte list \<times> ending \<times> ('io, 't) noise_stream) option" where
  "recv_run rd rm [] st = Some ([], Going, st)"
| "recv_run rd rm (n # ns) st =
     (case noise_poll_read rd rm n st of
        None \<Rightarrow> None
      | Some (Pending, st') \<Rightarrow> recv_run rd rm ns st'
      | Some (Ready (Inl e), st') \<Rightarrow> Some ([], Broken e, st')
      | Some (Ready (Inr bs), st') \<Rightarrow>
          if bs = [] \<and> 0 < n then Some ([], Closed, st')
          else map_option (\<lambda>(d, e, st''). (bs @ d, e, st'')) (recv_run rd rm ns st'))"

context poll_reader
begin

lemma recv_run_spec:
  assumes "ciphers_match wm rm sync" and "incoming wm sync s ps tail st"
  shows "\<exists>d e st' s' ps'. recv_run rd rm ns st = Some (d, e, st') \<and> incoming wm sync s' ps' tail st'
    \<and> plain st @ concat ps = d @ plain st' @ concat ps'
    \<and> (e = Closed \<and> tail = [] \<longrightarrow> d = plain st @ concat ps)
    \<and> (\<forall>x. e = Broken x \<longrightarrow> x = truncated \<or> inner_error x)"
  using assms(2)
proof (induction ns arbitrary: s ps st)
  case Nil
  then show ?case
    by (intro exI [of _ "[]"] exI [of _ Going] exI [of _ st] exI [of _ s] exI [of _ ps]) simp
next
  case (Cons n ns)
  from noise_poll_read_spec [OF assms(1) Cons.prems, of n] obtain res st1 s1 ps1 where
    r: "noise_poll_read rd rm n st = Some (res, st1)" and i: "incoming wm sync s1 ps1 tail st1"
    and d: "plain st @ concat ps = (case res of Ready (Inr bs) \<Rightarrow> bs | _ \<Rightarrow> []) @ plain st1 @ concat ps1"
    and c: "case res of
          Ready (Inr bs) \<Rightarrow> length bs \<le> n \<and> (bs = [] \<and> 0 < n \<longrightarrow> plain st1 = [] \<and> partial (reader st1) = [] \<and> pend (inner st1) = [])
        | Ready (Inl e) \<Rightarrow> e = truncated \<or> inner_error e
        | Pending \<Rightarrow> plain st1 = []" by blast
  from Cons.IH [OF i] obtain d2 e2 st2 s2 ps2 where
    ih: "recv_run rd rm ns st1 = Some (d2, e2, st2)" "incoming wm sync s2 ps2 tail st2"
      "plain st1 @ concat ps1 = d2 @ plain st2 @ concat ps2"
      "e2 = Closed \<and> tail = [] \<longrightarrow> d2 = plain st1 @ concat ps1"
      "\<forall>x. e2 = Broken x \<longrightarrow> x = truncated \<or> inner_error x" by blast
  show ?case
  proof (cases res)
    case Pending
    with r d ih show ?thesis
      by (intro exI [of _ d2] exI [of _ e2] exI [of _ st2] exI [of _ s2] exI [of _ ps2]) simp
  next
    case (Ready q)
    show ?thesis
    proof (cases q)
      case (Inl e)
      with Ready r d c i show ?thesis
        by (intro exI [of _ "[]"] exI [of _ "Broken e"] exI [of _ st1] exI [of _ s1] exI [of _ ps1]) simp
    next
      case (Inr bs)
      show ?thesis
      proof (cases "bs = [] \<and> 0 < n")
        case True
        with c Ready Inr have e: "plain st1 = []" "partial (reader st1) = []" "pend (inner st1) = []"
          by auto
        have "tail = [] \<Longrightarrow> ps1 = []"
        proof -
          assume "tail = []"
          with i e obtain cs where "ciphertexts wm s1 ps1 = Some cs" "concat (map frame_bytes cs) = []"
            unfolding incoming_def by auto
          then show "ps1 = []"
            by (cases ps1)
              (auto simp: ciphertexts_Cons_iff frame_bytes_def to_be16_def simp del: ciphertexts.simps(2))
        qed
        with True Ready Inr r d e i show ?thesis
          by (intro exI [of _ "[]"] exI [of _ Closed] exI [of _ st1] exI [of _ s1] exI [of _ ps1]) auto
      next
        case False
        with Ready Inr r ih have "recv_run rd rm (n # ns) st = Some (bs @ d2, e2, st2)" by auto
        with Ready Inr d ih show ?thesis
          by (intro exI [of _ "bs @ d2"] exI [of _ e2] exI [of _ st2] exI [of _ s2] exI [of _ ps2]) simp
      qed
    qed
  qed
qed

end

section \<open>Writing\<close>

text \<open>A writer's life: one poll per buffer, up to the first error. The chunks that were taken, and
  the buffer whose write failed.\<close>

fun send_run ::
  "'io write_fn \<Rightarrow> 't cipher_fn \<Rightarrow> byte list list \<Rightarrow> ('io, 't) noise_stream
    \<Rightarrow> byte list list \<times> byte list option \<times> ('io, 't) noise_stream" where
  "send_run wr wm [] st = ([], None, st)"
| "send_run wr wm (b # bs) st =
     (case noise_poll_write wr wm b st of
        (Pending, st') \<Rightarrow> send_run wr wm bs st'
      | (Ready (Inl e), st') \<Rightarrow> ([], Some b, st')
      | (Ready (Inr k), st') \<Rightarrow>
          (case send_run wr wm bs st' of (ps, failed, st'') \<Rightarrow>
             ((if k = 0 then ps else take k b # ps), failed, st'')))"

lemma wf_writer_load:
  assumes "wf_writer w" and "length c \<le> MAX_MESSAGE"
  shows "wf_writer (w\<lparr>wbuf := put_at 0 (to_be16 (length c mod 65536)) (put_at 2 c (wbuf w)),
      wlen := 2 + length c, wsent := 0\<rparr>)"
    and "outstanding (w\<lparr>wbuf := put_at 0 (to_be16 (length c mod 65536)) (put_at 2 c (wbuf w)),
      wlen := 2 + length c, wsent := 0\<rparr>) = frame_bytes c"
proof -
  have "2 \<le> length (wbuf w)" using assms(1) by (simp add: wf_writer_def)
  then show "outstanding (w\<lparr>wbuf := put_at 0 (to_be16 (length c mod 65536)) (put_at 2 c (wbuf w)),
      wlen := 2 + length c, wsent := 0\<rparr>) = frame_bytes c"
    using assms(2) by (simp add: outstanding_def put_at_def frame_bytes_def MAX_MESSAGE_def)
  show "wf_writer (w\<lparr>wbuf := put_at 0 (to_be16 (length c mod 65536)) (put_at 2 c (wbuf w)),
      wlen := 2 + length c, wsent := 0\<rparr>)"
    using assms by (simp add: wf_writer_def MAX_MESSAGE_def)
qed

context poll_writer
begin

text \<open>One poll: either nothing was encrypted, or one chunk was and its frame follows whatever the
  transport had not taken yet.\<close>

lemma noise_poll_write_spec:
  assumes "noise_poll_write wr wm buf st = (res, st')" and "wf_stream st"
    and len: "\<And>p c t'. wm p (transport st) = (Inr c, t') \<Longrightarrow> length c = length p + 16"
  shows "wf_stream st' \<and> (
      accepted (inner st') @ outstanding (fwriter st') = accepted (inner st) @ outstanding (fwriter st)
      \<and> (res = Pending \<and> transport st' = transport st \<or> (\<exists>e. res = Ready (Inl e))
        \<or> buf = [] \<and> res = Ready (Inr 0) \<and> transport st' = transport st)
    \<or> (\<exists>c. wm (take MAX_PLAINTEXT buf) (transport st) = (Inr c, transport st')
        \<and> accepted (inner st') @ outstanding (fwriter st')
            = accepted (inner st) @ outstanding (fwriter st) @ frame_bytes c
        \<and> buf \<noteq> [] \<and> (res = Ready (Inr (min (length buf) MAX_PLAINTEXT)) \<or> (\<exists>e. res = Ready (Inl e)))))"
proof -
  obtain q w io where h: "(if is_pending (fwriter st) then poll_drain wr (fwriter st) (inner st)
      else (Ready (Inr ()), fwriter st, inner st)) = (q, w, io)"
    by (cases "(if is_pending (fwriter st) then poll_drain wr (fwriter st) (inner st)
      else (Ready (Inr ()), fwriter st, inner st))") auto
  have wf: "wf_writer (fwriter st)" using assms(2) by (simp add: wf_stream_def)
  have drained: "wf_writer w \<and> accepted io @ outstanding w = accepted (inner st) @ outstanding (fwriter st)
      \<and> (q = Ready (Inr ()) \<longrightarrow> outstanding w = [])"
    using h poll_drain_spec [of "fwriter st" "inner st" q w io] wf
    by (cases "is_pending (fwriter st)") (auto simp: outstanding_Nil_iff)
  note unf = noise_poll_write_def [of wr wm buf st]
  show ?thesis
  proof (cases q)
    case Pending
    with unf h assms(1,2) drained show ?thesis by (auto simp: wf_stream_def)
  next
    case (Ready x)
    show ?thesis
    proof (cases x)
      case (Inl e)
      with Ready unf h assms(1,2) drained show ?thesis by (auto simp: wf_stream_def)
    next
      case (Inr u)
      show ?thesis
      proof (cases "buf = []")
        case True
        with Inr Ready unf h assms(1,2) drained show ?thesis by (auto simp: wf_stream_def)
      next
        case False
        let ?k = "min (length buf) MAX_PLAINTEXT"
        have tk: "take ?k buf = take MAX_PLAINTEXT buf" by (simp add: min_def)
        obtain d t' where e: "wm (take MAX_PLAINTEXT buf) (transport st) = (d, t')" by force
        show ?thesis
        proof (cases d)
          case (Inl x)
          with False Inr Ready unf h assms(1,2) drained e tk show ?thesis
            by (auto simp: wf_stream_def Let_def)
        next
          case (Inr c)
          let ?w = "w\<lparr>wbuf := put_at 0 (to_be16 (length c mod 65536)) (put_at 2 c (wbuf w)),
              wlen := 2 + length c, wsent := 0\<rparr>"
          have lc: "length c \<le> MAX_MESSAGE"
            using len [OF e [unfolded Inr]] by (simp add: MAX_MESSAGE_def MAX_PLAINTEXT_def)
          have wfw: "wf_writer w" using drained by simp
          note ld = wf_writer_load [OF wfw lc]
          obtain res2 w2 io2 where d2: "poll_drain wr ?w io = (res2, w2, io2)"
            by (cases "poll_drain wr ?w io") auto
          have st': "res = (case res2 of Ready (Inl e) \<Rightarrow> Ready (Inl e) | _ \<Rightarrow> Ready (Inr ?k))"
            "st' = st\<lparr>fwriter := w2, inner := io2, transport := t'\<rparr>"
            using False Inr \<open>x = Inr u\<close> Ready unf h assms(1) e tk d2 by (simp_all add: Let_def)
          from poll_drain_spec [OF d2 ld(1)] ld(2)
          have a: "wf_writer w2" "accepted io2 @ outstanding w2 = accepted io @ frame_bytes c" by auto
          have o: "outstanding w = []" using drained Ready \<open>x = Inr u\<close> by simp
          have "accepted io2 @ outstanding w2
              = accepted (inner st) @ outstanding (fwriter st) @ frame_bytes c"
            using a(2) drained o by simp
          moreover have "wf_stream st'" using assms(2) a(1) st'(2) by (simp add: wf_stream_def)
          moreover have "res = Ready (Inr ?k) \<or> (\<exists>e. res = Ready (Inl e))"
            using st'(1) by (auto split: poll.split sum.split)
          ultimately show ?thesis using e Inr False st'(2) by auto
        qed
      qed
    qed
  qed
qed

end

context poll_writer
begin

lemma send_run_spec:
  assumes "ciphers_match wm rm sync" and "send_run wr wm bufs st = (ps, failed, st')"
    and "wf_stream st" and "sync (transport st) r"
  shows "\<exists>qs cs. ciphertexts wm (transport st) (ps @ qs) = Some cs
    \<and> accepted (inner st') @ outstanding (fwriter st')
        = accepted (inner st) @ outstanding (fwriter st) @ concat (map frame_bytes cs)
    \<and> (\<forall>p \<in> set (ps @ qs). length p \<le> MAX_PLAINTEXT)
    \<and> (case failed of None \<Rightarrow> qs = [] | Some b \<Rightarrow> \<exists>k. concat qs = take k b)"
  using assms(2-4)
proof (induction bufs arbitrary: ps st r)
  case Nil
  then show ?case by (intro exI [of _ "[]"]) auto
next
  case (Cons b bs)
  obtain res st1 where w: "noise_poll_write wr wm b st = (res, st1)" by force
  have len: "length c = length p + 16" "\<exists>r'. sync t' r'"
    if "wm p (transport st) = (Inr c, t')" for p c t'
    using assms(1) Cons.prems(3) that unfolding ciphers_match_def by blast+
  have "wf_stream st1 \<and> (accepted (inner st1) @ outstanding (fwriter st1) = accepted (inner st) @ outstanding (fwriter st)
      \<and> (res = Pending \<and> transport st1 = transport st \<or> (\<exists>e. res = Ready (Inl e))
        \<or> b = [] \<and> res = Ready (Inr 0) \<and> transport st1 = transport st)
    \<or> (\<exists>c. wm (take MAX_PLAINTEXT b) (transport st) = (Inr c, transport st1)
        \<and> accepted (inner st1) @ outstanding (fwriter st1)
            = accepted (inner st) @ outstanding (fwriter st) @ frame_bytes c
        \<and> b \<noteq> [] \<and> (res = Ready (Inr (min (length b) MAX_PLAINTEXT)) \<or> (\<exists>e. res = Ready (Inl e)))))"
    by (rule noise_poll_write_spec [OF w Cons.prems(2)]) (erule len(1))
  then have wf: "wf_stream st1"
    and cases: "accepted (inner st1) @ outstanding (fwriter st1) = accepted (inner st) @ outstanding (fwriter st)
      \<and> (res = Pending \<and> transport st1 = transport st \<or> (\<exists>e. res = Ready (Inl e))
        \<or> b = [] \<and> res = Ready (Inr 0) \<and> transport st1 = transport st)
    \<or> (\<exists>c. wm (take MAX_PLAINTEXT b) (transport st) = (Inr c, transport st1)
        \<and> accepted (inner st1) @ outstanding (fwriter st1)
            = accepted (inner st) @ outstanding (fwriter st) @ frame_bytes c
        \<and> b \<noteq> [] \<and> (res = Ready (Inr (min (length b) MAX_PLAINTEXT)) \<or> (\<exists>e. res = Ready (Inl e))))"
    by blast+
  from cases consider
      (skip) "accepted (inner st1) @ outstanding (fwriter st1) = accepted (inner st) @ outstanding (fwriter st)"
        "transport st1 = transport st" "res = Pending \<or> res = Ready (Inr 0)"
    | (fail) e where "accepted (inner st1) @ outstanding (fwriter st1) = accepted (inner st) @ outstanding (fwriter st)"
        "res = Ready (Inl e)"
    | (sent) c where "wm (take MAX_PLAINTEXT b) (transport st) = (Inr c, transport st1)"
        "accepted (inner st1) @ outstanding (fwriter st1)
            = accepted (inner st) @ outstanding (fwriter st) @ frame_bytes c"
        "b \<noteq> []" "res = Ready (Inr (min (length b) MAX_PLAINTEXT)) \<or> (\<exists>e. res = Ready (Inl e))"
    by blast
  then show ?case
  proof cases
    case skip
    then have run: "send_run wr wm bs st1 = (ps, failed, st')"
      using Cons.prems(1) w by (auto split: prod.splits)
    have "sync (transport st1) r" using Cons.prems(3) skip(2) by simp
    note ih = Cons.IH [OF run wf this]
    have "accepted (inner st1) @ outstanding (fwriter st1) @ xs
        = accepted (inner st) @ outstanding (fwriter st) @ xs" for xs
      using skip(1) by (metis append.assoc)
    with ih show ?thesis unfolding skip(2) by (simp only:)
  next
    case fail
    then have "ps = []" "failed = Some b" "st' = st1" using Cons.prems(1) w by auto
    with fail show ?thesis by (intro exI [of _ "[]"]) (auto intro: exI [of _ 0])
  next
    case sent
    from sent(4) show ?thesis
    proof
      assume ok: "res = Ready (Inr (min (length b) MAX_PLAINTEXT))"
      obtain ps1 f1 st2 where run: "send_run wr wm bs st1 = (ps1, f1, st2)"
        by (cases "send_run wr wm bs st1") auto
      have "min (length b) MAX_PLAINTEXT \<noteq> 0" using sent(3) by (simp add: MAX_PLAINTEXT_def)
      moreover have "take (min (length b) MAX_PLAINTEXT) b = take MAX_PLAINTEXT b" by (simp add: min_def)
      ultimately have e: "ps = take MAX_PLAINTEXT b # ps1" "f1 = failed" "st2 = st'"
        using Cons.prems(1) w ok run by auto
      obtain r' where "sync (transport st1) r'" using len(2) [OF sent(1)] by blast
      from Cons.IH [OF run [unfolded e(2,3)] wf this] obtain qs cs where
        "ciphertexts wm (transport st1) (ps1 @ qs) = Some cs"
        "accepted (inner st') @ outstanding (fwriter st')
          = accepted (inner st1) @ outstanding (fwriter st1) @ concat (map frame_bytes cs)"
        "\<forall>p \<in> set (ps1 @ qs). length p \<le> MAX_PLAINTEXT"
        "case failed of None \<Rightarrow> qs = [] | Some b \<Rightarrow> \<exists>k. concat qs = take k b" by blast
      with e(1) sent(1,2) show ?thesis by (intro exI [of _ qs] exI [of _ "c # cs"]) simp
    next
      assume "\<exists>e. res = Ready (Inl e)"
      then have e: "ps = []" "failed = Some b" "st' = st1" using Cons.prems(1) w by auto
      with sent(1,2) show ?thesis
        by (intro exI [of _ "[take MAX_PLAINTEXT b]"] exI [of _ "[c]"]) auto
    qed
  qed
qed

end

section \<open>A transport that follows a script\<close>

text \<open>
  Every behaviour a peer and an operating system can show is a script: what arrives in which
  pieces, when a poll is pending, when it fails, and how many bytes each write takes. After the
  script of arrivals the peer has closed; after the script of writes everything is taken.
\<close>

datatype arrival = Deliver "byte list" | Idle | Fail io_error
datatype uptake = Take nat | Busy | Break io_error

record sock =
  arrivals :: "arrival list"
  uptakes :: "uptake list"
  taken :: "byte list"

definition sock_read :: "sock read_fn" where
  "sock_read n k =
     (if n = 0 then (Ready (Inr []), k)
      else case arrivals k of
        [] \<Rightarrow> (Ready (Inr []), k)
      | Deliver bs # rest \<Rightarrow>
          if bs = [] then (Pending, k\<lparr>arrivals := rest\<rparr>)
          else (Ready (Inr (take n bs)),
                k\<lparr>arrivals := (if n < length bs then Deliver (drop n bs) # rest else rest)\<rparr>)
      | Idle # rest \<Rightarrow> (Pending, k\<lparr>arrivals := rest\<rparr>)
      | Fail e # rest \<Rightarrow> (Ready (Inl e), k\<lparr>arrivals := rest\<rparr>))"

definition sock_write :: "sock write_fn" where
  "sock_write bs k =
     (case uptakes k of
        [] \<Rightarrow> (Ready (Inr (length bs)), k\<lparr>taken := taken k @ bs\<rparr>)
      | Take m # rest \<Rightarrow>
          (Ready (Inr (min m (length bs))),
           k\<lparr>taken := taken k @ take (min m (length bs)) bs, uptakes := rest\<rparr>)
      | Busy # rest \<Rightarrow> (Pending, k\<lparr>uptakes := rest\<rparr>)
      | Break e # rest \<Rightarrow> (Ready (Inl e), k\<lparr>uptakes := rest\<rparr>))"

fun arriving :: "arrival list \<Rightarrow> byte list" where
  "arriving [] = []"
| "arriving (Deliver bs # rest) = bs @ arriving rest"
| "arriving (_ # rest) = arriving rest"

interpretation scripted: poll_reader sock_read "arriving \<circ> arrivals"
proof
  fix n and k k' :: sock and bs e
  show "sock_read n k = (Ready (Inr bs), k') \<Longrightarrow>
      length bs \<le> n \<and> (arriving \<circ> arrivals) k = bs @ (arriving \<circ> arrivals) k'"
    by (auto simp: sock_read_def split: if_splits list.splits arrival.splits)
  show "sock_read n k = (Ready (Inr []), k') \<Longrightarrow> 0 < n \<Longrightarrow> (arriving \<circ> arrivals) k = []"
    by (auto simp: sock_read_def split: if_splits list.splits arrival.splits)
  show "sock_read n k = (Pending, k') \<or> sock_read n k = (Ready (Inl e), k') \<Longrightarrow>
      (arriving \<circ> arrivals) k' = (arriving \<circ> arrivals) k"
    by (auto simp: sock_read_def split: if_splits list.splits arrival.splits)
qed

interpretation scripted: poll_writer sock_write taken
  by unfold_locales
    (auto simp: sock_write_def split: list.splits uptake.splits)

section \<open>Properties\<close>

text \<open>C14: A Noise stream is transparent: whatever pieces, pauses and failures the two transports
  show, the bytes the reader gets are a prefix of the bytes the writer handed over, in order and
  without loss or duplication in between; when the whole ciphertext arrives and the reader reaches
  the end of the stream it has all of them; and reading never loops forever.\<close>

theorem noise_stream_transparent:
  assumes "ciphers_match wm rm sync" and "sync s r"
    and "send_run sock_write wm bufs (noise_stream_new \<lparr>arrivals = a0, uptakes = u0, taken = []\<rparr> s)
      = (ps, failed, st)"
    and "taken (inner st) = arriving (arrivals k) @ lost"
  shows "\<exists>d e st'. recv_run sock_read rm ns (noise_stream_new k r) = Some (d, e, st')
    \<and> (\<exists>rest. d @ rest = concat ps @ (case failed of None \<Rightarrow> [] | Some b \<Rightarrow> b))
    \<and> (e = Closed \<and> failed = None \<and> lost = [] \<and> \<not> is_pending (fwriter st) \<longrightarrow> d = concat ps)"
proof -
  define w0 where "w0 = noise_stream_new \<lparr>arrivals = a0, uptakes = u0, taken = []\<rparr> s"
  let ?r0 = "noise_stream_new k r"
  have w0: "transport w0 = s" "taken (inner w0) = []" "outstanding (fwriter w0) = []" "wf_stream w0"
    by (simp_all add: w0_def wf_stream_new) (simp_all add: noise_stream_new_def)
  have "sync (transport w0) r" using w0(1) assms(2) by simp
  note scripted.send_run_spec [OF assms(1) assms(3) [folded w0_def] w0(4) this]
  then obtain qs cs where cs: "ciphertexts wm s (ps @ qs) = Some cs"
    "taken (inner st) @ outstanding (fwriter st) = concat (map frame_bytes cs)"
    "\<forall>p \<in> set (ps @ qs). length p \<le> MAX_PLAINTEXT"
    "case failed of None \<Rightarrow> qs = [] | Some b \<Rightarrow> \<exists>k. concat qs = take k b"
    unfolding w0 append_Nil by blast
  let ?tail = "lost @ outstanding (fwriter st)"
  have "scripted.incoming wm sync s (ps @ qs) ?tail ?r0"
    using cs assms(2,4) wf_stream_new [of k r]
    by (simp add: scripted.incoming_def noise_stream_new_def)
  from scripted.recv_run_spec [OF assms(1) this, of ns] obtain d e st' ps' where
    run: "recv_run sock_read rm ns ?r0 = Some (d, e, st')"
    and d: "concat (ps @ qs) = d @ plain st' @ concat ps'"
    and closed: "e = Closed \<and> ?tail = [] \<longrightarrow> d = concat (ps @ qs)"
    unfolding plain_new append_Nil by blast
  have "\<exists>rest. d @ rest = concat ps @ (case failed of None \<Rightarrow> [] | Some b \<Rightarrow> b)"
  proof (cases failed)
    case None
    with cs(4) d show ?thesis by auto
  next
    case (Some b)
    with cs(4) obtain m where "concat qs = take m b" by auto
    then have "concat ps @ b = d @ (plain st' @ concat ps' @ drop m b)"
      using d by (metis append.assoc append_take_drop_id concat_append)
    with Some show ?thesis by auto
  qed
  moreover have "d = concat ps"
    if "e = Closed" "failed = None" "lost = []" "\<not> is_pending (fwriter st)"
  proof -
    have "outstanding (fwriter st) = []" using that(4) by (simp add: outstanding_def is_pending_def)
    with closed cs(4) that show ?thesis by simp
  qed
  ultimately show ?thesis using run by blast
qed

text \<open>A cipher for examples: the tag is 16 copies of the message counter.\<close>

definition demo_encrypt :: "nat cipher_fn" where
  "demo_encrypt p n = (Inr (p @ replicate 16 (word_of_nat n)), Suc n)"

definition demo_decrypt :: "nat cipher_fn" where
  "demo_decrypt c n =
     (if 16 \<le> length c \<and> drop (length c - 16) c = replicate 16 (word_of_nat n)
      then (Inr (take (length c - 16) c), Suc n) else (Inl Snow, n))"

lemma demo_ciphers_match: "ciphers_match demo_encrypt demo_decrypt (=)"
  by (simp add: ciphers_match_def demo_encrypt_def demo_decrypt_def)

theorem noise_stream_transparent_witness:
  "\<exists>ps failed st d e st'.
     send_run sock_write demo_encrypt [[1, 2, 3], [4]]
       (noise_stream_new \<lparr>arrivals = [], uptakes = [Take 5, Busy, Take 1], taken = []\<rparr> 0) = (ps, failed, st)
     \<and> recv_run sock_read demo_decrypt [2, 2, 2, 2, 2]
         (noise_stream_new \<lparr>arrivals = [Idle, Deliver (taken (inner st))], uptakes = [], taken = []\<rparr> 0)
       = Some (d, e, st')
     \<and> (\<exists>rest. d @ rest = concat ps @ (case failed of None \<Rightarrow> [] | Some b \<Rightarrow> b))"
proof -
  obtain ps failed st where w: "send_run sock_write demo_encrypt [[1, 2, 3], [4]]
       (noise_stream_new \<lparr>arrivals = [], uptakes = [Take 5, Busy, Take 1], taken = []\<rparr> 0) = (ps, failed, st)"
    by (rule prod_cases3)
  let ?k = "\<lparr>arrivals = [Idle, Deliver (taken (inner st))], uptakes = [], taken = []\<rparr>"
  have "taken (inner st) = arriving (arrivals ?k) @ []" by simp
  from noise_stream_transparent [OF demo_ciphers_match refl w this, of "[2, 2, 2, 2, 2]"] w
  show ?thesis by blast
qed

text \<open>One write poll takes at most 65519 bytes and its frame always fits the 16-bit length: a poll
  that reports bytes has put exactly one frame of those bytes after everything written before, and a
  poll that is pending has encrypted and queued nothing, so the caller may repeat it.\<close>

theorem noise_write_poll:
  assumes "ciphers_match wm rm sync" and "sync (transport st) r" and "wf_stream st"
    and "noise_poll_write sock_write wm buf st = (res, st')"
  shows "(res = Pending \<longrightarrow> transport st' = transport st
      \<and> taken (inner st') @ outstanding (fwriter st') = taken (inner st) @ outstanding (fwriter st))
    \<and> (\<forall>n. res = Ready (Inr n) \<and> buf \<noteq> [] \<longrightarrow> 0 < n \<and> n \<le> 65519 \<and> n \<le> length buf
      \<and> (\<exists>c. wm (take n buf) (transport st) = (Inr c, transport st') \<and> length c = n + 16 \<and> length c < 65536
        \<and> taken (inner st') @ outstanding (fwriter st')
            = taken (inner st) @ outstanding (fwriter st) @ frame_bytes c))"
proof -
  have len: "length c = length p + 16" if "wm p (transport st) = (Inr c, t')" for p c t'
    using assms(1,2) that unfolding ciphers_match_def by blast
  have tk: "take (min (length buf) MAX_PLAINTEXT) buf = take MAX_PLAINTEXT buf" by (simp add: min_def)
  have pos: "buf \<noteq> [] \<Longrightarrow> 0 < min (length buf) MAX_PLAINTEXT \<and> min (length buf) MAX_PLAINTEXT \<le> 65519"
    by (simp add: MAX_PLAINTEXT_def)
  have "wf_stream st' \<and> (
      taken (inner st') @ outstanding (fwriter st') = taken (inner st) @ outstanding (fwriter st)
      \<and> (res = Pending \<and> transport st' = transport st \<or> (\<exists>e. res = Ready (Inl e))
        \<or> buf = [] \<and> res = Ready (Inr 0) \<and> transport st' = transport st)
    \<or> (\<exists>c. wm (take MAX_PLAINTEXT buf) (transport st) = (Inr c, transport st')
        \<and> taken (inner st') @ outstanding (fwriter st')
            = taken (inner st) @ outstanding (fwriter st) @ frame_bytes c
        \<and> buf \<noteq> [] \<and> (res = Ready (Inr (min (length buf) MAX_PLAINTEXT)) \<or> (\<exists>e. res = Ready (Inl e)))))"
    by (rule scripted.noise_poll_write_spec [OF assms(4,3)]) (erule len)
  then consider
      (same) "taken (inner st') @ outstanding (fwriter st') = taken (inner st) @ outstanding (fwriter st)"
        "res = Pending \<and> transport st' = transport st \<or> (\<exists>e. res = Ready (Inl e)) \<or> buf = [] \<and> res = Ready (Inr 0)"
    | (sent) c where "wm (take MAX_PLAINTEXT buf) (transport st) = (Inr c, transport st')"
        "taken (inner st') @ outstanding (fwriter st')
            = taken (inner st) @ outstanding (fwriter st) @ frame_bytes c"
        "buf \<noteq> []" "res = Ready (Inr (min (length buf) MAX_PLAINTEXT)) \<or> (\<exists>e. res = Ready (Inl e))"
    by blast
  then show ?thesis
  proof cases
    case same
    then show ?thesis by auto
  next
    case sent
    have "length c = min (length buf) MAX_PLAINTEXT + 16" using len [OF sent(1)] by simp
    moreover from this pos [OF sent(3)] have "length c < 65536" by linarith
    ultimately show ?thesis using sent pos [OF sent(3)] tk
      by (auto intro!: exI [of _ c])
  qed
qed

theorem noise_write_poll_witness:
  "\<exists>res st'. noise_poll_write sock_write demo_encrypt [7, 8]
      (noise_stream_new \<lparr>arrivals = [], uptakes = [], taken = []\<rparr> 3) = (res, st') \<and> res \<noteq> Ready (Inr 3)"
proof -
  let ?st = "noise_stream_new \<lparr>arrivals = [], uptakes = [], taken = []\<rparr> 3"
  obtain res st' where r: "noise_poll_write sock_write demo_encrypt [7, 8] ?st = (res, st')" by force
  have "res \<noteq> Ready (Inr 3)"
    using noise_write_poll [OF demo_ciphers_match refl wf_stream_new r] by auto
  with r show ?thesis by blast
qed

end
