(* ===== verification/Noise_Handshake.thy ===== *)
theory Noise_Handshake
  imports Noise_Stream Tenants
begin

text \<open>
  The Noise handshake (\<open>noise.rs\<close>: \<open>connect\<close>, \<open>accept\<close>, \<open>accept_any\<close>). The Noise
  library \<open>snow\<close> is an argument: a record of the calls the code makes. The stream is a pair of
  an \<open>inbound\<close> and an \<open>outbound\<close>, which interprets both stream contracts of \<open>Frame\<close>.
\<close>

section \<open>The stream\<close>

record duplex =
  rx :: inbound
  tx :: outbound

definition dup_read :: "nat \<Rightarrow> (duplex, io_error, byte list) step" where
  "dup_read n d = (case read_exact n (rx d) of (r, i) \<Rightarrow> (r, d\<lparr>rx := i\<rparr>))"

definition dup_write :: "byte list \<Rightarrow> (duplex, io_error, unit) step" where
  "dup_write bs d = (case write_all bs (tx d) of (r, q) \<Rightarrow> (r, d\<lparr>tx := q\<rparr>))"

definition dup_flush :: "(duplex, io_error, unit) step" where
  "dup_flush d = (case flush (tx d) of (r, q) \<Rightarrow> (r, d\<lparr>tx := q\<rparr>))"

definition unread :: "duplex \<Rightarrow> byte list" where "unread d = avail (rx d)"
definition written :: "duplex \<Rightarrow> byte list" where "written d = sent (tx d)"

lemma dup_keeps:
  "dup_read n d = (r, d') \<Longrightarrow> tx d' = tx d"
  "dup_write bs d = (q, d') \<Longrightarrow> rx d' = rx d"
  "dup_flush d = (q, d') \<Longrightarrow> rx d' = rx d"
  by (auto simp: dup_read_def dup_write_def dup_flush_def split: prod.splits)

interpretation dup: exact_reader dup_read unread
proof
  fix n d bs d' e
  show "dup_read n d = (Inr bs, d') \<Longrightarrow> length bs = n \<and> unread d = bs @ unread d'"
    by (auto simp: dup_read_def unread_def dest: inb.rx_ok split: prod.splits)
  show "n \<le> length (unread d) \<Longrightarrow> is_ok (fst (dup_read n d))"
    using inb.rx_enough [of n "rx d"] by (auto simp: dup_read_def unread_def split: prod.splits)
qed

interpretation dup: byte_sink dup_write dup_flush written
proof
  fix bs d d' e and u :: unit and r :: "io_error + unit"
  show "dup_write bs d = (Inr u, d') \<Longrightarrow> written d' = written d @ bs"
    by (auto simp: dup_write_def written_def dest: outb.wr_ok split: prod.splits)
  show "dup_write bs d = (Inl e, d') \<Longrightarrow> \<exists>k<length bs. written d' = written d @ take k bs"
    by (auto simp: dup_write_def written_def dest: outb.wr_err split: prod.splits)
  show "dup_flush d = (r, d') \<Longrightarrow> written d' = written d"
    by (auto simp: dup_flush_def written_def dest: outb.fl_out split: prod.splits)
qed

section \<open>The Noise library\<close>

record ('b, 'h, 't) snow =
  builder_psk :: "psk \<Rightarrow> snow_error + 'b"
  build_initiator :: "'b \<Rightarrow> snow_error + 'h"
  build_responder :: "'b \<Rightarrow> snow_error + 'h"
  hs_write_message :: "byte list \<Rightarrow> 'h \<Rightarrow> (snow_error + byte list) \<times> 'h"
  hs_read_message :: "byte list \<Rightarrow> 'h \<Rightarrow> (snow_error + byte list) \<times> 'h"
  into_transport_mode :: "'h \<Rightarrow> snow_error + 't"

datatype handshake_error = ConfiguringPsk | BuildingInitiator | BuildingResponder
  | WritingMessage1 | SendingMessage1 io_error | ReadingMessage1 io_error | ProcessingMessage1
  | WritingMessage2 | SendingMessage2 io_error | ReadingMessage2 io_error | ProcessingMessage2
  | EnteringTransport

section \<open>Initiator\<close>

definition connect ::
  "('b, 'h, 't) snow \<Rightarrow> psk \<Rightarrow> duplex \<Rightarrow> (handshake_error + (duplex, 't) noise_stream) \<times> duplex" where
  "connect N p io =
     (case rbind (map_err (\<lambda>_. ConfiguringPsk) (builder_psk N p)) (\<lambda>b.
             map_err (\<lambda>_. BuildingInitiator) (build_initiator N b)) of
        Inl e \<Rightarrow> (Inl e, io)
      | Inr hs \<Rightarrow>
          (case hs_write_message N [] hs of
             (Inl _, _) \<Rightarrow> (Inl WritingMessage1, io)
           | (Inr m1, hs1) \<Rightarrow>
               (case write_frame dup_write dup_flush m1 io of
                  (Inl e, io1) \<Rightarrow> (Inl (SendingMessage1 e), io1)
                | (Inr _, io1) \<Rightarrow>
                    (case read_frame dup_read MAX_MESSAGE io1 of
                       (Inl e, io2) \<Rightarrow> (Inl (ReadingMessage2 e), io2)
                     | (Inr m2, io2) \<Rightarrow>
                         (case hs_read_message N m2 hs1 of
                            (Inl _, _) \<Rightarrow> (Inl ProcessingMessage2, io2)
                          | (Inr _, hs2) \<Rightarrow>
                              (map_err (\<lambda>_. EnteringTransport)
                                 (rbind (into_transport_mode N hs2) (\<lambda>t. Inr (noise_stream_new io2 t))),
                               io2))))))"

section \<open>Responder\<close>

text \<open>The loop over the candidates: every one is tried, the first whose tag verifies is kept.\<close>

fun try_candidates ::
  "('b, 'h, 't) snow \<Rightarrow> byte list \<Rightarrow> nat \<Rightarrow> psk list \<Rightarrow> (nat \<times> 'h) option
    \<Rightarrow> handshake_error + (nat \<times> 'h) option" where
  "try_candidates N msg i [] matched = Inr matched"
| "try_candidates N msg i (p # ps) matched =
     rbind (map_err (\<lambda>_. ConfiguringPsk) (builder_psk N p)) (\<lambda>b.
     rbind (map_err (\<lambda>_. BuildingResponder) (build_responder N b)) (\<lambda>hs.
     case hs_read_message N msg hs of
       (Inr _, hs') \<Rightarrow> try_candidates N msg (Suc i) ps (if matched = None then Some (i, hs') else matched)
     | (Inl _, _) \<Rightarrow> try_candidates N msg (Suc i) ps matched))"

definition accept_any ::
  "('b, 'h, 't) snow \<Rightarrow> psk list \<Rightarrow> duplex
    \<Rightarrow> (handshake_error + (duplex, 't) noise_stream \<times> nat) \<times> duplex" where
  "accept_any N ps io =
     (case read_frame dup_read MAX_MESSAGE io of
        (Inl e, io1) \<Rightarrow> (Inl (ReadingMessage1 e), io1)
      | (Inr msg, io1) \<Rightarrow>
          (case rbind (try_candidates N msg 0 ps None) (\<lambda>m. ok_or m ProcessingMessage1) of
             Inl e \<Rightarrow> (Inl e, io1)
           | Inr (index, hs) \<Rightarrow>
               (case hs_write_message N [] hs of
                  (Inl _, _) \<Rightarrow> (Inl WritingMessage2, io1)
                | (Inr m2, hs1) \<Rightarrow>
                    (case write_frame dup_write dup_flush m2 io1 of
                       (Inl e, io2) \<Rightarrow> (Inl (SendingMessage2 e), io2)
                     | (Inr _, io2) \<Rightarrow>
                         (map_err (\<lambda>_. EnteringTransport)
                            (rbind (into_transport_mode N hs1) (\<lambda>t. Inr (noise_stream_new io2 t, index))),
                          io2)))))"

definition accept_one ::
  "('b, 'h, 't) snow \<Rightarrow> psk \<Rightarrow> duplex \<Rightarrow> (handshake_error + (duplex, 't) noise_stream) \<times> duplex" where
  "accept_one N p io = (case accept_any N [p] io of (r, io') \<Rightarrow> (rbind r (\<lambda>(st, _). Inr st), io'))"

section \<open>Which candidate wins\<close>

definition responder :: "('b, 'h, 't) snow \<Rightarrow> psk \<Rightarrow> snow_error + 'h" where
  "responder N p = rbind (builder_psk N p) (build_responder N)"

definition verifies :: "('b, 'h, 't) snow \<Rightarrow> byte list \<Rightarrow> psk \<Rightarrow> bool" where
  "verifies N msg p \<longleftrightarrow> is_ok (rbind (responder N p) (\<lambda>hs. fst (hs_read_message N msg hs)))"

text \<open>The configuration is fixed and valid, so the library builds a responder for every key.\<close>

definition builds_responders :: "('b, 'h, 't) snow \<Rightarrow> bool" where
  "builds_responders N \<longleftrightarrow> (\<forall>p. is_ok (responder N p))"

lemma try_candidates_spec:
  assumes "builds_responders N"
  shows "\<exists>m. try_candidates N msg i ps matched = Inr m \<and>
    (case matched of
       Some x \<Rightarrow> m = Some x
     | None \<Rightarrow> (case m of
         None \<Rightarrow> \<forall>p \<in> set ps. \<not> verifies N msg p
       | Some (j, hs) \<Rightarrow> \<exists>k. j = i + k \<and> k < length ps \<and> verifies N msg (ps ! k)
           \<and> (\<forall>k' < k. \<not> verifies N msg (ps ! k'))))"
proof (induction ps arbitrary: i matched)
  case Nil
  show ?case by (simp split: option.split)
next
  case (Cons p ps)
  from assms obtain b hs where b: "builder_psk N p = Inr b" "build_responder N b = Inr hs"
    unfolding builds_responders_def responder_def is_ok_iff rbind_eq_Inr_iff by blast
  obtain r hs' where r: "hs_read_message N msg hs = (r, hs')" by force
  have v: "verifies N msg p \<longleftrightarrow> is_ok r"
    using b r by (simp add: verifies_def responder_def)
  let ?m = "if is_ok r \<and> matched = None then Some (i, hs') else matched"
  have e: "try_candidates N msg i (p # ps) matched = try_candidates N msg (Suc i) ps ?m"
    using b r by (cases r) (auto simp: is_ok_def)
  from Cons [of "Suc i" ?m] obtain m where m: "try_candidates N msg (Suc i) ps ?m = Inr m"
    "case ?m of
       Some x \<Rightarrow> m = Some x
     | None \<Rightarrow> (case m of
         None \<Rightarrow> \<forall>p \<in> set ps. \<not> verifies N msg p
       | Some (j, hs) \<Rightarrow> \<exists>k. j = Suc i + k \<and> k < length ps \<and> verifies N msg (ps ! k)
           \<and> (\<forall>k' < k. \<not> verifies N msg (ps ! k')))" by blast
  show ?case
  proof (cases matched)
    case (Some x)
    with m e show ?thesis by auto
  next
    case None
    show ?thesis
    proof (cases "is_ok r")
      case True
      with None m have "m = Some (i, hs')" by simp
      with m e None v True show ?thesis by auto
    next
      case False
      show ?thesis
      proof (cases m)
        case None
        with m e False v \<open>matched = None\<close> show ?thesis by auto
      next
        case (Some y)
        obtain j h where "y = (j, h)" by force
        with m(2) False \<open>matched = None\<close> Some obtain k where k: "j = Suc i + k" "k < length ps"
          "verifies N msg (ps ! k)" "\<forall>k' < k. \<not> verifies N msg (ps ! k')" by auto
        have "\<forall>k' < Suc k. \<not> verifies N msg ((p # ps) ! k')"
          using k(4) v False by (auto simp: less_Suc_eq_0_disj)
        with k m(1) e \<open>matched = None\<close> Some \<open>y = (j, h)\<close> show ?thesis
          by (auto intro!: exI [of _ "Suc k"])
      qed
    qed
  qed
qed

lemma read_frame_keeps_tx: "read_frame dup_read n d = (r, d') \<Longrightarrow> tx d' = tx d"
  by (auto simp: read_frame_def sbind_def Let_def sfail_def split: prod.splits sum.splits if_splits)
    (metis dup_keeps(1))+

lemma write_frame_keeps_rx: "write_frame dup_write dup_flush bs d = (r, d') \<Longrightarrow> rx d' = rx d"
  by (auto simp: write_frame_def sbind_def sfail_def split: prod.splits sum.splits if_splits)
    (metis dup_keeps(2,3))+

lemma accept_any_cases:
  assumes "builds_responders N" and "unread io = frame_bytes msg @ rest" and "length msg \<le> 65535"
    and "accept_any N ps io = (res, io')"
  obtains (nobody) "\<forall>p \<in> set ps. \<not> verifies N msg p" "res = Inl ProcessingMessage1"
      "written io' = written io" "unread io' = rest"
    | (known) k where "k < length ps" "verifies N msg (ps ! k)" "\<forall>j < k. \<not> verifies N msg (ps ! j)"
      "unread io' = rest" "\<And>st i. res = Inr (st, i) \<Longrightarrow> i = k \<and> inner st = io'
        \<and> (\<exists>m2. written io' = written io @ frame_bytes m2)"
      "res \<noteq> Inl ProcessingMessage1"
proof -
  from dup.read_frame_written [OF assms(2) _ assms(3), of MAX_MESSAGE] assms(3)
  obtain io1 where r: "read_frame dup_read MAX_MESSAGE io = (Inr msg, io1)" "unread io1 = rest"
    by (auto simp: MAX_MESSAGE_def)
  have w1: "written io1 = written io" using read_frame_keeps_tx [OF r(1)] by (simp add: written_def)
  from try_candidates_spec [OF assms(1), of msg 0 ps None] obtain m where
    m: "try_candidates N msg 0 ps None = Inr m" and c: "case m of
         None \<Rightarrow> \<forall>p \<in> set ps. \<not> verifies N msg p
       | Some (j, hs) \<Rightarrow> \<exists>k. j = 0 + k \<and> k < length ps \<and> verifies N msg (ps ! k)
           \<and> (\<forall>k' < k. \<not> verifies N msg (ps ! k'))" by auto
  show thesis
  proof (cases m)
    case None
    with assms(4) r m have "res = Inl ProcessingMessage1" "io' = io1" by (auto simp: accept_any_def)
    with None c w1 r(2) nobody show ?thesis by auto
  next
    case (Some y)
    obtain k hs where y: "y = (k, hs)" by force
    have run: "accept_any N ps io = (case hs_write_message N [] hs of
         (Inl _, _) \<Rightarrow> (Inl WritingMessage2, io1)
       | (Inr m2, hs1) \<Rightarrow>
           (case write_frame dup_write dup_flush m2 io1 of
              (Inl e, io2) \<Rightarrow> (Inl (SendingMessage2 e), io2)
            | (Inr _, io2) \<Rightarrow>
                (map_err (\<lambda>_. EnteringTransport)
                   (rbind (into_transport_mode N hs1) (\<lambda>t. Inr (noise_stream_new io2 t, k))),
                 io2)))"
      using r(1) m Some y by (simp add: accept_any_def)
    obtain q hs1 where q: "hs_write_message N [] hs = (q, hs1)" by force
    from c Some y have ck: "k < length ps" "verifies N msg (ps ! k)"
      "\<forall>j < k. \<not> verifies N msg (ps ! j)" by auto
    have "unread io' = rest \<and> res \<noteq> Inl ProcessingMessage1
        \<and> (\<forall>st i. res = Inr (st, i) \<longrightarrow> i = k \<and> inner st = io'
             \<and> (\<exists>m2. written io' = written io @ frame_bytes m2))"
    proof (cases q)
      case (Inl x)
      with run q assms(4) r(2) show ?thesis by auto
    next
      case (Inr m2)
      obtain v io2 where v: "write_frame dup_write dup_flush m2 io1 = (v, io2)" by force
      have u: "unread io2 = rest" using write_frame_keeps_rx [OF v] r(2) by (simp add: unread_def)
      show ?thesis
      proof (cases v)
        case (Inl x)
        with run q Inr v assms(4) u show ?thesis by auto
      next
        case (Inr z)
        with v dup.write_frame_ok [of m2 io1 z io2] w1
        have w: "written io2 = written io @ frame_bytes m2" by simp
        show ?thesis
          using run q \<open>q = Inr m2\<close> v Inr assms(4) u w
          by (cases "into_transport_mode N hs1") (auto simp: noise_stream_new_def)
      qed
    qed
    then show ?thesis by (intro known [OF ck]) blast+
  qed
qed

text \<open>The identity a completed handshake ends with is the one that holds the verifying key.\<close>

lemma accept_any_identity:
  assumes "builds_responders N" and "\<forall>q. verifies N msg q \<longleftrightarrow> q = p"
    and "unread io = frame_bytes msg @ rest" and "length msg \<le> 65535"
    and "accept_any N (psks (candidates_at s now)) io = (Inr (st, i), io')"
  shows "identifies s now p (ids (candidates_at s now) ! i)"
proof (rule accept_any_cases [OF assms(1,3-5)])
  fix k
  assume k: "k < length (psks (candidates_at s now))" "verifies N msg (psks (candidates_at s now) ! k)"
    and r: "\<And>st' j. Inr (st, i) = Inr (st', j) \<Longrightarrow> j = k \<and> inner st' = io'
        \<and> (\<exists>m2. written io' = written io @ frame_bytes m2)"
  from k assms(2) have "identifies s now p (ids (candidates_at s now) ! k)"
    by (auto simp: identifies_def candidates_psks)
  with r show ?thesis by blast
qed simp

section \<open>Properties\<close>

text \<open>The responder answers for the first candidate whose tag verifies, after reading exactly one
  frame and writing exactly one; when no candidate verifies it drops the connection without having
  written a byte.\<close>

theorem accept_any_first_match:
  assumes "builds_responders N" and "unread io = frame_bytes msg @ rest" and "length msg \<le> 65535"
    and "accept_any N ps io = (res, io')"
  shows "unread io' = rest
    \<and> ((\<forall>p \<in> set ps. \<not> verifies N msg p) \<longrightarrow> res = Inl ProcessingMessage1 \<and> written io' = written io)
    \<and> (\<forall>st i. res = Inr (st, i) \<longrightarrow> i < length ps \<and> verifies N msg (ps ! i)
        \<and> (\<forall>j < i. \<not> verifies N msg (ps ! j)) \<and> inner st = io'
        \<and> (\<exists>m2. written io' = written io @ frame_bytes m2))"
proof (rule accept_any_cases [OF assms])
  fix k
  assume k: "k < length ps" "verifies N msg (ps ! k)" "\<forall>j < k. \<not> verifies N msg (ps ! j)"
    "unread io' = rest" and r: "\<And>st i. res = Inr (st, i) \<Longrightarrow> i = k \<and> inner st = io'
        \<and> (\<exists>m2. written io' = written io @ frame_bytes m2)"
  have "\<not> (\<forall>p \<in> set ps. \<not> verifies N msg p)" using k(1,2) nth_mem by blast
  with k r show ?thesis by blast
qed simp

text \<open>C12: Identification by key is sound and complete: when a handshake message verifies under one key
  only, the responder that tries the candidates of a validated set ends with the identity that holds
  that key, and it says nothing to a peer whose key no enabled tenant and no unexpired code holds.\<close>

theorem handshake_identifies_holder:
  assumes "wf_set s" and "builds_responders N" and "\<forall>q. verifies N msg q \<longleftrightarrow> q = p"
    and "unread io = frame_bytes msg @ rest" and "length msg \<le> 65535"
    and "accept_any N (psks (candidates_at s now)) io = (res, io')"
  shows "(\<forall>st i. res = Inr (st, i) \<longrightarrow> identifies s now p (ids (candidates_at s now) ! i))
    \<and> (res = Inl ProcessingMessage1 \<longleftrightarrow> (\<nexists>i. identifies s now p i))
    \<and> ((\<nexists>i. identifies s now p i) \<longrightarrow> written io' = written io)"
proof (rule accept_any_cases [OF assms(2,4-6)])
  assume n: "\<forall>p \<in> set (psks (candidates_at s now)). \<not> verifies N msg p" "res = Inl ProcessingMessage1"
    "written io' = written io"
  have "\<nexists>i. identifies s now p i"
  proof
    assume "\<exists>i. identifies s now p i"
    then have "p \<in> set (psks (candidates_at s now))"
      by (auto simp: identifies_def candidates_psks)
    with n(1) assms(3) show False by blast
  qed
  with n(2,3) show ?thesis by simp
next
  fix k
  assume k: "k < length (psks (candidates_at s now))" "verifies N msg (psks (candidates_at s now) ! k)"
    and r: "\<And>st i. res = Inr (st, i) \<Longrightarrow> i = k \<and> inner st = io'
        \<and> (\<exists>m2. written io' = written io @ frame_bytes m2)" and np: "res \<noteq> Inl ProcessingMessage1"
  have "identity_psk (ids (candidates_at s now) ! k) = p" "k < length (ids (candidates_at s now))"
    using k assms(3) by (simp_all add: candidates_psks)
  then have "identifies s now p (ids (candidates_at s now) ! k)" by (simp add: identifies_def)
  with r np show ?thesis by blast
qed

text \<open>A library for examples: the message is the key, and the answer is the key again.\<close>

definition demo_snow :: "(psk, psk, nat) snow" where
  "demo_snow = \<lparr>builder_psk = Inr, build_initiator = Inr, build_responder = Inr,
     hs_write_message = (\<lambda>_ p. (Inr (psk_bytes p), p)),
     hs_read_message = (\<lambda>m p. (if m = psk_bytes p then Inr [] else Inl Snow, p)),
     into_transport_mode = (\<lambda>_. Inr 0)\<rparr>"

lemma demo_snow_builds: "builds_responders demo_snow"
  by (simp add: builds_responders_def responder_def demo_snow_def)

lemma demo_snow_verifies: "verifies demo_snow m q \<longleftrightarrow> m = psk_bytes q"
  by (simp add: verifies_def responder_def demo_snow_def)

definition demo_io :: "psk \<Rightarrow> duplex" where
  "demo_io p = \<lparr>rx = \<lparr>avail = frame_bytes (psk_bytes p), closes = True\<rparr>, tx = \<lparr>sent = [], room = None\<rparr>\<rparr>"

lemma demo_io_unread: "unread (demo_io p) = frame_bytes (psk_bytes p) @ []"
  by (simp add: unread_def demo_io_def)

theorem accept_any_first_match_witness:
  "fst (accept_any demo_snow [sample_psk 1] (demo_io (sample_psk 2))) = Inl ProcessingMessage1"
proof -
  obtain res io' where r: "accept_any demo_snow [sample_psk 1] (demo_io (sample_psk 2)) = (res, io')" by force
  have "psk_bytes (sample_psk 2) \<noteq> psk_bytes (sample_psk 1)" by (simp add: sample_psk_def)
  with accept_any_first_match [OF demo_snow_builds demo_io_unread _ r] r show ?thesis
    by (simp add: demo_snow_verifies sample_psk_def)
qed

theorem handshake_identifies_holder_witness:
  "fst (accept_any demo_snow (psks (candidates_at sample_set 5)) (demo_io (sample_psk 2)))
     \<noteq> Inl ProcessingMessage1"
proof -
  obtain res io' where
    r: "accept_any demo_snow (psks (candidates_at sample_set 5)) (demo_io (sample_psk 2)) = (res, io')"
    by force
  have one: "\<forall>q. verifies demo_snow (psk_bytes (sample_psk 2)) q \<longleftrightarrow> q = sample_psk 2"
    by (auto simp: demo_snow_verifies psk.expand)
  have "length (psk_bytes (sample_psk 2)) \<le> 65535" by (simp add: sample_psk_def)
  note h = handshake_identifies_holder [OF sample_wf demo_snow_builds one demo_io_unread this r]
  have "\<exists>i. identifies sample_set 5 (sample_psk 2) i"
    by (rule exI [of _ "IsCode (codes sample_set ! 0)"])
      (simp add: identifies_def candidates_ids_iff sample_set_def unexpired_def)
  with h r show ?thesis by auto
qed

end
