(* ===== verification/Hub.thy ===== *)
theory Hub
  imports Tenant_Store Noise_Handshake
begin

text \<open>
  The hub of a multi-tenant \<open>serve\<close> (\<open>reverse/tenant_serve.rs\<close>): the published snapshot of
  tenants, the session of each tenant, the connection budgets and the handshake slots, with the
  operations that each take one lock. Handles to shared objects are numbers: a session's control
  handle and cancellation token are named by the task that made them, a semaphore by its place in a
  heap of semaphores.
\<close>

section \<open>State\<close>

definition MAX_PENDING_HANDSHAKES :: nat where "MAX_PENDING_HANDSHAKES = 256"
definition MAX_PENDING_PER_IP :: nat where "MAX_PENDING_PER_IP = 16"

type_synonym ip = nat

record session =
  sid :: u64
  spsk :: psk
  control :: nat

record hub =
  published :: tenant_set
  sessions :: "string \<rightharpoonup> session"
  next_session :: u64
  budgets :: "string \<rightharpoonup> nat \<times> nat"
  sem_free :: "nat \<Rightarrow> nat"
  sem_next :: nat
  handshakes :: nat
  refused :: u64
  pending_by_ip :: "ip \<rightharpoonup> nat"
  cancelled :: "nat set"

definition hub_new :: "tenant_set \<Rightarrow> hub" where
  "hub_new initial = \<lparr>published = initial, sessions = Map.empty, next_session = 1,
     budgets = Map.empty, sem_free = (\<lambda>_. 0), sem_next = 0, handshakes = MAX_PENDING_HANDSHAKES,
     refused = 0, pending_by_ip = Map.empty, cancelled = {}\<rparr>"

section \<open>Handshake slots\<close>

text \<open>\<open>try_pending\<close>: the global permit first, then the count of the address; the global permit
  goes back when the address is at its limit.\<close>

definition try_pending :: "ip \<Rightarrow> hub \<Rightarrow> bool \<times> hub" where
  "try_pending i h =
     (if handshakes h = 0 then (False, h)
      else
        let n = (case pending_by_ip h i of None \<Rightarrow> 0 | Some n \<Rightarrow> n) in
        if MAX_PENDING_PER_IP \<le> n then (False, h\<lparr>pending_by_ip := (pending_by_ip h)(i \<mapsto> n)\<rparr>)
        else (True, h\<lparr>handshakes := handshakes h - 1, pending_by_ip := (pending_by_ip h)(i \<mapsto> n + 1)\<rparr>))"

text \<open>\<open>Drop for PendingSlot\<close>, then the permit it holds.\<close>

definition drop_pending :: "ip \<Rightarrow> hub \<Rightarrow> hub" where
  "drop_pending i h =
     (case pending_by_ip h i of
        None \<Rightarrow> h
      | Some n \<Rightarrow> h\<lparr>pending_by_ip := (if n - 1 = 0 then (pending_by_ip h)(i := None)
                                      else (pending_by_ip h)(i \<mapsto> n - 1))\<rparr>)
       \<lparr>handshakes := handshakes h + 1\<rparr>"

text \<open>Counting refusals; the first and every thousandth is logged.\<close>

definition refuse :: "hub \<Rightarrow> bool \<times> hub" where
  "refuse h = (let n = refused h in (n = 0 \<or> n mod 1000 = 999, h\<lparr>refused := n + 1\<rparr>))"

section \<open>Connection budgets\<close>

definition budget_entry :: "tenant \<Rightarrow> hub \<Rightarrow> (nat \<times> nat) \<times> hub" where
  "budget_entry t h =
     (case budgets h (tname t) of
        Some (cap, sem) \<Rightarrow>
          if cap = tmax_conns t then ((cap, sem), h)
          else ((tmax_conns t, sem_next h),
                h\<lparr>budgets := (budgets h)(tname t \<mapsto> (tmax_conns t, sem_next h)),
                  sem_free := (sem_free h)(sem_next h := tmax_conns t), sem_next := sem_next h + 1\<rparr>)
      | None \<Rightarrow>
          ((tmax_conns t, sem_next h),
           h\<lparr>budgets := (budgets h)(tname t \<mapsto> (tmax_conns t, sem_next h)),
             sem_free := (sem_free h)(sem_next h := tmax_conns t), sem_next := sem_next h + 1\<rparr>))"

definition try_acquire :: "tenant \<Rightarrow> hub \<Rightarrow> nat option \<times> hub" where
  "try_acquire t h =
     (case budget_entry t h of ((cap, sem), h1) \<Rightarrow>
        if sem_free h1 sem = 0 then (None, h1)
        else (Some sem, h1\<lparr>sem_free := (sem_free h1)(sem := sem_free h1 sem - 1)\<rparr>))"

definition release_slot :: "nat \<Rightarrow> hub \<Rightarrow> hub" where
  "release_slot sem h = h\<lparr>sem_free := (sem_free h)(sem := sem_free h sem + 1)\<rparr>"

section \<open>Sessions\<close>

text \<open>\<open>run_session\<close> before it waits: insert the session, check the snapshot, cancel what it
  replaced. The three parts run without a common lock.\<close>

definition insert_session :: "nat \<Rightarrow> tenant \<Rightarrow> hub \<Rightarrow> u64 \<times> session option \<times> hub" where
  "insert_session task t h =
     (let i = next_session h in
      (i, sessions h (tname t),
       h\<lparr>next_session := i + 1,
         sessions := (sessions h)(tname t \<mapsto> \<lparr>sid = i, spsk = tpsk t, control = task\<rparr>)\<rparr>))"

definition still_allowed :: "tenant_set \<Rightarrow> string \<Rightarrow> psk \<Rightarrow> bool" where
  "still_allowed s n p \<longleftrightarrow>
     (case find_tenant s n of None \<Rightarrow> False | Some t \<Rightarrow> \<not> disabled t \<and> psk_eq (tpsk t) p)"

definition cancel :: "nat \<Rightarrow> hub \<Rightarrow> hub" where
  "cancel task h = h\<lparr>cancelled := insert task (cancelled h)\<rparr>"

definition check_session :: "nat \<Rightarrow> tenant \<Rightarrow> hub \<Rightarrow> hub" where
  "check_session task t h =
     (if still_allowed (published h) (tname t) (tpsk t) then h else cancel task h)"

definition cancel_replaced :: "session option \<Rightarrow> hub \<Rightarrow> hub" where
  "cancel_replaced old h = (case old of None \<Rightarrow> h | Some s \<Rightarrow> cancel (control s) h)"

text \<open>\<open>run_session\<close> after the connection ended.\<close>

definition end_session :: "tenant \<Rightarrow> u64 \<Rightarrow> hub \<Rightarrow> hub" where
  "end_session t i h =
     (case sessions h (tname t) of
        None \<Rightarrow> h
      | Some s \<Rightarrow> if sid s = i then h\<lparr>sessions := (sessions h)(tname t := None)\<rparr> else h)"

section \<open>Applying a new snapshot\<close>

definition publish :: "tenant_set \<Rightarrow> hub \<Rightarrow> hub" where
  "publish next h = h\<lparr>published := next\<rparr>"

definition session_valid :: "tenant_set \<Rightarrow> string \<Rightarrow> session \<Rightarrow> bool" where
  "session_valid next n s = still_allowed next n (spsk s)"

definition sweep :: "tenant_set \<Rightarrow> hub \<Rightarrow> hub" where
  "sweep next h =
     h\<lparr>sessions := (\<lambda>n. case sessions h n of
           None \<Rightarrow> None
         | Some s \<Rightarrow> if session_valid next n s then Some s else None),
       cancelled := cancelled h \<union>
         {control s | n s. sessions h n = Some s \<and> \<not> session_valid next n s}\<rparr>"

definition prune_budgets :: "tenant_set \<Rightarrow> hub \<Rightarrow> hub" where
  "prune_budgets next h =
     h\<lparr>budgets := (\<lambda>n. if find_tenant next n = None then None else budgets h n)\<rparr>"

definition apply_set :: "tenant_set \<Rightarrow> hub \<Rightarrow> hub" where
  "apply_set next h = prune_budgets next (sweep next (publish next h))"

text \<open>One turn of \<open>reload_loop\<close>: what is published, the last error, and whether it is logged.\<close>

definition reload_tick ::
  "tenant_error + tenant_set \<Rightarrow> tenant_error option \<Rightarrow> hub \<Rightarrow> bool \<times> tenant_error option \<times> hub" where
  "reload_tick read last_error h =
     (case read of
        Inr next \<Rightarrow> (False, None, if published h \<noteq> next then apply_set next h else h)
      | Inl e \<Rightarrow> (last_error \<noteq> Some e, if last_error \<noteq> Some e then Some e else last_error, h))"

section \<open>Routing a TLS connection\<close>

datatype route_error = NoSni | NoTenant string | Offline string | AtLimit string nat

text \<open>\<open>handle_sni\<close> up to the relay: tenant, control handle and slot.\<close>

definition route_sni :: "string option \<Rightarrow> hub \<Rightarrow> (route_error + tenant \<times> nat \<times> nat) \<times> hub" where
  "route_sni sni h =
     (case sni of
        None \<Rightarrow> (Inl NoSni, h)
      | Some host \<Rightarrow>
          (case tenant_by_sni (published h) host of
             None \<Rightarrow> (Inl (NoTenant host), h)
           | Some t \<Rightarrow>
               (case sessions h (tname t) of
                  None \<Rightarrow> (Inl (Offline (tname t)), h)
                | Some s \<Rightarrow>
                    (case try_acquire t h of
                       (None, h1) \<Rightarrow> (Inl (AtLimit (tname t) (tmax_conns t)), h1)
                     | (Some sem, h1) \<Rightarrow> (Inr (t, control s, sem), h1)))))"

section \<open>Handshake slots: the counts\<close>

text \<open>The slots in use, as the multiset of their addresses.\<close>

definition slots_ok :: "ip list \<Rightarrow> hub \<Rightarrow> bool" where
  "slots_ok held h \<longleftrightarrow> handshakes h + length held = MAX_PENDING_HANDSHAKES
     \<and> (\<forall>i. pending_by_ip h i = (if count_list held i = 0 then None else Some (count_list held i))
          \<and> count_list held i \<le> MAX_PENDING_PER_IP)"

lemma slots_ok_new: "slots_ok [] (hub_new s)"
  by (simp add: slots_ok_def hub_new_def)

lemma try_pending_granted:
  assumes "slots_ok held h"
  shows "fst (try_pending i h) \<longleftrightarrow>
    length held < MAX_PENDING_HANDSHAKES \<and> count_list held i < MAX_PENDING_PER_IP"
  using assms by (auto simp: try_pending_def slots_ok_def Let_def MAX_PENDING_PER_IP_def)

lemma try_pending_ok:
  assumes "slots_ok held h"
  shows "slots_ok (if fst (try_pending i h) then i # held else held) (snd (try_pending i h))"
proof (cases "handshakes h = 0")
  case True
  with assms show ?thesis by (simp add: try_pending_def)
next
  case False
  show ?thesis
  proof (cases "count_list held i < MAX_PENDING_PER_IP")
    case True
    with False assms show ?thesis
      by (auto simp: try_pending_def slots_ok_def Let_def fun_eq_iff split: option.splits)
  next
    case no: False
    then have "count_list held i \<noteq> 0" by (simp add: MAX_PENDING_PER_IP_def)
    with no False assms have "pending_by_ip h i = Some (count_list held i)"
      by (simp add: slots_ok_def)
    then have "(pending_by_ip h)(i \<mapsto> count_list held i) = pending_by_ip h" by auto
    with no False assms \<open>pending_by_ip h i = _\<close> show ?thesis by (simp add: try_pending_def Let_def)
  qed
qed

lemma drop_pending_ok:
  assumes "slots_ok held h" and "i \<in> set held"
  shows "slots_ok (remove1 i held) (drop_pending i h)"
proof -
  have c: "count_list held i \<noteq> 0" using assms(2) by (simp add: count_list_0_iff)
  have r: "count_list (remove1 i held) j = count_list held j - (if j = i then 1 else 0)" for j
    using assms(2) by (induction held) auto
  have l: "Suc (handshakes h + (length held - Suc 0)) = handshakes h + length held"
    using assms(2) by (cases held) auto
  have "pending_by_ip h i = Some (count_list held i)" using assms c by (simp add: slots_ok_def)
  moreover have "\<forall>j. count_list held j \<le> MAX_PENDING_PER_IP"
    "\<forall>j. pending_by_ip h j = (if count_list held j = 0 then None else Some (count_list held j))"
    using assms(1) by (simp_all add: slots_ok_def)
  ultimately show ?thesis using assms c l
    by (auto simp: drop_pending_def slots_ok_def r length_remove1 le_diff_conv intro: le_trans)
qed

section \<open>Budgets: the counts\<close>

text \<open>\<open>slots\<close> are the semaphores of the relays in progress; every permit that is not free is one
  of them, and the current semaphore of a tenant started with its capacity.\<close>

definition budgets_ok :: "(nat \<Rightarrow> nat) \<Rightarrow> nat list \<Rightarrow> hub \<Rightarrow> bool" where
  "budgets_ok cap slots h \<longleftrightarrow> (\<forall>s < sem_next h. sem_free h s + count_list slots s = cap s)
     \<and> (\<forall>s \<in> set slots. s < sem_next h)
     \<and> (\<forall>n c s. budgets h n = Some (c, s) \<longrightarrow> s < sem_next h \<and> c = cap s)
     \<and> (\<forall>n n' c c' s. budgets h n = Some (c, s) \<and> budgets h n' = Some (c', s) \<longrightarrow> n = n')"

lemma budgets_ok_new: "budgets_ok cap [] (hub_new s)"
  by (simp add: budgets_ok_def hub_new_def)

lemma count_list_fresh: "\<forall>s \<in> set slots. s < (n :: nat) \<Longrightarrow> count_list slots n = 0"
  by (meson count_list_0_iff less_irrefl)

lemma budget_entry_ok:
  assumes "budgets_ok cap slots h" and "budget_entry t h = ((c, sem), h1)"
  shows "c = tmax_conns t \<and> budgets h1 (tname t) = Some (c, sem)
    \<and> (\<exists>cap'. budgets_ok cap' slots h1 \<and> (\<forall>s < sem_next h. cap' s = cap s) \<and> cap' sem = c)"
proof (cases "\<exists>sem0. budgets h (tname t) = Some (tmax_conns t, sem0)")
  case True
  then obtain sem0 where b: "budgets h (tname t) = Some (tmax_conns t, sem0)" by blast
  with assms(2) have e: "c = tmax_conns t" "sem = sem0" "h1 = h" by (auto simp: budget_entry_def)
  with assms(1) b have "cap sem = c" by (auto simp: budgets_ok_def)
  with e b assms(1) show ?thesis by blast
next
  case False
  then have e: "c = tmax_conns t" "sem = sem_next h"
    "h1 = h\<lparr>budgets := (budgets h)(tname t \<mapsto> (tmax_conns t, sem_next h)),
        sem_free := (sem_free h)(sem_next h := tmax_conns t), sem_next := sem_next h + 1\<rparr>"
    using assms(2) by (auto simp: budget_entry_def split: option.splits if_splits)
  have "count_list slots (sem_next h) = 0"
    using assms(1) by (intro count_list_fresh) (simp add: budgets_ok_def)
  moreover have fresh: "budgets h n \<noteq> Some (c', sem_next h)" for n c'
    using assms(1) less_irrefl unfolding budgets_ok_def by blast
  ultimately have "budgets_ok (cap(sem_next h := tmax_conns t)) slots h1"
    using assms(1) by (auto simp: budgets_ok_def e less_Suc_eq)
  then show ?thesis
    by (intro conjI exI [of _ "cap(sem_next h := tmax_conns t)"]) (simp_all add: e)
qed

lemma try_acquire_ok:
  assumes "budgets_ok cap slots h" and "try_acquire t h = (r, h')"
  shows "\<exists>cap' slots'. budgets_ok cap' slots' h'
    \<and> (case r of None \<Rightarrow> slots' = slots | Some sem \<Rightarrow> slots' = sem # slots)
    \<and> (\<exists>sem. budgets h' (tname t) = Some (tmax_conns t, sem) \<and> cap' sem = tmax_conns t
        \<and> (case r of None \<Rightarrow> count_list slots' sem = tmax_conns t
             | Some x \<Rightarrow> x = sem \<and> count_list slots' sem \<le> tmax_conns t))"
proof -
  obtain c sem h1 where b: "budget_entry t h = ((c, sem), h1)" by (cases "budget_entry t h") auto
  from budget_entry_ok [OF assms(1) b] obtain cap' where c: "c = tmax_conns t"
    "budgets h1 (tname t) = Some (c, sem)" "budgets_ok cap' slots h1" "cap' sem = c" by blast
  from c(2,3) have sem: "sem < sem_next h1" by (auto simp: budgets_ok_def)
  with c(3,4) have f: "sem_free h1 sem + count_list slots sem = c" by (auto simp: budgets_ok_def)
  show ?thesis
  proof (cases "sem_free h1 sem = 0")
    case True
    with assms(2) b c f show ?thesis by (auto simp: try_acquire_def)
  next
    case False
    let ?h = "h1\<lparr>sem_free := (sem_free h1)(sem := sem_free h1 sem - 1)\<rparr>"
    from False assms(2) b have e: "r = Some sem" "h' = ?h" by (auto simp: try_acquire_def)
    have "budgets_ok cap' (sem # slots) ?h" using c(3) sem False by (auto simp: budgets_ok_def)
    moreover have "count_list (sem # slots) sem \<le> tmax_conns t" using f False c(1) by simp
    ultimately show ?thesis using e c
      by (intro exI [of _ cap'] exI [of _ "sem # slots"]) simp
  qed
qed

lemma release_slot_ok:
  assumes "budgets_ok cap slots h" and "sem \<in> set slots"
  shows "budgets_ok cap (remove1 sem slots) (release_slot sem h)"
proof -
  have r: "count_list (remove1 sem slots) j = count_list slots j - (if j = sem then 1 else 0)" for j
    using assms(2) by (induction slots) auto
  have "0 < count_list slots sem" using assms(2) by (simp add: count_list_0_iff flip: neq0_conv)
  with assms show ?thesis
    by (auto simp: budgets_ok_def release_slot_def r dest: notin_set_remove1 set_remove1_subset [THEN subsetD])
qed

lemma apply_budgets_ok:
  "budgets_ok cap slots h \<Longrightarrow> budgets_ok cap slots (apply_set next h)"
  by (auto simp: budgets_ok_def apply_set_def prune_budgets_def sweep_def publish_def split: if_splits)

section \<open>Enrollment\<close>

text \<open>\<open>Credentials\<close> of \<open>enroll.rs\<close>; serde_json is the argument \<open>json\<close>.\<close>

record credentials =
  cred_name :: string
  cred_token :: string
  cred_sni :: string

datatype enroll_error = EnrollStore tenant_error | SendingCredentials

text \<open>
  \<open>run_enrollment\<close>: redeem, publish the store's new contents, send the credentials; when sending
  fails, revoke the tenant and publish again. \<open>send\<close> says whether the frame and the shutdown
  went through; the tasks that may not be scheduled are not modelled.
\<close>

definition apply_snapshot :: "tenant_error + tenant_set \<Rightarrow> hub \<Rightarrow> hub" where
  "apply_snapshot r h = (case r of Inl _ \<Rightarrow> h | Inr next \<Rightarrow> apply_set next h)"

definition run_enrollment ::
  "'s replace_fn \<Rightarrow> ('s \<Rightarrow> tenant_error + tenant_set) \<Rightarrow> (byte list \<Rightarrow> byte list)
    \<Rightarrow> (credentials \<Rightarrow> bool) \<Rightarrow> byte list \<Rightarrow> byte list \<Rightarrow> u64 \<Rightarrow> enroll_code \<Rightarrow> 's \<Rightarrow> hub
    \<Rightarrow> (enroll_error + credentials) \<times> 's \<times> hub" where
  "run_enrollment rep snap sha256 send rnd6 rnd32 now code st h =
     (let name = new_tenant_name rnd6; token = new_token rnd32; key = derive_psk sha256 token in
      case store_redeem rep (cpsk code) now name key st of
        (Inl e, st1) \<Rightarrow> (Inl (EnrollStore e), st1, h)
      | (Inr created, st1) \<Rightarrow>
          let h1 = apply_snapshot (snap st1) h;
              cred = \<lparr>cred_name = name, cred_token = token, cred_sni = tsni created\<rparr> in
          if send cred then (Inr cred, st1, h1)
          else (case revoke rep (tname created) st1 of
                  (Inl _, st2) \<Rightarrow> (Inl SendingCredentials, st2, h1)
                | (Inr _, st2) \<Rightarrow> (Inl SendingCredentials, st2, apply_snapshot (snap st2) h1)))"

lemma memory_redeem:
  "store_redeem memory_replace_with p now n k st =
     (case redeem st p now n k of Inl e \<Rightarrow> (Inl e, st) | Inr (s', t) \<Rightarrow> (Inr t, s'))"
  by (auto simp: store_redeem_def memory_replace_with_def redeem_edit_def split: sum.splits prod.splits)

lemma memory_revoke:
  "revoke memory_replace_with n st =
     (case without_tenant st n of Inl e \<Rightarrow> (Inl e, st) | Inr s' \<Rightarrow> (Inr (), s'))"
  by (auto simp: revoke_def replace_drop_def memory_replace_with_def plain_edit_def split: sum.splits)

lemma apply_set_published [simp]: "published (apply_set next h) = next"
  by (simp add: apply_set_def prune_budgets_def sweep_def publish_def)

lemma apply_set_sessions:
  "sessions (apply_set next h) n =
     (case sessions h n of None \<Rightarrow> None | Some s \<Rightarrow> if session_valid next n s then Some s else None)"
  by (simp add: apply_set_def prune_budgets_def sweep_def publish_def)

text \<open>Revoking the tenant that a redemption just created leaves the tenants as they were.\<close>

lemma redeem_then_revoke:
  assumes "redeem s p now n k = Inr (s1, t)"
  shows "find_tenant s1 n = Some t \<and> wf_set s1 \<and> tname t = n
    \<and> without_tenant s1 n = Inr \<lparr>tenants = tenants s, codes = codes s1\<rparr>"
proof -
  from assms have t: "tname t = n" "tenants s1 = tenants s @ [t]" "wf_set s1"
    by (auto simp: redeem_iff)
  have f: "find_tenant s1 n = Some t" using t by (simp add: find_tenant_iff)
  have "n \<notin> tname ` set (tenants s)" using t by (auto simp: wf_set_def)
  then have "\<forall>u \<in> set (tenants s). tname u \<noteq> n" by (metis imageI)
  then have "filter (\<lambda>t. tname t \<noteq> n) (tenants s1) = tenants s" using t by simp
  with without_tenant_eq [OF t(3), of n] f t show ?thesis by simp
qed

section \<open>Histories of slot operations\<close>

datatype slot_op = Arrive ip | Leave ip

fun run_slots :: "slot_op list \<Rightarrow> hub \<times> ip list \<Rightarrow> hub \<times> ip list" where
  "run_slots [] st = st"
| "run_slots (Arrive i # ops) (h, held) =
     (case try_pending i h of (ok, h') \<Rightarrow> run_slots ops (h', if ok then i # held else held))"
| "run_slots (Leave i # ops) (h, held) =
     (if i \<in> set held then run_slots ops (drop_pending i h, remove1 i held)
      else run_slots ops (h, held))"

lemma run_slots_ok:
  "slots_ok held h \<Longrightarrow> run_slots ops (h, held) = (h', held') \<Longrightarrow> slots_ok held' h'"
proof (induction ops arbitrary: h held)
  case (Cons x ops)
  show ?case
  proof (cases x)
    case (Arrive i)
    with Cons try_pending_ok [of held h i] show ?thesis
      by (cases "try_pending i h") (auto split: if_splits)
  next
    case (Leave i)
    with Cons drop_pending_ok [of held h i] show ?thesis by (auto split: if_splits)
  qed
qed simp

datatype budget_op = Open tenant | Close nat | Reload tenant_set

fun run_budgets :: "budget_op list \<Rightarrow> hub \<times> nat list \<Rightarrow> hub \<times> nat list" where
  "run_budgets [] st = st"
| "run_budgets (Open t # ops) (h, slots) =
     (case try_acquire t h of
        (None, h') \<Rightarrow> run_budgets ops (h', slots)
      | (Some sem, h') \<Rightarrow> run_budgets ops (h', sem # slots))"
| "run_budgets (Close sem # ops) (h, slots) =
     (if sem \<in> set slots then run_budgets ops (release_slot sem h, remove1 sem slots)
      else run_budgets ops (h, slots))"
| "run_budgets (Reload next # ops) (h, slots) = run_budgets ops (apply_set next h, slots)"

lemma run_budgets_ok:
  "budgets_ok cap slots h \<Longrightarrow> run_budgets ops (h, slots) = (h', slots') \<Longrightarrow> \<exists>cap'. budgets_ok cap' slots' h'"
proof (induction ops arbitrary: h slots cap)
  case (Cons x ops)
  show ?case
  proof (cases x)
    case (Open t)
    obtain r h1 where a: "try_acquire t h = (r, h1)" by force
    from try_acquire_ok [OF Cons.prems(1) a] obtain cap' slots1 where
      s: "budgets_ok cap' slots1 h1" "case r of None \<Rightarrow> slots1 = slots | Some sem \<Rightarrow> slots1 = sem # slots"
      by blast
    from s(2) Open a Cons.prems(2) have "run_budgets ops (h1, slots1) = (h', slots')"
      by (cases r) auto
    with Cons.IH [OF s(1)] show ?thesis by blast
  next
    case (Close sem)
    with Cons release_slot_ok [of cap slots h sem] show ?thesis by (auto split: if_splits)
  next
    case (Reload "next")
    with Cons apply_budgets_ok [of cap slots h "next"] show ?thesis by auto
  qed
qed auto

section \<open>Properties\<close>

text \<open>However control connections arrive, authenticate and give up, at most 256 hold a handshake
  slot and at most 16 of one address, and a connection is refused exactly when one of the two limits
  is reached: no slot is ever leaked or granted twice.\<close>

theorem handshake_slots_bounded:
  assumes "run_slots ops (hub_new s, []) = (h, held)"
  shows "length held \<le> 256 \<and> count_list held i \<le> 16
    \<and> (fst (try_pending i h) \<longleftrightarrow> length held < 256 \<and> count_list held i < 16)"
  using run_slots_ok [OF slots_ok_new assms] try_pending_granted [of held h i]
  by (auto simp: slots_ok_def MAX_PENDING_HANDSHAKES_def MAX_PENDING_PER_IP_def)

theorem handshake_slots_bounded_witness:
  "fst (try_pending 7 (fst (run_slots (replicate 2 (Arrive 7) @ [Leave 7]) (hub_new empty_set, []))))"
proof -
  obtain h held where r: "run_slots (replicate 2 (Arrive 7) @ [Leave 7]) (hub_new empty_set, []) = (h, held)"
    by force
  have "held = [7]"
    using r by (simp add: numeral_eq_Suc try_pending_def hub_new_def MAX_PENDING_HANDSHAKES_def
        MAX_PENDING_PER_IP_def)
  with handshake_slots_bounded [OF r, of 7] r show ?thesis by simp
qed

text \<open>C35: A tenant's connections stay within its limit: whenever a connection is admitted, the
  tenant's current budget has at most max_conns open connections, a connection is refused only
  when exactly max_conns are open, and no other tenant's budget shares its slots.\<close>

theorem connection_budget:
  assumes "run_budgets ops (hub_new s, []) = (h, slots)" and "try_acquire t h = (r, h')"
  shows "\<exists>sem. budgets h' (tname t) = Some (tmax_conns t, sem)
    \<and> (\<forall>n c. n \<noteq> tname t \<longrightarrow> budgets h' n \<noteq> Some (c, sem))
    \<and> (case r of
         None \<Rightarrow> count_list slots sem = tmax_conns t
       | Some x \<Rightarrow> x = sem \<and> count_list (sem # slots) sem \<le> tmax_conns t)"
proof -
  from run_budgets_ok [OF budgets_ok_new assms(1)] obtain cap where "budgets_ok cap slots h" by blast
  from try_acquire_ok [OF this assms(2)] obtain cap' slots' sem where b: "budgets_ok cap' slots' h'"
    and s: "case r of None \<Rightarrow> slots' = slots | Some sem \<Rightarrow> slots' = sem # slots"
    and e: "budgets h' (tname t) = Some (tmax_conns t, sem)"
      "case r of None \<Rightarrow> count_list slots' sem = tmax_conns t
             | Some x \<Rightarrow> x = sem \<and> count_list slots' sem \<le> tmax_conns t"
    by blast
  have "budgets h' n \<noteq> Some (c, sem)" if "n \<noteq> tname t" for n c
    using b e(1) that unfolding budgets_ok_def by blast
  with s e show ?thesis by (intro exI [of _ sem]) (auto split: option.splits)
qed

theorem connection_budget_witness:
  "fst (try_acquire (sample_tenant ''a'' (sample_psk 1) ''a.example'')
     (fst (run_budgets (replicate 2 (Open (sample_tenant ''a'' (sample_psk 1) ''a.example'')))
       (hub_new empty_set, [])))) \<noteq> Some 1"
proof -
  let ?t = "sample_tenant ''a'' (sample_psk 1) ''a.example''"
  obtain h slots where r: "run_budgets (replicate 2 (Open ?t)) (hub_new empty_set, []) = (h, slots)"
    by force
  have b: "budgets h = [''a'' \<mapsto> (2, 0)]" using r
    by (auto simp: numeral_eq_Suc try_acquire_def budget_entry_def hub_new_def sample_tenant_def)
  obtain q h' where a: "try_acquire ?t h = (q, h')" by force
  have "budgets h' = [''a'' \<mapsto> (2, 0)]" using a b
    by (auto simp: try_acquire_def budget_entry_def sample_tenant_def split: if_splits)
  with connection_budget [OF r a] r a show ?thesis
    by (auto simp: sample_tenant_def split: option.splits)
qed


end
