(* ===== verification/Hub_System.thy ===== *)
theory Hub_System
  imports Hub
begin

text \<open>
  The tasks of a multi-tenant \<open>serve\<close> running side by side (\<open>reverse/tenant_serve.rs\<close>):
  control connections, TLS connections routed by SNI, and any number of tasks that apply a new
  snapshot (the reload loop and enrollments). One step is one critical section of the code, so
  every interleaving of the code's tasks is a path of \<open>hstep\<close>.
\<close>

section \<open>Tasks\<close>

text \<open>
  \<open>started\<close> and \<open>auth_as\<close> are ghosts: the number of sessions inserted, and the tenant that
  each control connection authenticated as.
  \<open>Authed t\<close>: the handshake identified tenant \<open>t\<close>, the session is not inserted yet.
  \<open>Inserted t i old\<close>: inserted, before the check of the snapshot. \<open>Checked t i old\<close>: before the
  replaced session is cancelled. \<open>Running t i\<close>: waiting for the connection to end.
  \<open>Routed t\<close> and \<open>Linked t c\<close>: a TLS connection whose tenant, then control handle, is
  known. \<open>Relaying t c sem\<close>: relaying through the mux of control connection \<open>c\<close>.
\<close>

datatype task = Fresh | Handshaking ip candidates | Authed tenant
  | Inserted tenant u64 "session option" | Checked tenant u64 "session option" | Running tenant u64
  | Routed tenant | Linked tenant nat | Relaying tenant nat nat | Done

datatype applier = Ready_To_Apply | Sweeping tenant_set | Pruning tenant_set

record system =
  hub_of :: hub
  tasks :: "nat \<Rightarrow> task"
  appliers :: "nat \<Rightarrow> applier"
  started :: nat
  auth_as :: "nat \<rightharpoonup> tenant"

definition set_task :: "nat \<Rightarrow> task \<Rightarrow> hub \<Rightarrow> system \<Rightarrow> system" where
  "set_task i k h s = s\<lparr>hub_of := h, tasks := (tasks s)(i := k)\<rparr>"

definition system_start :: "tenant_set \<Rightarrow> system" where
  "system_start initial = \<lparr>hub_of = hub_new initial, tasks = (\<lambda>_. Fresh),
     appliers = (\<lambda>_. Ready_To_Apply), started = 0, auth_as = Map.empty\<rparr>"

inductive hstep :: "system \<Rightarrow> system \<Rightarrow> bool" where
  accepted: "tasks s i = Fresh \<Longrightarrow> try_pending a (hub_of s) = (True, h) \<Longrightarrow>
    hstep s (set_task i (Handshaking a (candidates_at (published h) now)) h s)"
| turned_away: "tasks s i = Fresh \<Longrightarrow> try_pending a (hub_of s) = (False, h) \<Longrightarrow>
    hstep s (set_task i Done (snd (refuse h)) s)"
| authenticated: "tasks s i = Handshaking a c \<Longrightarrow> k < length (psks c) \<Longrightarrow> ids c ! k = IsTenant t \<Longrightarrow>
    hstep s ((set_task i (Authed t) (drop_pending a (hub_of s)) s)\<lparr>auth_as := (auth_as s)(i \<mapsto> t)\<rparr>)"
| left: "tasks s i = Handshaking a c \<Longrightarrow> hstep s (set_task i Done (drop_pending a (hub_of s)) s)"
| inserts: "tasks s i = Authed t \<Longrightarrow> insert_session i t (hub_of s) = (n, old, h) \<Longrightarrow>
    hstep s ((set_task i (Inserted t n old) h s)\<lparr>started := started s + 1\<rparr>)"
| checks: "tasks s i = Inserted t n old \<Longrightarrow>
    hstep s (set_task i (Checked t n old) (check_session i t (hub_of s)) s)"
| evicts: "tasks s i = Checked t n old \<Longrightarrow>
    hstep s (set_task i (Running t n) (cancel_replaced old (hub_of s)) s)"
| ends: "tasks s i = Running t n \<Longrightarrow> hstep s (set_task i Done (end_session t n (hub_of s)) s)"
| routes: "tasks s i = Fresh \<Longrightarrow> tenant_by_sni (published (hub_of s)) host = Some t \<Longrightarrow>
    hstep s (set_task i (Routed t) (hub_of s) s)"
| links: "tasks s i = Routed t \<Longrightarrow> sessions (hub_of s) (tname t) = Some q \<Longrightarrow>
    hstep s (set_task i (Linked t (control q)) (hub_of s) s)"
| offline: "tasks s i = Routed t \<Longrightarrow> sessions (hub_of s) (tname t) = None \<Longrightarrow>
    hstep s (set_task i Done (hub_of s) s)"
| admits: "tasks s i = Linked t c \<Longrightarrow> try_acquire t (hub_of s) = (Some sem, h) \<Longrightarrow>
    hstep s (set_task i (Relaying t c sem) h s)"
| limits: "tasks s i = Linked t c \<Longrightarrow> try_acquire t (hub_of s) = (None, h) \<Longrightarrow>
    hstep s (set_task i Done h s)"
| relayed: "tasks s i = Relaying t c sem \<Longrightarrow>
    hstep s (set_task i Done (release_slot sem (hub_of s)) s)"
| publishes: "appliers s a = Ready_To_Apply \<Longrightarrow> wf_set next \<Longrightarrow>
    hstep s (s\<lparr>hub_of := publish next (hub_of s), appliers := (appliers s)(a := Sweeping next)\<rparr>)"
| sweeps: "appliers s a = Sweeping next \<Longrightarrow>
    hstep s (s\<lparr>hub_of := sweep next (hub_of s), appliers := (appliers s)(a := Pruning next)\<rparr>)"
| prunes: "appliers s a = Pruning next \<Longrightarrow>
    hstep s (s\<lparr>hub_of := prune_budgets next (hub_of s), appliers := (appliers s)(a := Ready_To_Apply)\<rparr>)"

inductive_cases hstepE: "hstep s s'"

abbreviation hreach :: "tenant_set \<Rightarrow> system \<Rightarrow> bool" where
  "hreach initial \<equiv> hstep\<^sup>*\<^sup>* (system_start initial)"

section \<open>What stays true\<close>

text \<open>The tenant and the number of a task's session, and the session it is about to cancel.\<close>

fun session_of :: "task \<Rightarrow> (tenant \<times> u64) option" where
  "session_of (Inserted t n old) = Some (t, n)"
| "session_of (Checked t n old) = Some (t, n)"
| "session_of (Running t n) = Some (t, n)"
| "session_of _ = None"

fun evicting :: "task \<Rightarrow> nat option" where
  "evicting (Inserted t n (Some old)) = Some (control old)"
| "evicting (Checked t n (Some old)) = Some (control old)"
| "evicting _ = None"

fun is_checked :: "task \<Rightarrow> bool" where
  "is_checked (Checked t n old) = True"
| "is_checked (Running t n) = True"
| "is_checked _ = False"

fun went_live :: "task \<Rightarrow> bool" where
  "went_live Done = True"
| "went_live k = (session_of k \<noteq> None)"

text \<open>A session in the map belongs to the task that made it.\<close>

definition entries_ok :: "system \<Rightarrow> bool" where
  "entries_ok s \<longleftrightarrow> (\<forall>n q. sessions (hub_of s) n = Some q \<longrightarrow>
     (\<exists>t. session_of (tasks s (control q)) = Some (t, sid q) \<and> tname t = n \<and> tpsk t = spsk q))"

text \<open>Session numbers are handed out once.\<close>

definition numbers_ok :: "system \<Rightarrow> bool" where
  "numbers_ok s \<longleftrightarrow> unat (next_session (hub_of s)) = started s + 1
     \<and> (\<forall>i t n. session_of (tasks s i) = Some (t, n) \<longrightarrow> unat n \<le> started s)
     \<and> (\<forall>i j t u n. session_of (tasks s i) = Some (t, n) \<and> session_of (tasks s j) = Some (u, n) \<longrightarrow> i = j)"

text \<open>A session that is not in the map any more is cancelled, or about to be.\<close>

definition displaced_ok :: "system \<Rightarrow> bool" where
  "displaced_ok s \<longleftrightarrow> (\<forall>i t n. session_of (tasks s i) = Some (t, n) \<longrightarrow>
     sessions (hub_of s) (tname t) = Some \<lparr>sid = n, spsk = tpsk t, control = i\<rparr>
     \<or> i \<in> cancelled (hub_of s) \<or> (\<exists>j. evicting (tasks s j) = Some i))"

text \<open>A checked session is allowed, cancelled, about to be, or the sweep of what is published is
  still to come.\<close>

definition allowed_ok :: "system \<Rightarrow> bool" where
  "allowed_ok s \<longleftrightarrow> (\<forall>i t n. session_of (tasks s i) = Some (t, n) \<and> is_checked (tasks s i) \<longrightarrow>
     still_allowed (published (hub_of s)) (tname t) (tpsk t)
     \<or> i \<in> cancelled (hub_of s) \<or> (\<exists>j. evicting (tasks s j) = Some i)
     \<or> (\<exists>a. appliers s a = Sweeping (published (hub_of s))))"

definition system_inv :: "system \<Rightarrow> bool" where
  "system_inv s \<longleftrightarrow> numbers_ok s \<and> entries_ok s \<and> displaced_ok s \<and> allowed_ok s"

lemma system_inv_start: "system_inv (system_start initial)"
  by (simp add: system_inv_def numbers_ok_def entries_ok_def displaced_ok_def allowed_ok_def
      system_start_def hub_new_def)

text \<open>The parts of the hub that the other operations leave alone.\<close>

lemma quiet_ops:
  "try_pending a h = (b, h1) \<Longrightarrow> sessions h1 = sessions h \<and> published h1 = published h
     \<and> cancelled h1 = cancelled h \<and> next_session h1 = next_session h"
  "try_acquire t h = (r, h1) \<Longrightarrow> sessions h1 = sessions h \<and> published h1 = published h
     \<and> cancelled h1 = cancelled h \<and> next_session h1 = next_session h"
  by (auto simp: try_pending_def try_acquire_def budget_entry_def Let_def
      split: if_splits option.splits prod.splits)

lemma quiet_updates:
  "sessions (drop_pending a h) = sessions h" "published (drop_pending a h) = published h"
  "cancelled (drop_pending a h) = cancelled h" "next_session (drop_pending a h) = next_session h"
  "sessions (snd (refuse h)) = sessions h" "published (snd (refuse h)) = published h"
  "cancelled (snd (refuse h)) = cancelled h" "next_session (snd (refuse h)) = next_session h"
  "sessions (release_slot sem h) = sessions h" "published (release_slot sem h) = published h"
  "cancelled (release_slot sem h) = cancelled h" "next_session (release_slot sem h) = next_session h"
  "sessions (prune_budgets next h) = sessions h" "published (prune_budgets next h) = published h"
  "cancelled (prune_budgets next h) = cancelled h" "next_session (prune_budgets next h) = next_session h"
  by (auto simp: drop_pending_def refuse_def release_slot_def prune_budgets_def Let_def split: option.split)

text \<open>A task without a session moves to another state without one.\<close>

lemma system_inv_ghost [simp]: "system_inv (s\<lparr>auth_as := m\<rparr>) = system_inv s"
  by (simp add: system_inv_def numbers_ok_def entries_ok_def displaced_ok_def allowed_ok_def)

lemma system_inv_quiet:
  assumes "system_inv s"
    and "sessions h = sessions (hub_of s)" "published h = published (hub_of s)"
      "cancelled h = cancelled (hub_of s)" "next_session h = next_session (hub_of s)"
    and "session_of (tasks s i) = None" and "session_of k = None"
    and "evicting (tasks s i) = None"
  shows "system_inv (set_task i k h s)"
proof -
  have t: "session_of (tasks (set_task i k h s) j) = session_of (tasks s j)" for j
    using assms(6,7) by (simp add: set_task_def)
  have c: "session_of (tasks s j) \<noteq> None \<Longrightarrow> tasks (set_task i k h s) j = tasks s j" for j
    using assms(6) by (auto simp: set_task_def)
  have e: "evicting (tasks s j) = Some m \<Longrightarrow> evicting (tasks (set_task i k h s) j) = Some m" for j m
    using assms(8) by (auto simp: set_task_def)
  have h: "hub_of (set_task i k h s) = h" "appliers (set_task i k h s) = appliers s"
    "started (set_task i k h s) = started s" by (simp_all add: set_task_def)
  have "numbers_ok (set_task i k h s)" using assms(1,5) unfolding numbers_ok_def system_inv_def t h by simp
  moreover have "entries_ok (set_task i k h s)"
    using assms(1,2) unfolding entries_ok_def system_inv_def t h by simp
  moreover have "displaced_ok (set_task i k h s)"
    using assms(1,2,4) e unfolding displaced_ok_def system_inv_def t h by metis
  moreover have "allowed_ok (set_task i k h s)"
    using assms(1,3,4) e c unfolding allowed_ok_def system_inv_def t h
    by (metis option.distinct(1))
  ultimately show ?thesis by (simp add: system_inv_def)
qed

text \<open>Inserting.\<close>

lemma unat_next_number:
  assumes "unat (n :: u64) < 2 ^ 64 - 1"
  shows "unat (n + 1) = unat n + 1"
proof -
  have "unat (n + 1) = (unat n + 1) mod 2 ^ 64" by (simp add: unat_word_ariths)
  with assms show ?thesis by simp
qed

lemma system_inv_inserts:
  assumes "system_inv s" and "tasks s i = Authed t" and "insert_session i t (hub_of s) = (n, old, h)"
    and "started s + 1 < 2 ^ 64 - 1"
  shows "system_inv ((set_task i (Inserted t n old) h s)\<lparr>started := started s + 1\<rparr>)"
    (is "system_inv ?s")
proof -
  define s' where "s' = ?s"
  have h: "n = next_session (hub_of s)" "old = sessions (hub_of s) (tname t)"
    "sessions h = (sessions (hub_of s))(tname t \<mapsto> \<lparr>sid = n, spsk = tpsk t, control = i\<rparr>)"
    "next_session h = next_session (hub_of s) + 1" "published h = published (hub_of s)"
    "cancelled h = cancelled (hub_of s)"
    using assms(3) by (auto simp: insert_session_def Let_def)
  have tk: "tasks s' = (tasks s)(i := Inserted t n old)" "hub_of s' = h" "appliers s' = appliers s"
    "started s' = started s + 1" by (simp_all add: s'_def set_task_def)
  have num: "numbers_ok s" and ent: "entries_ok s" and dis: "displaced_ok s" and alw: "allowed_ok s"
    using assms(1) by (simp_all add: system_inv_def)
  have nn: "unat n = started s + 1" using num h(1) by (simp add: numbers_ok_def)
  have le: "unat m \<le> started s" if "session_of (tasks s j) = Some (u, m)" for j u m
    using num that by (auto simp: numbers_ok_def)
  have nx: "unat (next_session h) = started s + 2"
    using unat_next_number [of n] nn assms(4) h(1,4) by simp
  have "numbers_ok s'"
    unfolding numbers_ok_def tk
  proof (intro conjI allI impI)
    show "unat (next_session h) = started s + 1 + 1" using nx by simp
    show "unat m \<le> started s + 1" if "session_of (((tasks s)(i := Inserted t n old)) j) = Some (u, m)" for j u m
      using that le [of j u m] nn by (auto split: if_splits)
    show "j = k" if "session_of (((tasks s)(i := Inserted t n old)) j) = Some (u, m)
        \<and> session_of (((tasks s)(i := Inserted t n old)) k) = Some (v, m)" for j k u v m
    proof -
      have fresh: "session_of (tasks s l) \<noteq> Some (w, n)" for l w using le [of l w n] nn by auto
      have "session_of (tasks s j) = Some (u, m) \<Longrightarrow> session_of (tasks s k) = Some (v, m) \<Longrightarrow> j = k"
        using num unfolding numbers_ok_def by blast
      with that fresh show ?thesis by (auto split: if_splits)
    qed
  qed
  moreover have "entries_ok s'"
    unfolding entries_ok_def tk(1,2)
  proof (intro allI impI)
    fix m q assume q: "sessions h m = Some q"
    show "\<exists>u. session_of (((tasks s)(i := Inserted t n old)) (control q)) = Some (u, sid q)
        \<and> tname u = m \<and> tpsk u = spsk q"
    proof (cases "m = tname t")
      case True
      with q show ?thesis by (auto simp: h(3))
    next
      case False
      with q have "sessions (hub_of s) m = Some q" by (simp add: h(3))
      with ent obtain u where u: "session_of (tasks s (control q)) = Some (u, sid q)"
        "tname u = m" "tpsk u = spsk q" unfolding entries_ok_def by blast
      then have "control q \<noteq> i" using assms(2) by auto
      with u show ?thesis by simp
    qed
  qed
  moreover have "displaced_ok s'"
    unfolding displaced_ok_def
  proof (intro allI impI)
    fix j u m assume j: "session_of (tasks s' j) = Some (u, m)"
    show "sessions (hub_of s') (tname u) = Some \<lparr>sid = m, spsk = tpsk u, control = j\<rparr>
      \<or> j \<in> cancelled (hub_of s') \<or> (\<exists>l. evicting (tasks s' l) = Some j)"
    proof (cases "j = i")
      case True
      with j show ?thesis by (simp add: tk h)
    next
      case False
      with j have "session_of (tasks s j) = Some (u, m)" by (simp add: tk)
      with dis consider "sessions (hub_of s) (tname u) = Some \<lparr>sid = m, spsk = tpsk u, control = j\<rparr>"
        | "j \<in> cancelled (hub_of s)" | l where "evicting (tasks s l) = Some j"
        unfolding displaced_ok_def by blast
      then show ?thesis
      proof cases
        case 1
        show ?thesis
        proof (cases "tname u = tname t")
          case True
          with 1 h(2) have "evicting (tasks s' i) = Some j" by (simp add: tk)
          then show ?thesis by blast
        next
          case False
          with 1 show ?thesis by (simp add: tk h)
        qed
      next
        case 2
        then show ?thesis by (simp add: tk h)
      next
        case 3
        then have "l \<noteq> i" using assms(2) by auto
        with 3 show ?thesis by (auto simp: tk intro!: exI [of _ l])
      qed
    qed
  qed
  moreover have "allowed_ok s'"
    unfolding allowed_ok_def
  proof (intro allI impI)
    fix j u m assume j: "session_of (tasks s' j) = Some (u, m) \<and> is_checked (tasks s' j)"
    then have "j \<noteq> i" by (auto simp: tk)
    with j have "session_of (tasks s j) = Some (u, m) \<and> is_checked (tasks s j)" by (simp add: tk)
    with alw have "still_allowed (published (hub_of s)) (tname u) (tpsk u)
       \<or> j \<in> cancelled (hub_of s) \<or> (\<exists>l. evicting (tasks s l) = Some j)
       \<or> (\<exists>a. appliers s a = Sweeping (published (hub_of s)))"
      unfolding allowed_ok_def by blast
    moreover have "evicting (tasks s l) = Some j \<Longrightarrow> evicting (tasks s' l) = Some j" for l
      using assms(2) by (auto simp: tk)
    ultimately show "still_allowed (published (hub_of s')) (tname u) (tpsk u)
       \<or> j \<in> cancelled (hub_of s') \<or> (\<exists>l. evicting (tasks s' l) = Some j)
       \<or> (\<exists>a. appliers s' a = Sweeping (published (hub_of s')))"
      unfolding tk(2,3) h(5,6) by blast
  qed
  ultimately have "system_inv s'" by (simp add: system_inv_def)
  then show ?thesis by (simp only: s'_def)
qed

text \<open>A session's own steps after it was inserted: the hub only gains cancellations.\<close>

lemma system_inv_progress:
  assumes "system_inv s" and "session_of (tasks s i) = Some (t, n)" and "session_of k = Some (t, n)"
    and "sessions h = sessions (hub_of s)" "published h = published (hub_of s)"
      "next_session h = next_session (hub_of s)" "cancelled (hub_of s) \<subseteq> cancelled h"
    and evict: "\<And>j. evicting (tasks s i) = Some j \<Longrightarrow> evicting k = Some j \<or> j \<in> cancelled h"
    and check: "is_checked k \<Longrightarrow> is_checked (tasks s i)
      \<or> still_allowed (published h) (tname t) (tpsk t) \<or> i \<in> cancelled h"
  shows "system_inv (set_task i k h s)"
proof -
  let ?s = "set_task i k h s"
  have tk: "tasks ?s = (tasks s)(i := k)" "hub_of ?s = h" "appliers ?s = appliers s"
    "started ?s = started s" by (simp_all add: set_task_def)
  have so: "session_of (tasks ?s j) = session_of (tasks s j)" for j
    using assms(2,3) by (simp add: tk)
  have ev: "(\<exists>l. evicting (tasks s l) = Some j) \<Longrightarrow> (\<exists>l. evicting (tasks ?s l) = Some j) \<or> j \<in> cancelled h" for j
  proof -
    assume "\<exists>l. evicting (tasks s l) = Some j"
    then obtain l where l: "evicting (tasks s l) = Some j" by blast
    show ?thesis
    proof (cases "l = i")
      case True
      with l evict have "evicting k = Some j \<or> j \<in> cancelled h" by blast
      then show ?thesis by (auto simp: tk intro: exI [of _ i])
    next
      case False
      with l have "evicting (tasks ?s l) = Some j" by (simp add: tk)
      then show ?thesis by blast
    qed
  qed
  have "numbers_ok ?s" using assms(1,6) unfolding numbers_ok_def system_inv_def so tk(2,4) by simp
  moreover have "entries_ok ?s" using assms(1,4) unfolding entries_ok_def system_inv_def so tk(2) by simp
  moreover have "displaced_ok ?s"
    unfolding displaced_ok_def so tk(2) assms(4)
    using assms(1,7) ev unfolding displaced_ok_def system_inv_def by blast
  moreover have "allowed_ok ?s"
    unfolding allowed_ok_def so
  proof (intro allI impI)
    fix j u m assume j: "session_of (tasks s j) = Some (u, m) \<and> is_checked (tasks ?s j)"
    show "still_allowed (published (hub_of ?s)) (tname u) (tpsk u)
       \<or> j \<in> cancelled (hub_of ?s) \<or> (\<exists>l. evicting (tasks ?s l) = Some j)
       \<or> (\<exists>a. appliers ?s a = Sweeping (published (hub_of ?s)))"
    proof (cases "is_checked (tasks s j)")
      case True
      with j assms(1) have "still_allowed (published (hub_of s)) (tname u) (tpsk u)
         \<or> j \<in> cancelled (hub_of s) \<or> (\<exists>l. evicting (tasks s l) = Some j)
         \<or> (\<exists>a. appliers s a = Sweeping (published (hub_of s)))"
        unfolding system_inv_def allowed_ok_def by blast
      with ev [of j] assms(5,7) show ?thesis unfolding tk(2,3) by auto
    next
      case False
      with j have ji: "j = i" "is_checked k" by (auto simp: tk split: if_splits)
      with j assms(2) have "u = t" by simp
      with check [OF ji(2)] False ji(1) show ?thesis unfolding tk(2) by blast
    qed
  qed
  ultimately show ?thesis by (simp add: system_inv_def)
qed

text \<open>The end of a connection takes its session out of the map only when it is still there.\<close>

lemma system_inv_ends:
  assumes "system_inv s" and "tasks s i = Running t n"
  shows "system_inv (set_task i Done (end_session t n (hub_of s)) s)"
    (is "system_inv ?s")
proof -
  let ?h = "end_session t n (hub_of s)"
  have tk: "tasks ?s = (tasks s)(i := Done)" "hub_of ?s = ?h" "appliers ?s = appliers s"
    "started ?s = started s" by (simp_all add: set_task_def)
  have h: "published ?h = published (hub_of s)" "cancelled ?h = cancelled (hub_of s)"
    "next_session ?h = next_session (hub_of s)"
    by (auto simp: end_session_def split: option.split)
  have num: "numbers_ok s" and ent: "entries_ok s" and dis: "displaced_ok s" and alw: "allowed_ok s"
    using assms(1) by (simp_all add: system_inv_def)
  have mine: "session_of (tasks s i) = Some (t, n)" using assms(2) by simp
  have uniq: "session_of (tasks s j) = Some (u, n) \<Longrightarrow> j = i" for j u
    using num mine unfolding numbers_ok_def by blast
  have kept: "sessions ?h m = (if m = tname t \<and> (\<exists>q. sessions (hub_of s) m = Some q \<and> sid q = n) then None
      else sessions (hub_of s) m)" for m
    by (auto simp: end_session_def split: option.split)
  have so: "session_of (tasks ?s j) = (if j = i then None else session_of (tasks s j))" for j
    by (simp add: tk)
  have ev: "evicting (tasks s l) = Some j \<Longrightarrow> evicting (tasks ?s l) = Some j" for l j
    using assms(2) by (auto simp: tk)
  have "numbers_ok ?s" using num unfolding numbers_ok_def so tk(2,4) h by auto
  moreover have "entries_ok ?s"
    unfolding entries_ok_def so tk(2)
  proof (intro allI impI)
    fix m q assume "sessions ?h m = Some q"
    then have q: "sessions (hub_of s) m = Some q" "\<not> (m = tname t \<and> sid q = n)"
      by (auto simp: kept split: if_splits)
    from ent q(1) obtain u where u: "session_of (tasks s (control q)) = Some (u, sid q)"
      "tname u = m" "tpsk u = spsk q" unfolding entries_ok_def by blast
    have "control q \<noteq> i"
    proof
      assume "control q = i"
      with u mine have "u = t" "sid q = n" by simp_all
      with q(2) u(2) show False by simp
    qed
    with u show "\<exists>t. (if control q = i then None else session_of (tasks s (control q))) = Some (t, sid q)
        \<and> tname t = m \<and> tpsk t = spsk q" by simp
  qed
  moreover have "displaced_ok ?s"
    unfolding displaced_ok_def so tk(2) h
  proof (intro allI impI)
    fix j u m assume "(if j = i then None else session_of (tasks s j)) = Some (u, m)"
    then have j: "j \<noteq> i" "session_of (tasks s j) = Some (u, m)" by (auto split: if_splits)
    then have "m \<noteq> n" using uniq by blast
    from dis j(2) consider "sessions (hub_of s) (tname u) = Some \<lparr>sid = m, spsk = tpsk u, control = j\<rparr>"
      | "j \<in> cancelled (hub_of s)" | l where "evicting (tasks s l) = Some j"
      unfolding displaced_ok_def by blast
    then show "sessions ?h (tname u) = Some \<lparr>sid = m, spsk = tpsk u, control = j\<rparr>
        \<or> j \<in> cancelled (hub_of s) \<or> (\<exists>l. evicting (tasks ?s l) = Some j)"
    proof cases
      case 1
      with \<open>m \<noteq> n\<close> show ?thesis by (simp add: kept)
    next
      case 3
      with ev show ?thesis by blast
    qed simp
  qed
  moreover have "allowed_ok ?s"
    unfolding allowed_ok_def so tk(2,3) h
  proof (intro allI impI)
    fix j u m
    assume "(if j = i then None else session_of (tasks s j)) = Some (u, m) \<and> is_checked (tasks ?s j)"
    then have "session_of (tasks s j) = Some (u, m) \<and> is_checked (tasks s j)"
      by (auto simp: tk split: if_splits)
    with alw ev show "still_allowed (published (hub_of s)) (tname u) (tpsk u)
       \<or> j \<in> cancelled (hub_of s) \<or> (\<exists>l. evicting (tasks ?s l) = Some j)
       \<or> (\<exists>a. appliers s a = Sweeping (published (hub_of s)))"
      unfolding allowed_ok_def by blast
  qed
  ultimately show ?thesis by (simp add: system_inv_def)
qed

text \<open>Publishing, then sweeping.\<close>

lemma system_inv_publishes:
  assumes "system_inv s"
  shows "system_inv (s\<lparr>hub_of := publish next (hub_of s), appliers := (appliers s)(a := Sweeping next)\<rparr>)"
  using assms by (auto simp: system_inv_def numbers_ok_def entries_ok_def displaced_ok_def allowed_ok_def
      publish_def)

lemma system_inv_sweeps:
  assumes "system_inv s" and "appliers s a = Sweeping next"
  shows "system_inv (s\<lparr>hub_of := sweep next (hub_of s), appliers := (appliers s)(a := Pruning next)\<rparr>)"
    (is "system_inv ?s")
proof -
  define s' where "s' = ?s"
  define h where "h = sweep next (hub_of s)"
  have tk: "hub_of s' = h" "tasks s' = tasks s" "started s' = started s"
    "appliers s' = (appliers s)(a := Pruning next)" by (simp_all add: s'_def h_def)
  have h: "published h = published (hub_of s)" "next_session h = next_session (hub_of s)"
    "cancelled (hub_of s) \<subseteq> cancelled h"
    by (auto simp: h_def sweep_def)
  have kept: "sessions h m = Some q \<longleftrightarrow> sessions (hub_of s) m = Some q \<and> session_valid next m q" for m q
    by (auto simp: h_def sweep_def split: option.splits if_splits)
  have gone: "control q \<in> cancelled h" if "sessions (hub_of s) m = Some q" "\<not> session_valid next m q" for m q
    using that by (auto simp: h_def sweep_def)
  have num: "numbers_ok s" and ent: "entries_ok s" and dis: "displaced_ok s" and alw: "allowed_ok s"
    using assms(1) by (simp_all add: system_inv_def)
  have "numbers_ok s'" using num by (simp add: numbers_ok_def h tk)
  moreover have "entries_ok s'" using ent unfolding entries_ok_def tk by (simp add: kept)
  moreover have dis': "displaced_ok s'"
    unfolding displaced_ok_def
  proof (intro allI impI)
    fix j u m assume "session_of (tasks s' j) = Some (u, m)"
    then have "session_of (tasks s j) = Some (u, m)" by (simp add: tk)
    with dis consider "sessions (hub_of s) (tname u) = Some \<lparr>sid = m, spsk = tpsk u, control = j\<rparr>"
      | "j \<in> cancelled (hub_of s)" | l where "evicting (tasks s l) = Some j"
      unfolding displaced_ok_def by blast
    then show "sessions (hub_of s') (tname u) = Some \<lparr>sid = m, spsk = tpsk u, control = j\<rparr>
        \<or> j \<in> cancelled (hub_of s') \<or> (\<exists>l. evicting (tasks s' l) = Some j)"
    proof cases
      case 1
      with kept gone [OF 1] show ?thesis by (auto simp: tk)
    qed (use h(3) in \<open>auto simp: tk\<close>)
  qed
  moreover have "allowed_ok s'"
    unfolding allowed_ok_def
  proof (intro allI impI)
    fix j u m assume j: "session_of (tasks s' j) = Some (u, m) \<and> is_checked (tasks s' j)"
    show "still_allowed (published (hub_of s')) (tname u) (tpsk u)
       \<or> j \<in> cancelled (hub_of s') \<or> (\<exists>l. evicting (tasks s' l) = Some j)
       \<or> (\<exists>a. appliers s' a = Sweeping (published (hub_of s')))"
    proof (cases "next = published (hub_of s)")
      case True
      have "session_of (tasks s' j) = Some (u, m)" using j by blast
      with dis' consider "sessions (hub_of s') (tname u) = Some \<lparr>sid = m, spsk = tpsk u, control = j\<rparr>"
        | "j \<in> cancelled (hub_of s')" | l where "evicting (tasks s' l) = Some j"
        unfolding displaced_ok_def by blast
      then show ?thesis
      proof cases
        case 1
        then have "still_allowed next (tname u) (tpsk u)" by (simp add: kept session_valid_def tk)
        with True show ?thesis by (simp add: h tk)
      qed blast+
    next
      case False
      from alw j consider "still_allowed (published (hub_of s)) (tname u) (tpsk u)"
        | "j \<in> cancelled (hub_of s)" | l where "evicting (tasks s l) = Some j"
        | b where "appliers s b = Sweeping (published (hub_of s))"
        unfolding allowed_ok_def tk by blast
      then show ?thesis
      proof cases
        case 4
        with False assms(2) have "b \<noteq> a" by auto
        with 4 have "appliers s' b = Sweeping (published (hub_of s'))" by (simp add: h tk)
        then show ?thesis by blast
      qed (use h in \<open>auto simp: tk\<close>)
    qed
  qed
  ultimately have "system_inv s'" by (simp add: system_inv_def)
  then show ?thesis by (simp only: s'_def)
qed

lemma system_inv_prunes:
  assumes "system_inv s" and "appliers s a = Pruning next"
  shows "system_inv (s\<lparr>hub_of := prune_budgets next (hub_of s), appliers := (appliers s)(a := Ready_To_Apply)\<rparr>)"
    (is "system_inv ?s")
proof -
  have ap: "appliers s b = Sweeping p \<Longrightarrow> appliers ?s b = Sweeping p" for b p
    using assms(2) by auto
  have h: "published (hub_of ?s) = published (hub_of s)" "cancelled (hub_of ?s) = cancelled (hub_of s)"
    "sessions (hub_of ?s) = sessions (hub_of s)" "next_session (hub_of ?s) = next_session (hub_of s)"
    "tasks ?s = tasks s" "started ?s = started s"
    by (simp_all add: quiet_updates)
  have "allowed_ok ?s"
    using assms(1) ap unfolding system_inv_def allowed_ok_def h by blast
  moreover have "numbers_ok ?s" "entries_ok ?s" "displaced_ok ?s"
    using assms(1) unfolding system_inv_def numbers_ok_def entries_ok_def displaced_ok_def h by blast+
  ultimately show ?thesis by (simp add: system_inv_def)
qed

lemma hstep_inv [invariants]:
  assumes "system_inv s" and "hstep s s'" and "started s' < 2 ^ 64 - 1"
  shows "system_inv s'"
  using assms(2)
proof cases
  case (accepted i a h now)
  with quiet_ops(1) [of a "hub_of s" True h] show ?thesis
    by (auto intro!: system_inv_quiet [OF assms(1)])
next
  case (turned_away i a h)
  note q = quiet_ops(1) [OF turned_away(3)]
  show ?thesis unfolding turned_away(1)
    by (rule system_inv_quiet [OF assms(1)]) (simp_all add: quiet_updates q turned_away(2))
next
  case (inserts i t n old h)
  have "started s + 1 < 2 ^ 64 - 1" using assms(3) inserts(1) by (simp add: set_task_def)
  then show ?thesis unfolding inserts(1) by (rule system_inv_inserts [OF assms(1) inserts(2,3)])
next
  case (checks i t n old)
  have "system_inv (set_task i (Checked t n old) (check_session i t (hub_of s)) s)"
    by (rule system_inv_progress [OF assms(1), of i t n])
      (use checks in \<open>cases old; auto simp: check_session_def cancel_def\<close>)+
  with checks show ?thesis by simp
next
  case (evicts i t n old)
  have "system_inv (set_task i (Running t n) (cancel_replaced old (hub_of s)) s)"
    by (rule system_inv_progress [OF assms(1), of i t n])
      (use evicts in \<open>cases old; auto simp: cancel_replaced_def cancel_def\<close>)+
  with evicts show ?thesis by simp
next
  case (admits i t c sem h)
  with quiet_ops(2) [of t "hub_of s" "Some sem" h] show ?thesis
    by (auto intro!: system_inv_quiet [OF assms(1)])
next
  case (limits i t c h)
  with quiet_ops(2) [of t "hub_of s" None h] show ?thesis
    by (auto intro!: system_inv_quiet [OF assms(1)])
next
  case (authenticated i a c k t)
  then show ?thesis by (auto intro!: system_inv_quiet [OF assms(1)] simp: quiet_updates)
next
  case (left i a c)
  then show ?thesis by (auto intro!: system_inv_quiet [OF assms(1)] simp: quiet_updates)
next
  case (ends i t n)
  show ?thesis unfolding ends(1) by (rule system_inv_ends [OF assms(1) ends(2)])
next
  case (routes i host t)
  then show ?thesis by (auto intro!: system_inv_quiet [OF assms(1)])
next
  case (links i t q)
  then show ?thesis by (auto intro!: system_inv_quiet [OF assms(1)])
next
  case (offline i t)
  then show ?thesis by (auto intro!: system_inv_quiet [OF assms(1)])
next
  case (relayed i t c sem)
  then show ?thesis by (auto intro!: system_inv_quiet [OF assms(1)] simp: quiet_updates)
next
  case (publishes a "next")
  show ?thesis unfolding publishes(1) by (rule system_inv_publishes [OF assms(1)])
next
  case (sweeps a "next")
  show ?thesis unfolding sweeps(1) by (rule system_inv_sweeps [OF assms(1) sweeps(2)])
next
  case (prunes a "next")
  show ?thesis unfolding prunes(1) by (rule system_inv_prunes [OF assms(1) prunes(2)])
qed

lemma started_mono: "hstep s s' \<Longrightarrow> started s \<le> started s'"
  by (induction rule: hstep.induct) (simp_all add: set_task_def)

lemma hreach_inv:
  assumes "hreach initial s" and "started s < 2 ^ 64 - 1"
  shows "system_inv s"
  using assms
proof (induction rule: rtranclp_induct)
  case base
  show ?case by (rule system_inv_start)
next
  case (step s s')
  have "started s < 2 ^ 64 - 1"
    using started_mono [OF step.hyps(2)] step.prems by (rule le_less_trans)
  then have "system_inv s" by (rule step.IH)
  then show ?case by (rule hstep_inv [OF _ step.hyps(2) step.prems])
qed

section \<open>Who answers a connection\<close>

fun acts_for :: "task \<Rightarrow> tenant option" where
  "acts_for (Authed t) = Some t"
| "acts_for k = map_option fst (session_of k)"

definition auth_ok :: "system \<Rightarrow> bool" where
  "auth_ok s \<longleftrightarrow> (\<forall>i t. acts_for (tasks s i) = Some t \<longrightarrow> auth_as s i = Some t)
     \<and> (\<forall>i t c sem. tasks s i = Linked t c \<or> tasks s i = Relaying t c sem \<longrightarrow>
          (\<exists>u. auth_as s c = Some u \<and> tname u = tname t))
     \<and> (\<forall>i a c. tasks s i = Handshaking a c \<or> tasks s i = Fresh \<longrightarrow> auth_as s i = None)
     \<and> (\<forall>n q. sessions (hub_of s) n = Some q \<longrightarrow> (\<exists>u. auth_as s (control q) = Some u \<and> tname u = n))"

lemma auth_ok_start: "auth_ok (system_start initial)"
  by (simp add: auth_ok_def system_start_def hub_new_def)

lemma auth_ok_task:
  assumes "auth_ok s" and "\<And>t. acts_for k = Some t \<Longrightarrow> auth_as s i = Some t"
    and "\<And>t c sem. k = Linked t c \<or> k = Relaying t c sem \<Longrightarrow> \<exists>u. auth_as s c = Some u \<and> tname u = tname t"
    and "\<And>a c. k = Handshaking a c \<Longrightarrow> auth_as s i = None" and "k \<noteq> Fresh"
    and "\<And>n q. sessions h n = Some q \<Longrightarrow> sessions (hub_of s) n = Some q
      \<or> (\<exists>u. auth_as s (control q) = Some u \<and> tname u = n)"
  shows "auth_ok (set_task i k h s)"
proof -
  define s' where "s' = set_task i k h s"
  have tk: "tasks s' = (tasks s)(i := k)" "hub_of s' = h" "auth_as s' = auth_as s"
    by (simp_all add: s'_def set_task_def)
  have 1: "auth_as s j = Some t" if "acts_for (((tasks s)(i := k)) j) = Some t" for j t
    using assms(1,2) that unfolding auth_ok_def by (cases "j = i") auto
  have 2: "\<exists>u. auth_as s c = Some u \<and> tname u = tname t"
    if "((tasks s)(i := k)) j = Linked t c \<or> ((tasks s)(i := k)) j = Relaying t c sem" for j t c sem
  proof (cases "j = i")
    case True
    with that assms(3) show ?thesis by simp
  next
    case False
    with that have "tasks s j = Linked t c \<or> tasks s j = Relaying t c sem" by simp
    with assms(1) show ?thesis unfolding auth_ok_def by blast
  qed
  have 3: "auth_as s j = None" if "((tasks s)(i := k)) j = Handshaking a c \<or> ((tasks s)(i := k)) j = Fresh" for j a c
    using assms(1,4,5) that unfolding auth_ok_def by (cases "j = i") auto
  have 4: "\<exists>u. auth_as s (control q) = Some u \<and> tname u = n" if "sessions h n = Some q" for n q
    using assms(1) assms(6) [OF that] unfolding auth_ok_def by blast
  have "auth_ok s'" unfolding auth_ok_def tk using 1 2 3 4 by blast
  then show ?thesis by (simp only: s'_def)
qed

lemma auth_ok_hub:
  assumes "auth_ok s" and "\<And>n q. sessions h n = Some q \<Longrightarrow> sessions (hub_of s) n = Some q"
  shows "auth_ok (s\<lparr>hub_of := h, appliers := ap\<rparr>)"
  using assms unfolding auth_ok_def by simp

lemma auth_ok_authenticated:
  assumes "auth_ok s" and "tasks s i = Handshaking a c"
    and "sessions h = sessions (hub_of s)"
  shows "auth_ok ((set_task i (Authed t) h s)\<lparr>auth_as := (auth_as s)(i \<mapsto> t)\<rparr>)"
proof -
  define s' where "s' = (set_task i (Authed t) h s)\<lparr>auth_as := (auth_as s)(i \<mapsto> t)\<rparr>"
  have tk: "tasks s' = (tasks s)(i := Authed t)" "hub_of s' = h" "auth_as s' = (auth_as s)(i \<mapsto> t)"
    by (simp_all add: s'_def set_task_def)
  have none: "auth_as s i = None" using assms(1,2) unfolding auth_ok_def by blast
  then have keep: "auth_as s c = Some u \<Longrightarrow> auth_as s' c = Some u" for c u by (auto simp: tk)
  have 1: "auth_as s' j = Some u" if "acts_for (tasks s' j) = Some u" for j u
    using assms(1) that keep unfolding auth_ok_def by (cases "j = i") (auto simp: tk)
  have 2: "\<exists>u. auth_as s' c = Some u \<and> tname u = tname v"
    if "tasks s' j = Linked v c \<or> tasks s' j = Relaying v c sem" for j v c sem
  proof -
    from that have "tasks s j = Linked v c \<or> tasks s j = Relaying v c sem"
      by (auto simp: tk split: if_splits)
    with assms(1) keep show ?thesis unfolding auth_ok_def by blast
  qed
  have 3: "auth_as s' j = None" if "tasks s' j = Handshaking b d \<or> tasks s' j = Fresh" for j b d
    using assms(1) that unfolding auth_ok_def by (auto simp: tk split: if_splits)
  have 4: "\<exists>u. auth_as s' (control q) = Some u \<and> tname u = n" if "sessions (hub_of s') n = Some q" for n q
    using assms(1,3) that keep unfolding auth_ok_def tk(2) by metis
  have "auth_ok s'" unfolding auth_ok_def using 1 2 3 4 by blast
  then show ?thesis by (simp only: s'_def)
qed

lemma auth_ok_started [simp]: "auth_ok (s\<lparr>started := n\<rparr>) = auth_ok s"
  by (simp add: auth_ok_def)

lemma hstep_auth [invariants]:
  assumes "auth_ok s" and "hstep s s'"
  shows "auth_ok s'"
proof -
  have acts: "acts_for (tasks s i) = Some t \<Longrightarrow> auth_as s i = Some t" for i t
    using assms(1) unfolding auth_ok_def by blast
  have link: "tasks s i = Linked t c \<Longrightarrow> \<exists>u. auth_as s c = Some u \<and> tname u = tname t" for i t c
    using assms(1) unfolding auth_ok_def by blast
  have fresh: "tasks s i = Fresh \<Longrightarrow> auth_as s i = None" for i
    using assms(1) unfolding auth_ok_def by blast
  have entry: "sessions (hub_of s) n = Some q \<Longrightarrow> \<exists>u. auth_as s (control q) = Some u \<and> tname u = n" for n q
    using assms(1) unfolding auth_ok_def by blast
  from assms(2) show ?thesis
  proof cases
    case (accepted i a h now)
    show ?thesis unfolding accepted(1)
      by (rule auth_ok_task [OF assms(1)]) (simp_all add: quiet_ops(1) [OF accepted(3)] fresh accepted(2))
  next
    case (turned_away i a h)
    show ?thesis unfolding turned_away(1)
      by (rule auth_ok_task [OF assms(1)]) (simp_all add: quiet_updates quiet_ops(1) [OF turned_away(3)])
  next
    case (authenticated i a c k t)
    show ?thesis unfolding authenticated(1)
      by (rule auth_ok_authenticated [OF assms(1) authenticated(2)]) (simp add: quiet_updates)
  next
    case (left i a c)
    show ?thesis unfolding left(1)
      by (rule auth_ok_task [OF assms(1)]) (simp_all add: quiet_updates)
  next
    case (inserts i t n old h)
    have "auth_as s i = Some t" using acts inserts(2) by simp
    then have "auth_ok (set_task i (Inserted t n old) h s)"
      using inserts(3)
      by (intro auth_ok_task [OF assms(1)]) (auto simp: insert_session_def Let_def split: if_splits)
    then show ?thesis unfolding inserts(1) by simp
  next
    case (checks i t n old)
    have "auth_as s i = Some t" using acts checks(2) by simp
    then show ?thesis unfolding checks(1)
      by (intro auth_ok_task [OF assms(1)]) (auto simp: check_session_def cancel_def split: if_splits)
  next
    case (evicts i t n old)
    have "auth_as s i = Some t" using acts evicts(2) by simp
    then show ?thesis unfolding evicts(1)
      by (intro auth_ok_task [OF assms(1)])
        (auto simp: cancel_replaced_def cancel_def split: option.splits)
  next
    case (ends i t n)
    show ?thesis unfolding ends(1)
      by (rule auth_ok_task [OF assms(1)]) (auto simp: end_session_def split: option.splits if_splits)
  next
    case (routes i host t)
    show ?thesis unfolding routes(1) by (rule auth_ok_task [OF assms(1)]) simp_all
  next
    case (links i t q)
    show ?thesis unfolding links(1)
      by (rule auth_ok_task [OF assms(1)]) (use entry [OF links(3)] in auto)
  next
    case (offline i t)
    show ?thesis unfolding offline(1) by (rule auth_ok_task [OF assms(1)]) simp_all
  next
    case (admits i t c sem h)
    show ?thesis unfolding admits(1)
      by (rule auth_ok_task [OF assms(1)])
        (use link [OF admits(2)] quiet_ops(2) [OF admits(3)] in auto)
  next
    case (limits i t c h)
    show ?thesis unfolding limits(1)
      by (rule auth_ok_task [OF assms(1)]) (simp_all add: quiet_ops(2) [OF limits(3)])
  next
    case (relayed i t c sem)
    show ?thesis unfolding relayed(1) by (rule auth_ok_task [OF assms(1)]) (simp_all add: quiet_updates)
  next
    case (publishes a "next")
    show ?thesis unfolding publishes(1) by (rule auth_ok_hub [OF assms(1)]) (simp add: publish_def)
  next
    case (sweeps a "next")
    show ?thesis unfolding sweeps(1)
      by (rule auth_ok_hub [OF assms(1)]) (auto simp: sweep_def split: option.splits if_splits)
  next
    case (prunes a "next")
    show ?thesis unfolding prunes(1) by (rule auth_ok_hub [OF assms(1)]) (simp add: quiet_updates)
  qed
qed

lemma hreach_auth: "hreach initial s \<Longrightarrow> auth_ok s"
  by (induction rule: rtranclp_induct) (auto intro: auth_ok_start hstep_auth)

section \<open>A rotated key\<close>

text \<open>Tenant \<open>a\<close> gets a new key while a client that still holds the old one is between its
  handshake and the insertion of its session.\<close>

definition old_a :: tenant where "old_a = sample_tenant ''a'' (sample_psk 1) ''a.example''"
definition new_a :: tenant where "new_a = sample_tenant ''a'' (sample_psk 9) ''a.example''"
definition set_old :: tenant_set where "set_old = \<lparr>tenants = [old_a], codes = []\<rparr>"
definition set_new :: tenant_set where "set_new = \<lparr>tenants = [new_a], codes = []\<rparr>"

lemma rotated_wf: "wf_set set_new"
  by (simp add: wf_set_def set_new_def new_a_def sample_tenant_def wf_tenant_def sample_hosts)

lemma rotated_candidates:
  "candidates_at set_old now = \<lparr>psks = [sample_psk 1], ids = [IsTenant old_a]\<rparr>"
  "candidates_at set_new now = \<lparr>psks = [sample_psk 9], ids = [IsTenant new_a]\<rparr>"
  by (simp_all add: candidates_at_eq set_old_def set_new_def old_a_def new_a_def sample_tenant_def)

lemma rotated_allowed:
  "still_allowed set_new (tname new_a) (tpsk new_a)" "\<not> still_allowed set_new (tname old_a) (tpsk old_a)"
  by (simp_all add: still_allowed_def find_tenant_def set_new_def new_a_def old_a_def sample_tenant_def)

lemma rotated_names [simp]: "tname old_a = ''a''" "tname new_a = ''a''"
  by (simp_all add: old_a_def new_a_def sample_tenant_def)

text \<open>The state once the client with the new key has its session, and the old one is authenticated.\<close>

definition rotated_hub :: hub where
  "rotated_hub = (hub_new set_old)\<lparr>published := set_new,
     sessions := [''a'' \<mapsto> \<lparr>sid = 1, spsk = tpsk new_a, control = 1\<rparr>], next_session := 2\<rparr>"

definition rotated_state :: system where
  "rotated_state = \<lparr>hub_of = rotated_hub, tasks = (\<lambda>_. Fresh)(0 := Authed old_a, 1 := Running new_a 1),
     appliers = (\<lambda>_. Ready_To_Apply), started = 1, auth_as = [0 \<mapsto> old_a, 1 \<mapsto> new_a]\<rparr>"

lemma slot_taken_and_left:
  assumes "handshakes h = 256" "pending_by_ip h = Map.empty"
  shows "try_pending 7 h = (True, h\<lparr>handshakes := 255, pending_by_ip := [7 \<mapsto> 1]\<rparr>)"
    and "drop_pending 7 (h\<lparr>handshakes := 255, pending_by_ip := [7 \<mapsto> 1]\<rparr>) = h"
proof -
  show "try_pending 7 h = (True, h\<lparr>handshakes := 255, pending_by_ip := [7 \<mapsto> 1]\<rparr>)"
    using assms by (simp add: try_pending_def MAX_PENDING_PER_IP_def)
  have "h\<lparr>pending_by_ip := Map.empty, handshakes := 256\<rparr> = h" using assms by simp
  then show "drop_pending 7 (h\<lparr>handshakes := 255, pending_by_ip := [7 \<mapsto> 1]\<rparr>) = h"
    using assms by (simp add: drop_pending_def)
qed

text \<open>A control connection from its acceptance to its authentication.\<close>

lemma control_authenticates:
  assumes "tasks s i = Fresh" and "handshakes (hub_of s) = 256" and "pending_by_ip (hub_of s) = Map.empty"
    and "candidates_at (published (hub_of s)) 0 = \<lparr>psks = [p], ids = [IsTenant t]\<rparr>"
  shows "hstep\<^sup>*\<^sup>* s (s\<lparr>tasks := (tasks s)(i := Authed t), auth_as := (auth_as s)(i \<mapsto> t)\<rparr>)"
proof -
  let ?h = "(hub_of s)\<lparr>handshakes := 255, pending_by_ip := [7 \<mapsto> 1]\<rparr>"
  let ?c = "\<lparr>psks = [p], ids = [IsTenant t]\<rparr>"
  define s1 where "s1 = set_task i (Handshaking 7 ?c) ?h s"
  have 1: "hstep s s1"
    using hstep.accepted [OF assms(1) slot_taken_and_left(1) [OF assms(2,3)], of 0] assms(4)
    by (simp add: s1_def)
  have 2: "hstep s1 ((set_task i (Authed t) (drop_pending 7 (hub_of s1)) s1)\<lparr>auth_as := (auth_as s1)(i \<mapsto> t)\<rparr>)"
    by (rule hstep.authenticated [of s1 i 7 ?c 0]) (simp_all add: s1_def set_task_def)
  have "(set_task i (Authed t) (drop_pending 7 (hub_of s1)) s1)\<lparr>auth_as := (auth_as s1)(i \<mapsto> t)\<rparr>
      = s\<lparr>tasks := (tasks s)(i := Authed t), auth_as := (auth_as s)(i \<mapsto> t)\<rparr>"
    using slot_taken_and_left(2) [OF assms(2,3)] by (cases s) (simp add: s1_def set_task_def)
  with 1 2 show ?thesis by (metis r_into_rtranclp rtranclp.rtrancl_into_rtrancl)
qed

lemma rotated_reach: "hreach set_old rotated_state"
proof -
  define s0 where "s0 = system_start set_old"
  define s1 where "s1 = s0\<lparr>tasks := (tasks s0)(0 := Authed old_a), auth_as := (auth_as s0)(0 \<mapsto> old_a)\<rparr>"
  define s2 where "s2 = s1\<lparr>hub_of := publish set_new (hub_of s1), appliers := (appliers s1)(0 := Sweeping set_new)\<rparr>"
  define s3 where "s3 = s2\<lparr>hub_of := sweep set_new (hub_of s2), appliers := (appliers s2)(0 := Pruning set_new)\<rparr>"
  define s4 where "s4 = s3\<lparr>hub_of := prune_budgets set_new (hub_of s3), appliers := (appliers s3)(0 := Ready_To_Apply)\<rparr>"
  define s5 where "s5 = s4\<lparr>tasks := (tasks s4)(1 := Authed new_a), auth_as := (auth_as s4)(1 \<mapsto> new_a)\<rparr>"
  note d = s0_def s1_def s2_def s3_def s4_def s5_def system_start_def hub_new_def publish_def
    sweep_def prune_budgets_def
  have 1: "hstep\<^sup>*\<^sup>* s0 s1" unfolding s1_def
    by (rule control_authenticates) (simp_all add: s0_def system_start_def hub_new_def
        MAX_PENDING_HANDSHAKES_def rotated_candidates)
  have 2: "hstep s1 s2" unfolding s2_def by (rule hstep.publishes [OF _ rotated_wf]) (simp add: d)
  have 3: "hstep s2 s3" unfolding s3_def by (rule hstep.sweeps) (simp add: s2_def)
  have 4: "hstep s3 s4" unfolding s4_def by (rule hstep.prunes) (simp add: s3_def)
  have 5: "hstep\<^sup>*\<^sup>* s4 s5" unfolding s5_def
    by (rule control_authenticates) (simp_all add: d MAX_PENDING_HANDSHAKES_def rotated_candidates)
  have hub5: "hub_of s5 = (hub_new set_old)\<lparr>published := set_new\<rparr>"
    by (simp add: d fun_eq_iff)
  let ?h6 = "(hub_of s5)\<lparr>next_session := 2, sessions := [''a'' \<mapsto> \<lparr>sid = 1, spsk = tpsk new_a, control = 1\<rparr>]\<rparr>"
  define s6 where "s6 = (set_task 1 (Inserted new_a 1 None) ?h6 s5)\<lparr>started := started s5 + 1\<rparr>"
  define s7 where "s7 = set_task 1 (Checked new_a 1 None) (check_session 1 new_a (hub_of s6)) s6"
  define s8 where "s8 = set_task 1 (Running new_a 1) (cancel_replaced None (hub_of s7)) s7"
  have 6: "hstep s5 s6" unfolding s6_def
    by (rule hstep.inserts) (simp_all add: s5_def, simp add: insert_session_def Let_def d)
  have 7: "hstep s6 s7" unfolding s7_def by (rule hstep.checks) (simp add: s6_def set_task_def)
  have 8: "hstep s7 s8" unfolding s8_def by (rule hstep.evicts) (simp add: s7_def set_task_def)
  have "s8 = rotated_state"
    by (simp add: s8_def s7_def s6_def set_task_def check_session_def cancel_replaced_def hub5
        rotated_allowed [unfolded rotated_names] rotated_state_def rotated_hub_def)
      (simp add: s5_def s4_def s3_def s2_def s1_def s0_def system_start_def fun_eq_iff)
  with 1 2 3 4 5 6 7 8 show ?thesis
    unfolding s0_def [symmetric] by (meson rtranclp.rtrancl_into_rtrancl rtranclp_trans)
qed

lemma rotated_relay:
  "\<exists>s sem. hreach set_old s \<and> tasks s 2 = Relaying new_a 1 sem"
proof -
  define s1 where "s1 = set_task 2 (Routed new_a) (hub_of rotated_state) rotated_state"
  define s2 where "s2 = set_task 2 (Linked new_a 1) (hub_of s1) s1"
  have 1: "hstep rotated_state s1" unfolding s1_def
    by (rule hstep.routes [where host = "''a.example''"])
      (simp_all add: rotated_state_def rotated_hub_def tenant_by_sni_def set_new_def new_a_def
        sample_tenant_def Let_def)
  have 2: "hstep s1 s2" unfolding s2_def
    using hstep.links [of s1 2 new_a "\<lparr>sid = 1, spsk = tpsk new_a, control = 1\<rparr>"]
    by (simp add: s1_def set_task_def rotated_state_def rotated_hub_def)
  obtain r h where a: "try_acquire new_a (hub_of s2) = (r, h)" by force
  have "r = Some 0"
    using a by (auto simp: try_acquire_def budget_entry_def s2_def s1_def set_task_def
        rotated_state_def rotated_hub_def hub_new_def new_a_def sample_tenant_def)
  then have 3: "hstep s2 (set_task 2 (Relaying new_a 1 0) h s2)"
    using a by (intro hstep.admits) (simp_all add: s2_def set_task_def)
  have "hreach set_old (set_task 2 (Relaying new_a 1 0) h s2)"
    using rotated_reach 1 2 3 by (meson rtranclp.rtrancl_into_rtrancl)
  then show ?thesis by (intro exI [of _ "set_task 2 (Relaying new_a 1 0) h s2"]) (simp add: set_task_def)
qed

section \<open>Properties\<close>

text \<open>C8: No interleaving lets a session outlive its permission: in every state that the tasks of the
  server reach, once the sweep of the published tenants has run and no session is between its
  insertion and its eviction of the older one, every session that is not cancelled belongs to an
  enabled tenant of the published set with that tenant's current key, is the one in the map, and is
  the only such session of its tenant.\<close>

theorem live_sessions_allowed:
  assumes "hreach initial s" and "started s < 2 ^ 64 - 1"
    and "\<forall>a next. appliers s a \<noteq> Sweeping next" and "\<forall>j. evicting (tasks s j) = None"
    and "tasks s i = Running t n" and "i \<notin> cancelled (hub_of s)"
  shows "still_allowed (published (hub_of s)) (tname t) (tpsk t)
    \<and> sessions (hub_of s) (tname t) = Some \<lparr>sid = n, spsk = tpsk t, control = i\<rparr>
    \<and> (\<forall>j u m. tasks s j = Running u m \<and> j \<notin> cancelled (hub_of s) \<and> tname u = tname t \<longrightarrow> j = i)"
proof -
  have inv: "displaced_ok s" "allowed_ok s"
    using hreach_inv [OF assms(1,2)] by (simp_all add: system_inv_def)
  have entry: "sessions (hub_of s) (tname u) = Some \<lparr>sid = m, spsk = tpsk u, control = j\<rparr>"
    if "tasks s j = Running u m" "j \<notin> cancelled (hub_of s)" for j u m
  proof -
    have "session_of (tasks s j) = Some (u, m)" using that(1) by simp
    with inv(1) that(2) assms(4) show ?thesis unfolding displaced_ok_def by fastforce
  qed
  have "session_of (tasks s i) = Some (t, n) \<and> is_checked (tasks s i)" using assms(5) by simp
  with inv(2) assms(3,4,6) have a: "still_allowed (published (hub_of s)) (tname t) (tpsk t)"
    unfolding allowed_ok_def by fastforce
  have "j = i" if "tasks s j = Running u m \<and> j \<notin> cancelled (hub_of s) \<and> tname u = tname t" for j u m
    using entry [of j u m] entry [OF assms(5,6)] that by simp
  with a entry [OF assms(5,6)] show ?thesis by blast
qed

theorem live_sessions_allowed_witness:
  "sessions (hub_of rotated_state) (tname new_a) = Some \<lparr>sid = 1, spsk = tpsk new_a, control = 1\<rparr>"
proof -
  have "started rotated_state < 2 ^ 64 - 1" by (simp add: rotated_state_def)
  moreover have "\<forall>a next. appliers rotated_state a \<noteq> Sweeping next" by (simp add: rotated_state_def)
  moreover have "\<forall>j. evicting (tasks rotated_state j) = None" by (simp add: rotated_state_def)
  moreover have "tasks rotated_state 1 = Running new_a 1" by (simp add: rotated_state_def)
  moreover have "1 \<notin> cancelled (hub_of rotated_state)"
    by (simp add: rotated_state_def rotated_hub_def hub_new_def)
  ultimately show ?thesis using live_sessions_allowed [OF rotated_reach] by blast
qed

text \<open>C11: Tenants are isolated: a TLS connection that was routed to a tenant is only ever relayed
  through a control connection whose handshake authenticated it as the tenant of that name.\<close>

theorem relay_isolated:
  assumes "hreach initial s" and "tasks s j = Relaying t c sem"
  shows "\<exists>u. auth_as s c = Some u \<and> tname u = tname t"
  using hreach_auth [OF assms(1)] assms(2) unfolding auth_ok_def by blast

theorem relay_isolated_witness:
  "\<exists>s c u. hreach set_old s \<and> auth_as s c = Some u \<and> tname u = ''a''"
proof -
  obtain s sem where s: "hreach set_old s" "tasks s 2 = Relaying new_a 1 sem" using rotated_relay by blast
  from relay_isolated [OF this] obtain u where "auth_as s 1 = Some u" "tname u = tname new_a" by blast
  with s(1) show ?thesis by (metis rotated_names(2))
qed

text \<open>A stale key can end a live session: run_session inserts a new session and evicts the one it
  replaces whether or not the new one is still allowed. There is a run in which tenant a has its
  current key's session, and a client whose handshake used the key from before a rotation replaces
  and cancels it although its own session is refused and cancelled, so the tenant is left without
  any live session.\<close>

theorem stale_handshake_evicts:
  "\<exists>s. hreach set_old s \<and> tasks s 1 = Running new_a 1 \<and> tasks s 0 = Running old_a 2
     \<and> still_allowed (published (hub_of s)) (tname new_a) (tpsk new_a)
     \<and> \<not> still_allowed (published (hub_of s)) (tname old_a) (tpsk old_a)
     \<and> 0 \<in> cancelled (hub_of s) \<and> 1 \<in> cancelled (hub_of s)
     \<and> sessions (hub_of s) ''a'' = Some \<lparr>sid = 2, spsk = tpsk old_a, control = 0\<rparr>"
proof -
  let ?q = "\<lparr>sid = 1, spsk = tpsk new_a, control = 1\<rparr>"
  let ?h = "rotated_hub\<lparr>next_session := 3, sessions := [''a'' \<mapsto> \<lparr>sid = 2, spsk = tpsk old_a, control = 0\<rparr>]\<rparr>"
  define s1 where "s1 = (set_task 0 (Inserted old_a 2 (Some ?q)) ?h rotated_state)\<lparr>started := started rotated_state + 1\<rparr>"
  define s2 where "s2 = set_task 0 (Checked old_a 2 (Some ?q)) (check_session 0 old_a (hub_of s1)) s1"
  define s3 where "s3 = set_task 0 (Running old_a 2) (cancel_replaced (Some ?q) (hub_of s2)) s2"
  have 1: "hstep rotated_state s1" unfolding s1_def
    by (rule hstep.inserts)
      (simp_all add: rotated_state_def insert_session_def Let_def rotated_hub_def)
  have 2: "hstep s1 s2" unfolding s2_def by (rule hstep.checks) (simp add: s1_def set_task_def)
  have 3: "hstep s2 s3" unfolding s3_def by (rule hstep.evicts) (simp add: s2_def set_task_def)
  have "hreach set_old s3" using rotated_reach 1 2 3 by (meson rtranclp.rtrancl_into_rtrancl)
  moreover have "hub_of s3 = cancel 1 (cancel 0 ?h)"
    using rotated_allowed(2)
    by (simp add: s3_def s2_def s1_def set_task_def check_session_def cancel_replaced_def rotated_hub_def)
  ultimately show ?thesis using rotated_allowed
    by (intro exI [of _ s3])
      (simp add: cancel_def rotated_hub_def s3_def s2_def s1_def set_task_def rotated_state_def)
qed

end
