(* ===== verification/Hub_Slots.thy ===== *)
theory Hub_Slots
  imports Hub_System
begin

text \<open>
  The slots of a multi-tenant \<open>serve\<close>, counted over its tasks, while it runs and while it shuts
  down (\<open>reverse/tenant_serve.rs\<close>). \<open>accept_loop\<close> runs every connection under
  \<open>shutdown.run_until_cancelled\<close>, so after the cancellation a task may be dropped at an \<open>await\<close>: in
  the handshake and in a relay its guards give the slot back as when it ends by itself, but a session
  that is dropped while it waits never reaches the code that takes it out of the map.
\<close>

section \<open>Starting\<close>

text \<open>
  \<open>run_tenant_serve_with_store\<close> up to its tasks: the store is read first, then the two listeners are
  bound, and the hub starts from what was read.
\<close>

datatype tenant_start_error = ReadingTenants tenant_error | BindingControl string | BindingSni string

definition start_with_store ::
  "(string \<Rightarrow> bool) \<Rightarrow> string \<Rightarrow> string \<Rightarrow> tenant_error + tenant_set \<Rightarrow> tenant_start_error + system" where
  "start_with_store binds listen sni_listen snapshot =
     rbind (map_err ReadingTenants snapshot) (\<lambda>initial.
       if \<not> binds listen then Inl (BindingControl listen)
       else if \<not> binds sni_listen then Inl (BindingSni sni_listen)
       else Inr (system_start initial))"

section \<open>Tasks under the token\<close>

inductive tstep :: "system \<times> bool \<Rightarrow> system \<times> bool \<Rightarrow> bool" where
  acts: "hstep s s' \<Longrightarrow> tstep (s, c) (s', c)"
| shuts_down: "tstep (s, False) (s, True)"
| drops_handshake: "tasks s i = Handshaking a cs \<Longrightarrow>
    tstep (s, True) (set_task i Done (drop_pending a (hub_of s)) s, True)"
| drops_session: "tasks s i = Running t n \<Longrightarrow> tstep (s, True) (set_task i Done (hub_of s) s, True)"
| drops_relay: "tasks s i = Relaying t c sem \<Longrightarrow>
    tstep (s, True) (set_task i Done (release_slot sem (hub_of s)) s, True)"

abbreviation treach :: "tenant_set \<Rightarrow> system \<times> bool \<Rightarrow> bool" where
  "treach initial \<equiv> tstep\<^sup>*\<^sup>* (system_start initial, False)"

lemmas treach_first = converse_rtranclp_into_rtranclp [where r = tstep]

section \<open>Counting tasks\<close>

definition tasks_where :: "(task \<Rightarrow> bool) \<Rightarrow> system \<Rightarrow> nat set" where
  "tasks_where P s = {i. P (tasks s i)}"

fun in_handshake :: "ip \<Rightarrow> task \<Rightarrow> bool" where
  "in_handshake a (Handshaking b c) \<longleftrightarrow> b = a"
| "in_handshake a k \<longleftrightarrow> False"

fun handshaking :: "task \<Rightarrow> bool" where
  "handshaking (Handshaking b c) \<longleftrightarrow> True"
| "handshaking k \<longleftrightarrow> False"

fun relaying_on :: "nat \<Rightarrow> task \<Rightarrow> bool" where
  "relaying_on sem (Relaying t c x) \<longleftrightarrow> x = sem"
| "relaying_on sem k \<longleftrightarrow> False"

lemma tasks_where_set_task:
  "tasks_where P (set_task i k h s) = (if P k then insert i (tasks_where P s) else tasks_where P s - {i})"
  by (auto simp: tasks_where_def set_task_def)

lemma tasks_where_cong: "tasks s' = tasks s \<Longrightarrow> tasks_where P s' = tasks_where P s"
  by (simp add: tasks_where_def)

lemma card_set_task:
  assumes "finite (tasks_where P s)"
  shows "finite (tasks_where P (set_task i k h s))"
    and "card (tasks_where P (set_task i k h s)) + of_bool (P (tasks s i)) = card (tasks_where P s) + of_bool (P k)"
proof -
  show "finite (tasks_where P (set_task i k h s))" using assms by (simp add: tasks_where_set_task)
  have m: "i \<in> tasks_where P s \<longleftrightarrow> P (tasks s i)" by (simp add: tasks_where_def)
  have "P (tasks s i) \<Longrightarrow> 0 < card (tasks_where P s)" using assms m card_gt_0_iff by blast
  then show "card (tasks_where P (set_task i k h s)) + of_bool (P (tasks s i)) = card (tasks_where P s) + of_bool (P k)"
    using assms m by (auto simp: tasks_where_set_task card_insert_if card_Diff_singleton insert_absorb)
qed

text \<open>The lists of slots in use that the hub's counts stand for.\<close>

definition holds_slots :: "system \<Rightarrow> ip list \<Rightarrow> bool" where
  "holds_slots s held \<longleftrightarrow> slots_ok held (hub_of s) \<and> finite (tasks_where handshaking s)
     \<and> length held = card (tasks_where handshaking s)
     \<and> (\<forall>a. finite (tasks_where (in_handshake a) s) \<and> count_list held a = card (tasks_where (in_handshake a) s))"

definition holds_budgets :: "system \<Rightarrow> (nat \<Rightarrow> nat) \<Rightarrow> nat list \<Rightarrow> bool" where
  "holds_budgets s cap slots \<longleftrightarrow> budgets_ok cap slots (hub_of s)
     \<and> (\<forall>x. finite (tasks_where (relaying_on x) s) \<and> count_list slots x = card (tasks_where (relaying_on x) s))"

definition slots_inv :: "system \<Rightarrow> bool" where
  "slots_inv s \<longleftrightarrow> (\<exists>held. holds_slots s held) \<and> (\<exists>cap slots. holds_budgets s cap slots)"

lemma slots_inv_start: "slots_inv (system_start initial)"
proof -
  have "holds_slots (system_start initial) []"
    by (simp add: holds_slots_def slots_ok_new system_start_def tasks_where_def)
  moreover have "holds_budgets (system_start initial) (\<lambda>_. 0) []"
    by (simp add: holds_budgets_def budgets_ok_new system_start_def tasks_where_def)
  ultimately show ?thesis unfolding slots_inv_def by blast
qed

lemma hub_of_set_task [simp]: "hub_of (set_task i k h s) = h"
  by (simp add: set_task_def)

lemma tasks_where_quiet:
  "\<not> P (tasks s i) \<Longrightarrow> \<not> P k \<Longrightarrow> tasks_where P (set_task i k h s) = tasks_where P s"
  by (auto simp: tasks_where_def set_task_def)

lemma held_mem: "finite (tasks_where P s) \<Longrightarrow> P (tasks s i) \<Longrightarrow> count_list xs x = card (tasks_where P s) \<Longrightarrow> x \<in> set xs"
  by (metis card_0_eq count_list_0_iff empty_iff mem_Collect_eq tasks_where_def)

lemma count_list_remove1: "x \<in> set xs \<Longrightarrow> count_list (remove1 x xs) y = count_list xs y - (if y = x then 1 else 0)"
  by (induction xs) auto

text \<open>A step that neither takes nor gives back a handshake slot, or a budget.\<close>

lemma holds_slots_quiet:
  assumes "holds_slots s held" and "handshakes h = handshakes (hub_of s)" "pending_by_ip h = pending_by_ip (hub_of s)"
    and "\<not> handshaking (tasks s i)" "\<not> handshaking k"
  shows "holds_slots (set_task i k h s) held"
proof -
  have "\<not> in_handshake a (tasks s i)" "\<not> in_handshake a k" for a
    using assms(4,5) by (cases "tasks s i"; cases k; simp)+
  note tw = tasks_where_quiet [of handshaking, OF assms(4,5)] tasks_where_quiet [of "in_handshake a" for a, OF this]
  have "slots_ok held (hub_of s)" using assms(1) by (simp add: holds_slots_def)
  then have "slots_ok held h" unfolding slots_ok_def assms(2,3) .
  with assms(1) show ?thesis by (simp add: holds_slots_def tw)
qed

lemma holds_budgets_quiet:
  assumes "holds_budgets s cap slots" and "budgets h = budgets (hub_of s)" "sem_free h = sem_free (hub_of s)"
    "sem_next h = sem_next (hub_of s)"
    and "\<And>x. \<not> relaying_on x (tasks s i)" "\<And>x. \<not> relaying_on x k"
  shows "holds_budgets (set_task i k h s) cap slots"
proof -
  note tw = tasks_where_quiet [of "relaying_on x" for x, OF assms(5,6)]
  have "budgets_ok cap slots (hub_of s)" using assms(1) by (simp add: holds_budgets_def)
  then have "budgets_ok cap slots h" unfolding budgets_ok_def assms(2-4) .
  with assms(1) show ?thesis by (simp add: holds_budgets_def tw)
qed

text \<open>Taking a handshake slot and giving it back.\<close>

lemma holds_slots_accepted:
  assumes "holds_slots s held" and "tasks s i = Fresh" and "try_pending a (hub_of s) = (True, h)"
  shows "holds_slots (set_task i (Handshaking a cs) h s) (a # held)"
proof -
  have ok: "slots_ok (a # held) h"
    using try_pending_ok [of held "hub_of s" a] assms(1,3) by (simp add: holds_slots_def)
  have c: "finite (tasks_where (in_handshake b) s)" "count_list held b = card (tasks_where (in_handshake b) s)" for b
    using assms(1) by (simp_all add: holds_slots_def)
  have l: "finite (tasks_where handshaking s)" "length held = card (tasks_where handshaking s)"
    using assms(1) by (simp_all add: holds_slots_def)
  have "count_list (a # held) b = card (tasks_where (in_handshake b) (set_task i (Handshaking a cs) h s))" for b
    using card_set_task(2) [OF c(1) [of b], of i "Handshaking a cs" h] c(2) [of b] assms(2) by auto
  moreover have "length (a # held) = card (tasks_where handshaking (set_task i (Handshaking a cs) h s))"
    using card_set_task(2) [OF l(1), of i "Handshaking a cs" h] l(2) assms(2) by simp
  ultimately show ?thesis
    using card_set_task(1) [OF l(1)] card_set_task(1) [OF c(1)] ok unfolding holds_slots_def by auto
qed

lemma holds_slots_given_back:
  assumes "holds_slots s held" and "tasks s i = Handshaking a cs" and "\<not> handshaking k"
  shows "holds_slots (set_task i k (drop_pending a (hub_of s)) s) (remove1 a held)"
proof -
  let ?h = "drop_pending a (hub_of s)"
  have no: "\<not> in_handshake b k" for b using assms(3) by (cases k) simp_all
  have c: "finite (tasks_where (in_handshake b) s)" "count_list held b = card (tasks_where (in_handshake b) s)" for b
    using assms(1) by (simp_all add: holds_slots_def)
  have l: "finite (tasks_where handshaking s)" "length held = card (tasks_where handshaking s)"
    using assms(1) by (simp_all add: holds_slots_def)
  have mem: "a \<in> set held" by (rule held_mem [where i = i, OF c(1) _ c(2)]) (simp add: assms(2))
  have "count_list (remove1 a held) b = card (tasks_where (in_handshake b) (set_task i k ?h s))" for b
    using card_set_task(2) [OF c(1) [of b], of i k ?h] c(2) [of b] assms(2) no [of b]
    by (auto simp: count_list_remove1 [OF mem])
  moreover have "length (remove1 a held) = card (tasks_where handshaking (set_task i k ?h s))"
    using card_set_task(2) [OF l(1), of i k ?h] l(2) assms(2,3) mem by (simp add: length_remove1)
  moreover have "slots_ok (remove1 a held) ?h"
    using drop_pending_ok mem assms(1) by (simp add: holds_slots_def)
  ultimately show ?thesis
    using card_set_task(1) [OF l(1)] card_set_task(1) [OF c(1)] unfolding holds_slots_def by auto
qed

text \<open>The same for a budget.\<close>

lemma holds_budgets_admits:
  assumes "holds_budgets s cap slots" and "tasks s i = Linked t c" and "try_acquire t (hub_of s) = (Some sem, h)"
  shows "\<exists>cap'. holds_budgets (set_task i (Relaying t c sem) h s) cap' (sem # slots)"
proof -
  have c: "finite (tasks_where (relaying_on x) s)" "count_list slots x = card (tasks_where (relaying_on x) s)" for x
    using assms(1) by (simp_all add: holds_budgets_def)
  have "budgets_ok cap slots (hub_of s)" using assms(1) by (simp add: holds_budgets_def)
  from try_acquire_ok [OF this assms(3)] obtain cap' where "budgets_ok cap' (sem # slots) h" by auto
  moreover have "count_list (sem # slots) x = card (tasks_where (relaying_on x) (set_task i (Relaying t c sem) h s))" for x
    using card_set_task(2) [OF c(1) [of x], of i "Relaying t c sem" h] c(2) [of x] assms(2) by auto
  ultimately show ?thesis
    using card_set_task(1) [OF c(1)] unfolding holds_budgets_def by auto
qed

lemma holds_budgets_limits:
  assumes "holds_budgets s cap slots" and "tasks s i = Linked t c" and "try_acquire t (hub_of s) = (None, h)"
  shows "\<exists>cap'. holds_budgets (set_task i Done h s) cap' slots"
proof -
  have "budgets_ok cap slots (hub_of s)" using assms(1) by (simp add: holds_budgets_def)
  from try_acquire_ok [OF this assms(3)] obtain cap' where "budgets_ok cap' slots h" by auto
  moreover have "tasks_where (relaying_on x) (set_task i Done h s) = tasks_where (relaying_on x) s" for x
    by (rule tasks_where_quiet) (simp_all add: assms(2))
  ultimately show ?thesis
    using assms(1) unfolding holds_budgets_def by auto
qed

lemma holds_budgets_given_back:
  assumes "holds_budgets s cap slots" and "tasks s i = Relaying t c sem"
  shows "holds_budgets (set_task i Done (release_slot sem (hub_of s)) s) cap (remove1 sem slots)"
proof -
  have c: "finite (tasks_where (relaying_on x) s)" "count_list slots x = card (tasks_where (relaying_on x) s)" for x
    using assms(1) by (simp_all add: holds_budgets_def)
  have mem: "sem \<in> set slots" by (rule held_mem [where i = i, OF c(1) _ c(2)]) (simp add: assms(2))
  have "count_list (remove1 sem slots) x = card (tasks_where (relaying_on x) (set_task i Done (release_slot sem (hub_of s)) s))" for x
    using card_set_task(2) [OF c(1) [of x], of i Done "release_slot sem (hub_of s)"] c(2) [of x] assms(2)
    by (auto simp: count_list_remove1 [OF mem])
  moreover have "budgets_ok cap (remove1 sem slots) (release_slot sem (hub_of s))"
    using release_slot_ok mem assms(1) by (simp add: holds_budgets_def)
  ultimately show ?thesis using card_set_task(1) [OF c(1)] unfolding holds_budgets_def by auto
qed

text \<open>Every step of the server.\<close>

lemma quiet_slots:
  "try_pending a h = (b, h1) \<Longrightarrow> budgets h1 = budgets h \<and> sem_free h1 = sem_free h \<and> sem_next h1 = sem_next h"
  "try_acquire t h = (r, h1) \<Longrightarrow> handshakes h1 = handshakes h \<and> pending_by_ip h1 = pending_by_ip h"
  by (auto simp: try_pending_def try_acquire_def budget_entry_def Let_def
      split: if_splits option.splits prod.splits)

lemma quiet_slot_updates:
  "budgets (drop_pending a h) = budgets h" "sem_free (drop_pending a h) = sem_free h"
  "sem_next (drop_pending a h) = sem_next h"
  "handshakes (release_slot sem h) = handshakes h" "pending_by_ip (release_slot sem h) = pending_by_ip h"
  by (auto simp: drop_pending_def release_slot_def split: option.split)

definition same_slots :: "hub \<Rightarrow> hub \<Rightarrow> bool" where
  "same_slots h h1 \<longleftrightarrow> handshakes h1 = handshakes h \<and> pending_by_ip h1 = pending_by_ip h
     \<and> budgets h1 = budgets h \<and> sem_free h1 = sem_free h \<and> sem_next h1 = sem_next h"

lemma same_slots_ops:
  "same_slots h h" "same_slots h (snd (refuse h))" "same_slots h (check_session i t h)"
  "same_slots h (cancel_replaced old h)" "same_slots h (end_session t n h)"
  "insert_session i t h = (n, old, h1) \<Longrightarrow> same_slots h h1"
  by (auto simp: same_slots_def refuse_def check_session_def cancel_replaced_def cancel_def end_session_def
      insert_session_def Let_def split: option.split)

text \<open>A task that uses no slot, before and after.\<close>

fun idle :: "task \<Rightarrow> bool" where
  "idle (Handshaking a c) \<longleftrightarrow> False"
| "idle (Relaying t c sem) \<longleftrightarrow> False"
| "idle k \<longleftrightarrow> True"

lemma idle_D: "idle k \<Longrightarrow> \<not> handshaking k" "idle k \<Longrightarrow> \<not> relaying_on x k"
  by (cases k; simp)+

lemma slots_inv_idle:
  assumes "slots_inv s" and "same_slots (hub_of s) h" and "idle (tasks s i)" "idle k"
  shows "slots_inv (set_task i k h s)"
proof -
  obtain held cap slots where "holds_slots s held" "holds_budgets s cap slots"
    using assms(1) unfolding slots_inv_def by blast
  with assms(2-) have "holds_slots (set_task i k h s) held" "holds_budgets (set_task i k h s) cap slots"
    by (auto intro!: holds_slots_quiet holds_budgets_quiet simp: same_slots_def idle_D)
  then show ?thesis unfolding slots_inv_def by blast
qed

lemma slots_inv_fields [simp]:
  "slots_inv (s\<lparr>auth_as := m\<rparr>) = slots_inv s" "slots_inv (s\<lparr>started := n\<rparr>) = slots_inv s"
  by (simp_all add: slots_inv_def holds_slots_def holds_budgets_def tasks_where_def)

lemma slots_inv_applies:
  assumes "slots_inv s"
    and "\<And>held. slots_ok held (hub_of s) \<Longrightarrow> slots_ok held h"
    and "\<And>cap slots. budgets_ok cap slots (hub_of s) \<Longrightarrow> budgets_ok cap slots h"
  shows "slots_inv (s\<lparr>hub_of := h, appliers := ap\<rparr>)"
proof -
  obtain held cap slots where b: "holds_slots s held" "holds_budgets s cap slots"
    using assms(1) unfolding slots_inv_def by blast
  let ?s = "s\<lparr>hub_of := h, appliers := ap\<rparr>"
  have tw: "tasks_where P ?s = tasks_where P s" for P by (simp add: tasks_where_def)
  have "holds_slots ?s held" using b(1) assms(2) by (simp add: holds_slots_def tw)
  moreover have "holds_budgets ?s cap slots" using b(2) assms(3) by (simp add: holds_budgets_def tw)
  ultimately show ?thesis unfolding slots_inv_def by blast
qed

lemma slots_inv_accepted:
  assumes "slots_inv s" and "tasks s i = Fresh" and "try_pending a (hub_of s) = (True, h)"
  shows "slots_inv (set_task i (Handshaking a cs) h s)"
proof -
  obtain held cap slots where b: "holds_slots s held" "holds_budgets s cap slots"
    using assms(1) unfolding slots_inv_def by blast
  have "holds_budgets (set_task i (Handshaking a cs) h s) cap slots"
    by (rule holds_budgets_quiet [OF b(2)]) (simp_all add: quiet_slots(1) [OF assms(3)] assms(2))
  with holds_slots_accepted [OF b(1) assms(2,3)] show ?thesis unfolding slots_inv_def by blast
qed

lemma slots_inv_given_back:
  assumes "slots_inv s" and "tasks s i = Handshaking a cs" and "idle k"
  shows "slots_inv (set_task i k (drop_pending a (hub_of s)) s)"
proof -
  obtain held cap slots where b: "holds_slots s held" "holds_budgets s cap slots"
    using assms(1) unfolding slots_inv_def by blast
  have "holds_budgets (set_task i k (drop_pending a (hub_of s)) s) cap slots"
    by (rule holds_budgets_quiet [OF b(2)]) (simp_all add: quiet_slot_updates assms(2) idle_D [OF assms(3)])
  with holds_slots_given_back [OF b(1) assms(2) idle_D(1) [OF assms(3)]] show ?thesis
    unfolding slots_inv_def by blast
qed

lemma slots_inv_acquires:
  assumes "slots_inv s" and "tasks s i = Linked t c" and "try_acquire t (hub_of s) = (r, h)"
  shows "slots_inv (set_task i (case r of None \<Rightarrow> Done | Some sem \<Rightarrow> Relaying t c sem) h s)"
proof -
  obtain held cap slots where b: "holds_slots s held" "holds_budgets s cap slots"
    using assms(1) unfolding slots_inv_def by blast
  have "holds_slots (set_task i (case r of None \<Rightarrow> Done | Some sem \<Rightarrow> Relaying t c sem) h s) held"
    by (rule holds_slots_quiet [OF b(1)])
      (simp_all add: quiet_slots(2) [OF assms(3)] assms(2) split: option.split)
  moreover have "\<exists>cap slots. holds_budgets (set_task i (case r of None \<Rightarrow> Done | Some sem \<Rightarrow> Relaying t c sem) h s) cap slots"
    using holds_budgets_limits [OF b(2) assms(2)] holds_budgets_admits [OF b(2) assms(2)] assms(3)
    by (cases r) auto
  ultimately show ?thesis unfolding slots_inv_def by blast
qed

lemma slots_inv_relayed:
  assumes "slots_inv s" and "tasks s i = Relaying t c sem"
  shows "slots_inv (set_task i Done (release_slot sem (hub_of s)) s)"
proof -
  obtain held cap slots where b: "holds_slots s held" "holds_budgets s cap slots"
    using assms(1) unfolding slots_inv_def by blast
  have "holds_slots (set_task i Done (release_slot sem (hub_of s)) s) held"
    by (rule holds_slots_quiet [OF b(1)]) (simp_all add: quiet_slot_updates assms(2))
  with holds_budgets_given_back [OF b(2) assms(2)] show ?thesis unfolding slots_inv_def by blast
qed

lemma hstep_slots [invariants]:
  assumes "hstep s s'" and "slots_inv s"
  shows "slots_inv s'"
  using assms(1)
proof cases
  case (accepted i a h now)
  show ?thesis unfolding accepted(1) by (rule slots_inv_accepted [OF assms(2) accepted(2,3)])
next
  case (turned_away i a h)
  obtain held cap slots where b: "holds_slots s held" "holds_budgets s cap slots"
    using assms(2) unfolding slots_inv_def by blast
  have "slots_ok held h"
    using try_pending_ok [of held "hub_of s" a] b(1) turned_away(3) by (simp add: holds_slots_def)
  then have "holds_slots (set_task i Done (snd (refuse h)) s) held"
    using b(1) tasks_where_quiet [where k = Done and s = s and i = i] turned_away(2)
    by (auto simp: holds_slots_def slots_ok_def refuse_def Let_def)
  moreover have "holds_budgets (set_task i Done (snd (refuse h)) s) cap slots"
    by (rule holds_budgets_quiet [OF b(2)])
      (simp_all add: quiet_slots(1) [OF turned_away(3)] turned_away(2) refuse_def Let_def)
  ultimately show ?thesis unfolding turned_away(1) slots_inv_def by blast
next
  case (authenticated i a c k t)
  then show ?thesis using slots_inv_given_back [OF assms(2) authenticated(2), of "Authed t"] by simp
next
  case (left i a c)
  show ?thesis unfolding left(1) by (rule slots_inv_given_back [OF assms(2) left(2)]) simp
next
  case (inserts i t n old h)
  then have "slots_inv (set_task i (Inserted t n old) h s)"
    by (intro slots_inv_idle [OF assms(2)]) (auto intro: same_slots_ops)
  then show ?thesis unfolding inserts(1) by simp
next
  case (admits i t c sem h)
  show ?thesis unfolding admits(1) using slots_inv_acquires [OF assms(2) admits(2,3)] by simp
next
  case (limits i t c h)
  show ?thesis unfolding limits(1) using slots_inv_acquires [OF assms(2) limits(2,3)] by simp
next
  case (relayed i t c sem)
  show ?thesis unfolding relayed(1) by (rule slots_inv_relayed [OF assms(2) relayed(2)])
next
  case (publishes a "next")
  show ?thesis unfolding publishes(1)
    by (rule slots_inv_applies [OF assms(2)]) (simp_all add: slots_ok_def budgets_ok_def publish_def)
next
  case (sweeps a "next")
  show ?thesis unfolding sweeps(1)
    by (rule slots_inv_applies [OF assms(2)]) (simp_all add: slots_ok_def budgets_ok_def sweep_def)
next
  case (prunes a "next")
  show ?thesis unfolding prunes(1)
    by (rule slots_inv_applies [OF assms(2)])
      (auto simp: slots_ok_def budgets_ok_def prune_budgets_def split: if_splits)
qed (auto intro!: slots_inv_idle [OF assms(2)] intro: same_slots_ops)

text \<open>A relay that holds a slot of a tenant's current budget is that tenant's.\<close>

definition owners_ok :: "system \<Rightarrow> bool" where
  "owners_ok s \<longleftrightarrow> (\<forall>i t c sem n cap. tasks s i = Relaying t c sem \<and> budgets (hub_of s) n = Some (cap, sem) \<longrightarrow> n = tname t)"

lemma slots_inv_bound:
  assumes "slots_inv s" and "tasks s i = Relaying t c sem"
  shows "sem < sem_next (hub_of s)"
proof -
  obtain cap slots where b: "holds_budgets s cap slots" using assms(1) unfolding slots_inv_def by blast
  then have "sem \<in> set slots"
    by (intro held_mem [where i = i and P = "relaying_on sem" and s = s]) (simp_all add: holds_budgets_def assms(2))
  with b show ?thesis by (simp add: holds_budgets_def budgets_ok_def)
qed

lemma try_acquire_budgets:
  assumes "try_acquire t h = (r, h1)" and "budgets h1 n = Some (cap, sem)"
  shows "budgets h n = Some (cap, sem) \<or> (n = tname t \<and> sem = sem_next h)"
  using assms by (auto simp: try_acquire_def budget_entry_def split: option.splits if_splits prod.splits)

lemma try_acquire_sem:
  assumes "try_acquire t h = (Some x, h1)"
  shows "\<exists>cap. budgets h1 (tname t) = Some (cap, x)"
  using assms by (auto simp: try_acquire_def budget_entry_def split: option.splits if_splits prod.splits)

lemma owners_task:
  assumes "owners_ok s" and "\<And>n cap sem. budgets h n = Some (cap, sem) \<Longrightarrow> budgets (hub_of s) n = Some (cap, sem)"
    and "\<And>t c sem. k \<noteq> Relaying t c sem"
  shows "owners_ok (set_task i k h s)"
  using assms unfolding owners_ok_def by (auto simp: set_task_def split: if_splits; blast)

lemma owners_acquires:
  assumes "owners_ok s" and "slots_inv s" and "tasks s i = Linked t c" and "try_acquire t (hub_of s) = (r, h)"
    and "slots_inv (set_task i (case r of None \<Rightarrow> Done | Some sem \<Rightarrow> Relaying t c sem) h s)"
  shows "owners_ok (set_task i (case r of None \<Rightarrow> Done | Some sem \<Rightarrow> Relaying t c sem) h s)"
  unfolding owners_ok_def
proof (intro allI impI)
  let ?k = "case r of None \<Rightarrow> Done | Some sem \<Rightarrow> Relaying t c sem"
  fix j u d sem n cap
  assume j: "tasks (set_task i ?k h s) j = Relaying u d sem \<and> budgets (hub_of (set_task i ?k h s)) n = Some (cap, sem)"
  then have n: "budgets h n = Some (cap, sem)" by simp
  show "n = tname u"
  proof (cases "j = i")
    case True
    with j have r: "r = Some sem" "u = t" by (auto simp: set_task_def split: option.splits)
    from try_acquire_sem [OF assms(4) [unfolded r(1)]] obtain cap' where "budgets h (tname t) = Some (cap', sem)" by blast
    moreover obtain cap'' slots where "budgets_ok cap'' slots h"
      using assms(5) by (auto simp: slots_inv_def holds_budgets_def)
    ultimately show ?thesis using n r(2) unfolding budgets_ok_def by blast
  next
    case False
    with j have old: "tasks s j = Relaying u d sem" by (simp add: set_task_def)
    from try_acquire_budgets [OF assms(4) n] slots_inv_bound [OF assms(2) old]
    have "budgets (hub_of s) n = Some (cap, sem)" by auto
    with assms(1) old show ?thesis unfolding owners_ok_def by blast
  qed
qed

lemma owners_hub:
  assumes "owners_ok s" and "\<And>n cap sem. budgets h n = Some (cap, sem) \<Longrightarrow> budgets (hub_of s) n = Some (cap, sem)"
  shows "owners_ok (s\<lparr>hub_of := h, appliers := ap\<rparr>)"
  using assms unfolding owners_ok_def by simp blast

lemma owners_fields [simp]: "owners_ok (s\<lparr>auth_as := m\<rparr>) = owners_ok s" "owners_ok (s\<lparr>started := n\<rparr>) = owners_ok s"
  by (simp_all add: owners_ok_def)

lemma hstep_owners [invariants]:
  assumes "hstep s s'" and "owners_ok s" and "slots_inv s"
  shows "owners_ok s'"
  using assms(1)
proof cases
  case (turned_away i a h)
  then show ?thesis
    by (auto intro!: owners_task [OF assms(2)] simp: refuse_def Let_def quiet_slots(1) [OF turned_away(3)])
next
  case (accepted i a h now)
  then show ?thesis by (auto intro!: owners_task [OF assms(2)] simp: quiet_slots(1) [OF accepted(3)])
next
  case (authenticated i a c k t)
  then show ?thesis by (auto intro!: owners_task [OF assms(2)] simp: quiet_slot_updates)
next
  case (left i a c)
  then show ?thesis by (auto intro!: owners_task [OF assms(2)] simp: quiet_slot_updates)
next
  case (inserts i t n old h)
  then have "same_slots (hub_of s) h" by (auto intro: same_slots_ops)
  with inserts show ?thesis by (auto intro!: owners_task [OF assms(2)] simp: same_slots_def)
next
  case (admits i t c sem h)
  show ?thesis unfolding admits(1)
    using owners_acquires [OF assms(2,3) admits(2,3)] slots_inv_acquires [OF assms(3) admits(2,3)] by simp
next
  case (limits i t c h)
  show ?thesis unfolding limits(1)
    using owners_acquires [OF assms(2,3) limits(2,3)] slots_inv_acquires [OF assms(3) limits(2,3)] by simp
next
  case (relayed i t c sem)
  then show ?thesis by (auto intro!: owners_task [OF assms(2)] simp: release_slot_def)
next
  case (publishes a "next")
  then show ?thesis by (auto intro!: owners_hub [OF assms(2)] simp: publish_def)
next
  case (sweeps a "next")
  then show ?thesis by (auto intro!: owners_hub [OF assms(2)] simp: sweep_def)
next
  case (prunes a "next")
  then show ?thesis by (auto intro!: owners_hub [OF assms(2)] simp: prune_budgets_def split: if_splits)
next
  case (checks i t n old)
  then show ?thesis using same_slots_ops(3) [of "hub_of s" i t] by (auto intro!: owners_task [OF assms(2)] simp: same_slots_def)
next
  case (evicts i t n old)
  then show ?thesis using same_slots_ops(4) [of "hub_of s" old] by (auto intro!: owners_task [OF assms(2)] simp: same_slots_def)
next
  case (ends i t n)
  then show ?thesis using same_slots_ops(5) [of "hub_of s" t n] by (auto intro!: owners_task [OF assms(2)] simp: same_slots_def)
qed (auto intro!: owners_task [OF assms(2)])

lemma release_slot_budgets: "budgets (release_slot sem h) = budgets h"
  by (simp add: release_slot_def)

lemma tstep_slots:
  assumes "tstep p q" and "slots_inv (fst p) \<and> owners_ok (fst p)"
  shows "slots_inv (fst q) \<and> owners_ok (fst q)"
  using assms
proof cases
  case (acts s s' c)
  with assms(2) show ?thesis using hstep_slots hstep_owners by auto
next
  case (drops_handshake s i a cs)
  with assms(2) show ?thesis by (auto intro!: slots_inv_given_back owners_task simp: quiet_slot_updates)
next
  case (drops_session s i t n)
  with assms(2) show ?thesis by (auto intro!: slots_inv_idle owners_task same_slots_ops)
next
  case (drops_relay s i t c sem)
  with assms(2) show ?thesis by (auto intro!: slots_inv_relayed owners_task simp: release_slot_budgets)
qed (use assms(2) in simp)

lemma treach_slots: "treach initial p \<Longrightarrow> slots_inv (fst p) \<and> owners_ok (fst p)"
proof (induction rule: rtranclp_induct)
  case base
  show ?case by (simp add: slots_inv_start) (simp add: owners_ok_def system_start_def)
next
  case (step p q)
  show ?case by (rule tstep_slots [OF step.hyps(2) step.IH])
qed

lemma hreach_treach: "hstep\<^sup>*\<^sup>* s s' \<Longrightarrow> tstep\<^sup>*\<^sup>* (s, c) (s', c)"
  by (induction rule: rtranclp_induct) (auto intro: rtranclp.rtrancl_into_rtrancl acts)

section \<open>Properties\<close>



end
