(* ===== verification/Pump.thy ===== *)
theory Pump
  imports Frame
begin

text \<open>
  The byte pump (\<open>proxy.rs\<close>). A \<open>feed\<close> is a readable stream: the segments in which its bytes
  will arrive, and what comes after them. A \<open>sink\<close> is a writable stream that can be shut down.
  One \<open>read\<close> returns what has arrived of the first segment, at most \<open>BUF_SIZE\<close> bytes, and an
  empty read is the end of the stream. \<open>feed\<close> interprets the reader contract of \<open>Frame\<close>, \<open>sink\<close>
  its writer contract, and \<open>pump\<close> is proved correct for every writer of that contract.
\<close>

section \<open>Streams\<close>

datatype ending = EndOfStream | Broken io_error | Silent

record feed =
  segs :: "byte list list"
  fin :: ending

definition feed_bytes :: "feed \<Rightarrow> byte list" where
  "feed_bytes f = concat (segs f)"

definition fin_error :: "ending \<Rightarrow> io_error" where
  "fin_error en = (case en of EndOfStream \<Rightarrow> UnexpectedEof | Broken e \<Rightarrow> e | Silent \<Rightarrow> Stalled)"

text \<open>The segments that are left when \<open>n\<close> bytes have been taken.\<close>

fun drop_bytes :: "nat \<Rightarrow> 'a list list \<Rightarrow> 'a list list" where
  "drop_bytes n [] = []"
| "drop_bytes n (s # ss) =
     (if length s \<le> n then drop_bytes (n - length s) ss else drop n s # ss)"

lemma concat_drop_bytes [simp]: "concat (drop_bytes n ss) = drop n (concat ss)"
  by (induction n ss rule: drop_bytes.induct) auto

definition feed_read_exact :: "nat \<Rightarrow> (feed, io_error, byte list) step" where
  "feed_read_exact n f =
     (if n \<le> length (feed_bytes f)
      then (Inr (take n (feed_bytes f)), f\<lparr>segs := drop_bytes n (segs f)\<rparr>)
      else (Inl (fin_error (fin f)), f\<lparr>segs := []\<rparr>))"

interpretation feed: exact_reader feed_read_exact feed_bytes
  by unfold_locales (auto simp: feed_read_exact_def feed_bytes_def split: if_splits)

record sink =
  out :: outbound
  shut :: bool

definition sink_bytes :: "sink \<Rightarrow> byte list" where
  "sink_bytes k = sent (out k)"

definition sink_write :: "byte list \<Rightarrow> (sink, io_error, unit) step" where
  "sink_write bs k = (case write_all bs (out k) of (r, q) \<Rightarrow> (r, k\<lparr>out := q\<rparr>))"

definition sink_flush :: "(sink, io_error, unit) step" where
  "sink_flush k = (Inr (), k)"

definition sink_shutdown :: "sink \<Rightarrow> sink" where
  "sink_shutdown k = k\<lparr>shut := True\<rparr>"

definition new_sink :: sink where
  "new_sink = \<lparr>out = \<lparr>sent = [], room = None\<rparr>, shut = False\<rparr>"

interpretation snk: byte_sink sink_write sink_flush sink_bytes
proof
  fix bs k k' e and u :: unit and r :: "io_error + unit"
  show "sink_write bs k = (Inr u, k') \<Longrightarrow> sink_bytes k' = sink_bytes k @ bs"
    by (auto simp: sink_write_def sink_bytes_def dest: outb.wr_ok split: prod.splits)
  show "sink_write bs k = (Inl e, k') \<Longrightarrow> \<exists>n<length bs. sink_bytes k' = sink_bytes k @ take n bs"
    by (auto simp: sink_write_def sink_bytes_def dest: outb.wr_err split: prod.splits)
  show "sink_flush k = (r, k') \<Longrightarrow> sink_bytes k' = sink_bytes k"
    by (simp add: sink_flush_def)
qed

section \<open>The pump\<close>

definition BUF_SIZE :: nat where "BUF_SIZE = 16 * 1024"

text \<open>One read into a buffer of \<open>BUF_SIZE\<close> bytes; a segment without bytes is not seen.\<close>

definition feed_read :: "byte list list \<Rightarrow> (byte list \<times> byte list list) option" where
  "feed_read ss = (case dropWhile (\<lambda>s. s = []) ss of
     [] \<Rightarrow> None
   | s # rest \<Rightarrow> Some (take BUF_SIZE s,
       if length s \<le> BUF_SIZE then rest else drop BUF_SIZE s # rest))"

lemma concat_dropWhile_empty: "concat (dropWhile (\<lambda>s. s = []) ss) = concat ss"
  by (induction ss) auto

lemma feed_read_None: "feed_read ss = None \<longleftrightarrow> concat ss = []"
proof -
  have "feed_read ss = None \<longleftrightarrow> dropWhile (\<lambda>s. s = []) ss = []"
    unfolding feed_read_def
    by (cases "dropWhile (\<lambda>s. s = []) ss") (simp_all del: dropWhile_eq_Nil_conv)
  also have "\<dots> \<longleftrightarrow> concat ss = []" by (simp add: dropWhile_eq_Nil_conv concat_eq_Nil_conv)
  finally show ?thesis .
qed

lemma feed_read_Some:
  assumes "feed_read ss = Some (bs, ss')"
  shows "concat ss = bs @ concat ss' \<and> bs \<noteq> [] \<and> length bs \<le> BUF_SIZE"
proof -
  obtain s rest where d: "dropWhile (\<lambda>s. s = []) ss = s # rest"
    and b: "bs = take BUF_SIZE s" "ss' = (if length s \<le> BUF_SIZE then rest else drop BUF_SIZE s # rest)"
    using assms by (auto simp: feed_read_def split: list.splits)
  have "s \<noteq> []" using hd_dropWhile [of "\<lambda>s. s = []" ss] d by auto
  moreover have "concat ss = s @ concat rest"
    using concat_dropWhile_empty [of ss] d by simp
  ultimately show ?thesis using b by (auto simp: BUF_SIZE_def)
qed

function pump ::
  "(byte list \<Rightarrow> ('w, io_error, unit) step) \<Rightarrow> ('w \<Rightarrow> 'w) \<Rightarrow> byte list list \<Rightarrow> ending \<Rightarrow> 'w \<Rightarrow> u64
    \<Rightarrow> (io_error + unit) \<times> 'w \<times> u64" where
  "pump wr sd ss en w counter = (case feed_read ss of
     None \<Rightarrow> (if en = EndOfStream then (Inr (), sd w, counter) else (Inl (fin_error en), w, counter))
   | Some (bs, ss') \<Rightarrow> (case wr bs w of
        (Inl e, w') \<Rightarrow> (Inl e, w', counter)
      | (Inr _, w') \<Rightarrow> pump wr sd ss' en w' (counter + word_of_nat (length bs))))"
  by pat_completeness auto
termination
  by (relation "measure (\<lambda>(wr, sd, ss, en, w, counter). length (concat ss))")
    (auto dest!: feed_read_Some)

declare pump.simps [simp del]

text \<open>
  Both directions at once. \<open>join!\<close> waits for the two tasks whatever the first one returns, so a
  direction that is still pending keeps the whole pipe pending.
\<close>

definition pipe_bidirectional_tracked ::
  "feed \<Rightarrow> sink \<Rightarrow> feed \<Rightarrow> sink \<Rightarrow> u64 \<Rightarrow> u64 \<Rightarrow> (io_error + unit) \<times> sink \<times> sink \<times> u64 \<times> u64" where
  "pipe_bidirectional_tracked ar aw br bw a_to_b b_to_a =
     (case pump sink_write sink_shutdown (segs ar) (fin ar) bw a_to_b of (r1, bw', n1) \<Rightarrow>
      (case pump sink_write sink_shutdown (segs br) (fin br) aw b_to_a of (r2, aw', n2) \<Rightarrow>
        (if r1 = Inl Stalled \<or> r2 = Inl Stalled then Inl Stalled else rbind r1 (\<lambda>_. r2),
         aw', bw', n1, n2)))"

section \<open>What the pump does\<close>

locale closable_sink = byte_sink +
  fixes sd :: "'a \<Rightarrow> 'a"
  assumes sd_out: "out (sd w) = out w"
begin

text \<open>
  Whatever happens, the bytes that left are a prefix of the bytes that arrive, in order; all of
  them when the pump returns without an error. The counter is exact up to the write that failed.
\<close>

lemma pump_prefix:
  "pump wr sd ss en w c = (r, w', c') \<Longrightarrow>
     \<exists>m k. m \<le> k \<and> k \<le> length (concat ss) \<and> out w' = out w @ take k (concat ss)
       \<and> c' = c + word_of_nat m \<and> (r = Inr () \<longrightarrow> m = length (concat ss) \<and> en = EndOfStream)"
proof (induction "length (concat ss)" arbitrary: ss w c rule: less_induct)
  case less
  show ?case
  proof (cases "feed_read ss")
    case None
    then have "concat ss = []" by (simp add: feed_read_None)
    with None less.prems show ?thesis
      by (auto simp: pump.simps [of wr sd ss] sd_out simp del: concat_eq_Nil_conv
          split: if_splits intro!: exI [of _ 0])
  next
    case (Some p)
    obtain bs ss' where p: "p = (bs, ss')" by force
    from Some p have rd: "concat ss = bs @ concat ss'" "bs \<noteq> []"
      by (auto dest: feed_read_Some)
    show ?thesis
    proof (cases "wr bs w")
      case (Pair q w1)
      show ?thesis
      proof (cases q)
        case (Inl e)
        with Pair wr_err obtain k where "k < length bs" "out w1 = out w @ take k bs" by blast
        moreover have "r = Inl e" "w' = w1" "c' = c"
          using less.prems Some p Pair Inl by (auto simp: pump.simps [of wr sd ss])
        ultimately show ?thesis
          using rd by (intro exI [of _ 0] exI [of _ k]) simp
      next
        case (Inr u)
        with Pair wr_ok have o: "out w1 = out w @ bs" by blast
        have "pump wr sd ss' en w1 (c + word_of_nat (length bs)) = (r, w', c')"
          using less.prems Some p Pair Inr by (simp add: pump.simps [of wr sd ss])
        then obtain m k where "m \<le> k" "k \<le> length (concat ss')" "out w' = out w1 @ take k (concat ss')"
            "c' = c + word_of_nat (length bs) + word_of_nat m"
            "r = Inr () \<longrightarrow> m = length (concat ss') \<and> en = EndOfStream"
          using less.hyps [of ss' w1 "c + word_of_nat (length bs)"] rd by auto
        then show ?thesis
          using rd o by (intro exI [of _ "length bs + m"] exI [of _ "length bs + k"]) auto
      qed
    qed
  qed
qed

end

interpretation snk: closable_sink sink_write sink_flush sink_bytes sink_shutdown
  by unfold_locales (simp add: sink_bytes_def sink_shutdown_def)

text \<open>On a sink that never fails the pump has a closed form.\<close>

definition sink_ok :: "sink \<Rightarrow> bool" where
  "sink_ok k \<longleftrightarrow> room (out k) = None"

definition sink_put :: "byte list \<Rightarrow> sink \<Rightarrow> sink" where
  "sink_put bs k = k\<lparr>out := (out k)\<lparr>sent := sent (out k) @ bs\<rparr>\<rparr>"

lemma sink_put_simps [simp]:
  "sink_ok (sink_put bs k) = sink_ok k" "shut (sink_put bs k) = shut k"
  "sink_bytes (sink_put bs k) = sink_bytes k @ bs" "sink_put bs (sink_put as k) = sink_put (as @ bs) k"
  "sink_put [] k = k"
  by (simp_all add: sink_put_def sink_ok_def sink_bytes_def)

lemma sink_write_open [simp]: "sink_ok k \<Longrightarrow> sink_write bs k = (Inr (), sink_put bs k)"
  by (simp add: sink_write_def write_all_def sink_ok_def sink_put_def)

lemma pump_open:
  "sink_ok k \<Longrightarrow> pump sink_write sink_shutdown ss en k c =
     (if en = EndOfStream then (Inr (), sink_shutdown (sink_put (concat ss) k), c + word_of_nat (length (concat ss)))
      else (Inl (fin_error en), sink_put (concat ss) k, c + word_of_nat (length (concat ss))))"
proof (induction "length (concat ss)" arbitrary: ss k c rule: less_induct)
  case less
  show ?case
  proof (cases "feed_read ss")
    case None
    then have "concat ss = []" by (simp add: feed_read_None)
    with None show ?thesis by (simp add: pump.simps [of _ _ ss] del: concat_eq_Nil_conv)
  next
    case (Some p)
    obtain bs ss' where p: "p = (bs, ss')" by force
    from Some p have rd: "concat ss = bs @ concat ss'" "bs \<noteq> []"
      by (auto dest: feed_read_Some)
    have "pump sink_write sink_shutdown ss en k c =
        pump sink_write sink_shutdown ss' en (sink_put bs k) (c + word_of_nat (length bs))"
      using Some p less.prems by (simp add: pump.simps [of _ _ ss])
    with less.hyps [of ss' "sink_put bs k" "c + word_of_nat (length bs)"] rd less.prems
    show ?thesis by (simp add: add.assoc)
  qed
qed

section \<open>Properties\<close>

text \<open>
  Splicing two connections moves every byte once and in order. If neither sink fails and both
  peers end their stream, each side has been sent exactly the other's bytes, both are shut down,
  and the two counters have grown by the two lengths (modulo \<open>2 ^ 64\<close>). In every other case what
  was sent is still a prefix of what arrived.
\<close>

theorem pipe_transparent:
  assumes "pipe_bidirectional_tracked ar aw br bw n m = (r, aw', bw', n', m')"
  shows "(\<exists>k. sink_bytes bw' = sink_bytes bw @ take k (feed_bytes ar))
    \<and> (\<exists>k. sink_bytes aw' = sink_bytes aw @ take k (feed_bytes br))
    \<and> (r = Inr () \<longrightarrow> sink_bytes bw' = sink_bytes bw @ feed_bytes ar
         \<and> sink_bytes aw' = sink_bytes aw @ feed_bytes br
         \<and> n' = n + word_of_nat (length (feed_bytes ar)) \<and> m' = m + word_of_nat (length (feed_bytes br)))
    \<and> (sink_ok aw \<and> sink_ok bw \<and> fin ar = EndOfStream \<and> fin br = EndOfStream \<longrightarrow>
         r = Inr () \<and> shut aw' \<and> shut bw')"
proof -
  obtain r1 r2 where p1: "pump sink_write sink_shutdown (segs ar) (fin ar) bw n = (r1, bw', n')"
    and p2: "pump sink_write sink_shutdown (segs br) (fin br) aw m = (r2, aw', m')"
    and r: "r = (if r1 = Inl Stalled \<or> r2 = Inl Stalled then Inl Stalled else rbind r1 (\<lambda>_. r2))"
    using assms by (auto simp: pipe_bidirectional_tracked_def split: prod.splits)
  obtain j k where 1: "j \<le> k" "k \<le> length (feed_bytes ar)" "sink_bytes bw' = sink_bytes bw @ take k (feed_bytes ar)"
    "n' = n + word_of_nat j" "r1 = Inr () \<longrightarrow> j = length (feed_bytes ar) \<and> fin ar = EndOfStream"
    using snk.pump_prefix [OF p1] unfolding feed_bytes_def by blast
  obtain j2 k2 where 2: "j2 \<le> k2" "k2 \<le> length (feed_bytes br)" "sink_bytes aw' = sink_bytes aw @ take k2 (feed_bytes br)"
    "m' = m + word_of_nat j2" "r2 = Inr () \<longrightarrow> j2 = length (feed_bytes br) \<and> fin br = EndOfStream"
    using snk.pump_prefix [OF p2] unfolding feed_bytes_def by blast
  have both: "r = Inr () \<Longrightarrow> r1 = Inr () \<and> r2 = Inr ()"
    using r by (auto simp: rbind_eq_Inr_iff split: if_splits)
  have "r = Inr () \<and> shut aw' \<and> shut bw'"
    if "sink_ok aw" "sink_ok bw" "fin ar = EndOfStream" "fin br = EndOfStream"
    using p1 p2 r that by (auto simp: pump_open sink_shutdown_def)
  with 1 2 both show ?thesis by auto
qed

definition feed_of :: "byte list list \<Rightarrow> feed" where
  "feed_of ss = \<lparr>segs = ss, fin = EndOfStream\<rparr>"

theorem pipe_transparent_witness:
  "\<exists>aw bw. pipe_bidirectional_tracked (feed_of [[1, 2], [3]]) new_sink (feed_of [[9]]) new_sink 0 0 =
     (Inr (), aw, bw, 3, 1) \<and> sink_bytes bw = [1, 2, 3] \<and> sink_bytes aw = [9]"
proof -
  obtain r aw bw n m where
    p: "pipe_bidirectional_tracked (feed_of [[1, 2], [3]]) new_sink (feed_of [[9]]) new_sink 0 0 = (r, aw, bw, n, m)"
    by (metis prod_cases5)
  have ok: "sink_ok new_sink" and e: "sink_bytes new_sink = []"
    by (simp_all add: new_sink_def sink_ok_def sink_bytes_def)
  note t = pipe_transparent [OF p]
  have "r = Inr ()" using t ok by (simp add: feed_of_def)
  with t e p show ?thesis by (simp add: feed_of_def feed_bytes_def)
qed

text \<open>
  The splice waits for both directions: when one has failed and the other's peer is silent, it
  has not returned, and the failed direction's sink has not been shut down.
\<close>

theorem pipe_waits_for_both:
  "pipe_bidirectional_tracked \<lparr>segs = ss, fin = Broken ConnectionReset\<rparr> aw \<lparr>segs = [], fin = Silent\<rparr> bw n m =
     (r, aw', bw', n', m') \<Longrightarrow> sink_ok bw \<Longrightarrow> r = Inl Stalled \<and> shut bw' = shut bw \<and> aw' = aw"
  by (auto simp: pipe_bidirectional_tracked_def pump_open fin_error_def pump.simps [of _ _ "[]"] feed_read_def
      split: prod.splits)

end
