(* ===== verification/Registry.thy ===== *)
theory Registry
  imports Prelude
begin

text \<open>
  The connection registry (\<open>stats.rs\<close>): live connections, running totals, the event log.

  The byte counters of a connection are shared atomics, so a \<open>conn_info\<close> holds the addresses
  of its two cells and the registry state holds the store the addresses point into: a clone of
  the handle reads what the pump counted. The two clocks the code reads are an argument, the
  \<open>Instant\<close> first and the wall clock second, in milliseconds. A log file holds the event of
  each line with its time stamp; the JSON text of a line is left to \<open>serde_json\<close>. \<open>emitted\<close> is
  every event sent on the broadcast channel.
\<close>

section \<open>State\<close>

datatype protocol = Tcp | Udp

definition show_protocol :: "protocol \<Rightarrow> string" where
  "show_protocol p = (case p of Tcp \<Rightarrow> ''tcp'' | Udp \<Rightarrow> ''udp'')"

type_synonym clocks = "nat \<times> nat"

record conn_info =
  conn_id :: u64
  label :: string
  protocol :: protocol
  source :: string
  destination :: string
  started_at :: nat
  bytes_in :: nat
  bytes_out :: nat

datatype event =
    ConnectionOpened u64 string protocol string string
  | ConnectionClosed u64 string protocol string string u64 u64 nat
  | Info string
  | Error string

definition event_line :: "event \<Rightarrow> string" where
  "event_line ev = (case ev of
     ConnectionOpened _ lb p src dst \<Rightarrow>
       ''[open] '' @ lb @ '' '' @ show_protocol p @ '' '' @ src @ '' -> '' @ dst
   | ConnectionClosed _ lb p src dst bi bo ms \<Rightarrow>
       ''[close] '' @ lb @ '' '' @ show_protocol p @ '' '' @ src @ '' -> '' @ dst @
       '' in='' @ show_nat (unat bi) @ ''B out='' @ show_nat (unat bo) @ ''B dur='' @ show_nat ms @ ''ms''
   | Info msg \<Rightarrow> ''[info] '' @ msg
   | Error msg \<Rightarrow> ''[error] '' @ msg)"

record json_line =
  ts_unix_ms :: nat
  line_event :: event

definition MAX_LOG_LINES :: nat where "MAX_LOG_LINES = 500"

record registry =
  next_id :: u64
  total_bytes_in :: u64
  total_bytes_out :: u64
  total_connections :: u64
  live :: "conn_info list"
  log_lines :: "string list"
  log_file :: "json_line list option"
  emitted :: "event list"
  cells :: "nat \<Rightarrow> u64"
  fresh_cell :: nat

definition registry_new :: registry where
  "registry_new = \<lparr>next_id = 1, total_bytes_in = 0, total_bytes_out = 0, total_connections = 0,
     live = [], log_lines = [], log_file = None, emitted = [], cells = (\<lambda>_. 0), fresh_cell = 0\<rparr>"

section \<open>Operations\<close>

definition push_line :: "string \<Rightarrow> string list \<Rightarrow> string list" where
  "push_line l ls = (if MAX_LOG_LINES \<le> length ls then tl ls else ls) @ [l]"

definition push_event :: "nat \<Rightarrow> event \<Rightarrow> registry \<Rightarrow> registry" where
  "push_event ts ev r = r\<lparr>
     log_lines := push_line (event_line ev) (log_lines r),
     emitted := emitted r @ [ev],
     log_file := map_option (\<lambda>f. f @ [\<lparr>ts_unix_ms = ts, line_event = ev\<rparr>]) (log_file r)\<rparr>"

definition set_log_file :: "'e + json_line list \<Rightarrow> registry \<Rightarrow> ('e + unit) \<times> registry" where
  "set_log_file opened r = (case opened of
     Inl e \<Rightarrow> (Inl e, r)
   | Inr old \<Rightarrow> (Inr (), r\<lparr>log_file := Some old\<rparr>))"

definition reg_info :: "nat \<Rightarrow> string \<Rightarrow> registry \<Rightarrow> registry" where
  "reg_info ts msg = push_event ts (Info msg)"

definition reg_error :: "nat \<Rightarrow> string \<Rightarrow> registry \<Rightarrow> registry" where
  "reg_error ts msg = push_event ts (Error msg)"

definition fetch_next_id :: "registry \<Rightarrow> u64 \<times> registry" where
  "fetch_next_id r = (next_id r, r\<lparr>next_id := next_id r + 1\<rparr>)"

text \<open>\<open>Arc::new(AtomicU64::new(0))\<close>\<close>

definition new_cell :: "registry \<Rightarrow> nat \<times> registry" where
  "new_cell r = (fresh_cell r, r\<lparr>cells := (cells r)(fresh_cell r := 0), fresh_cell := fresh_cell r + 1\<rparr>)"

definition count_bytes :: "nat \<Rightarrow> u64 \<Rightarrow> registry \<Rightarrow> registry" where
  "count_bytes cell n r = r\<lparr>cells := (cells r)(cell := cells r cell + n)\<rparr>"

definition reg_open ::
  "clocks \<Rightarrow> string \<Rightarrow> protocol \<Rightarrow> string \<Rightarrow> string \<Rightarrow> registry \<Rightarrow> conn_info \<times> registry" where
  "reg_open now lb p src dst r =
     (let (i, r1) = fetch_next_id r;
          (ci, r2) = new_cell r1;
          (co, r3) = new_cell r2;
          h = \<lparr>conn_id = i, label = lb, protocol = p, source = src, destination = dst,
               started_at = fst now, bytes_in = ci, bytes_out = co\<rparr>;
          r4 = r3\<lparr>total_connections := total_connections r3 + 1\<rparr>;
          r5 = r4\<lparr>live := live r4 @ [h]\<rparr>
      in (h, push_event (snd now) (ConnectionOpened i lb p src dst) r5))"

text \<open>
  \<open>close\<close> in the order of its effects. Another task can read the totals between the first and
  the second.
\<close>

definition close_totals :: "conn_info \<Rightarrow> registry \<Rightarrow> registry" where
  "close_totals h r = r\<lparr>total_bytes_in := total_bytes_in r + cells r (bytes_in h),
     total_bytes_out := total_bytes_out r + cells r (bytes_out h)\<rparr>"

definition close_live :: "conn_info \<Rightarrow> registry \<Rightarrow> registry" where
  "close_live h r = r\<lparr>live := filter (\<lambda>c. conn_id c \<noteq> conn_id h) (live r)\<rparr>"

definition reg_close :: "clocks \<Rightarrow> conn_info \<Rightarrow> registry \<Rightarrow> registry" where
  "reg_close now h r =
     (let bi = cells r (bytes_in h); bo = cells r (bytes_out h)
      in push_event (snd now)
           (ConnectionClosed (conn_id h) (label h) (protocol h) (source h) (destination h) bi bo
              (fst now - started_at h))
           (close_live h (close_totals h r)))"

record totals =
  live_connections :: nat
  all_connections :: u64
  all_bytes_in :: u64
  all_bytes_out :: u64

definition reg_totals :: "registry \<Rightarrow> totals" where
  "reg_totals r =
     (let live_in = sum_list (map (\<lambda>c. cells r (bytes_in c)) (live r));
          live_out = sum_list (map (\<lambda>c. cells r (bytes_out c)) (live r))
      in \<lparr>live_connections = length (live r), all_connections = total_connections r,
          all_bytes_in = total_bytes_in r + live_in, all_bytes_out = total_bytes_out r + live_out\<rparr>)"

section \<open>The log\<close>

lemma push_line_last:
  assumes "ls = drop (length es - MAX_LOG_LINES) es"
  shows "push_line l ls = drop (length (es @ [l]) - MAX_LOG_LINES) (es @ [l])"
proof (cases "MAX_LOG_LINES \<le> length es")
  case True
  then have "length ls = MAX_LOG_LINES" using assms by simp
  moreover from True have "tl ls = drop (Suc (length es) - MAX_LOG_LINES) es"
    by (simp add: assms tl_drop drop_Suc [symmetric] Suc_diff_le drop_tl)
  ultimately show ?thesis by (simp add: push_line_def MAX_LOG_LINES_def)
next
  case False
  with assms show ?thesis by (auto simp: push_line_def MAX_LOG_LINES_def)
qed

text \<open>The log is the last \<open>MAX_LOG_LINES\<close> events, formatted.\<close>

definition log_ok :: "registry \<Rightarrow> bool" where
  "log_ok r \<longleftrightarrow> log_lines r =
     drop (length (emitted r) - MAX_LOG_LINES) (map event_line (emitted r))"

lemma log_ok_push [invariants]: "log_ok r \<Longrightarrow> log_ok (push_event ts ev r)"
  using push_line_last [of "log_lines r" "map event_line (emitted r)" "event_line ev"]
  by (simp add: log_ok_def push_event_def)

lemma log_ok_cong:
  "log_lines r' = log_lines r \<Longrightarrow> emitted r' = emitted r \<Longrightarrow> log_ok r' = log_ok r"
  by (simp add: log_ok_def)

lemma push_event_simps [simp]:
  "next_id (push_event ts ev r) = next_id r" "live (push_event ts ev r) = live r"
  "total_bytes_in (push_event ts ev r) = total_bytes_in r"
  "total_bytes_out (push_event ts ev r) = total_bytes_out r"
  "total_connections (push_event ts ev r) = total_connections r"
  "cells (push_event ts ev r) = cells r" "fresh_cell (push_event ts ev r) = fresh_cell r"
  "emitted (push_event ts ev r) = emitted r @ [ev]"
  by (simp_all add: push_event_def)

lemma log_ok_open [invariants]: "log_ok r \<Longrightarrow> log_ok (snd (reg_open now lb p src dst r))"
  unfolding reg_open_def fetch_next_id_def new_cell_def Let_def
  by (simp, rule log_ok_push) (simp add: log_ok_def)

lemma log_ok_close [invariants]: "log_ok r \<Longrightarrow> log_ok (reg_close now h r)"
  unfolding reg_close_def Let_def
  by (rule log_ok_push) (simp add: log_ok_def close_live_def close_totals_def)

section \<open>The ledger: what a registry promises\<close>

text \<open>
  The abstract state is a list with one row for each connection ever opened: the bytes moved in
  each direction, and whether it is still open. \<open>hs\<close> are the handles the callers hold, in the
  order of the opens.
\<close>

type_synonym ledger = "(u64 \<times> u64 \<times> bool) list"

abbreviation row_open :: "u64 \<times> u64 \<times> bool \<Rightarrow> bool" where "row_open row \<equiv> snd (snd row)"

datatype reg_op =
    OpenConn string protocol string string
  | Moved nat u64 u64
  | CloseConn nat
  | Say event
  | LogTo "json_line list"

fun reg_step :: "clocks \<Rightarrow> reg_op \<Rightarrow> registry \<times> conn_info list \<Rightarrow> registry \<times> conn_info list" where
  "reg_step now (OpenConn lb p src dst) (r, hs) =
     (case reg_open now lb p src dst r of (h, r') \<Rightarrow> (r', hs @ [h]))"
| "reg_step now (Moved i a b) (r, hs) =
     (count_bytes (bytes_out (hs ! i)) b (count_bytes (bytes_in (hs ! i)) a r), hs)"
| "reg_step now (CloseConn i) (r, hs) = (reg_close now (hs ! i) r, hs)"
| "reg_step now (Say ev) (r, hs) = (push_event (snd now) ev r, hs)"
| "reg_step now (LogTo old) (r, hs) = (snd (set_log_file (Inr old :: unit + json_line list) r), hs)"

fun ledger_step :: "reg_op \<Rightarrow> ledger \<Rightarrow> ledger" where
  "ledger_step (OpenConn lb p src dst) L = L @ [(0, 0, True)]"
| "ledger_step (Moved i a b) L = (case L ! i of (x, y, o') \<Rightarrow> L[i := (x + a, y + b, o')])"
| "ledger_step (CloseConn i) L = (case L ! i of (x, y, o') \<Rightarrow> L[i := (x, y, False)])"
| "ledger_step _ L = L"

text \<open>A connection is counted and closed while it is open; ids are 64-bit.\<close>

fun op_ok :: "ledger \<Rightarrow> reg_op \<Rightarrow> bool" where
  "op_ok L (OpenConn lb p src dst) \<longleftrightarrow> length L < 2 ^ 64 - 1"
| "op_ok L (Moved i a b) \<longleftrightarrow> i < length L \<and> row_open (L ! i)"
| "op_ok L (CloseConn i) \<longleftrightarrow> i < length L \<and> row_open (L ! i)"
| "op_ok L _ \<longleftrightarrow> True"

definition ledger_totals :: "ledger \<Rightarrow> totals" where
  "ledger_totals L = \<lparr>live_connections = length (filter row_open L),
     all_connections = word_of_nat (length L),
     all_bytes_in = sum_list (map fst L), all_bytes_out = sum_list (map (fst \<circ> snd) L)\<rparr>"

text \<open>How a registry represents a ledger, one predicate for each part of its state.\<close>

definition ids_ok :: "registry \<Rightarrow> conn_info list \<Rightarrow> ledger \<Rightarrow> bool" where
  "ids_ok r hs L \<longleftrightarrow> length hs = length L \<and> length L < 2 ^ 64 \<and>
     next_id r = 1 + word_of_nat (length L) \<and> fresh_cell r = 2 * length L \<and>
     total_connections r = word_of_nat (length L) \<and>
     (\<forall>i < length L. conn_id (hs ! i) = 1 + word_of_nat i \<and>
        bytes_in (hs ! i) = 2 * i \<and> bytes_out (hs ! i) = 2 * i + 1)"

definition cells_ok :: "registry \<Rightarrow> ledger \<Rightarrow> bool" where
  "cells_ok r L \<longleftrightarrow>
     (\<forall>i < length L. cells r (2 * i) = fst (L ! i) \<and> cells r (2 * i + 1) = fst (snd (L ! i)))"

definition live_ok :: "registry \<Rightarrow> conn_info list \<Rightarrow> ledger \<Rightarrow> bool" where
  "live_ok r hs L \<longleftrightarrow> live r = map ((!) hs) (filter (\<lambda>i. row_open (L ! i)) [0..<length L])"

definition closed_sum :: "(u64 \<times> u64 \<times> bool \<Rightarrow> u64) \<Rightarrow> ledger \<Rightarrow> u64" where
  "closed_sum g L = sum_list (map (\<lambda>row. if row_open row then 0 else g row) L)"

abbreviation row_in :: "u64 \<times> u64 \<times> bool \<Rightarrow> u64" where "row_in row \<equiv> fst row"
abbreviation row_out :: "u64 \<times> u64 \<times> bool \<Rightarrow> u64" where "row_out row \<equiv> fst (snd row)"

definition sums_ok :: "registry \<Rightarrow> ledger \<Rightarrow> bool" where
  "sums_ok r L \<longleftrightarrow> total_bytes_in r = closed_sum (\<lambda>row. row_in row) L \<and>
     total_bytes_out r = closed_sum (\<lambda>row. row_out row) L"

definition reg_rep :: "registry \<Rightarrow> conn_info list \<Rightarrow> ledger \<Rightarrow> bool" where
  "reg_rep r hs L \<longleftrightarrow> ids_ok r hs L \<and> cells_ok r L \<and> live_ok r hs L \<and> sums_ok r L"

lemmas rep_defs = ids_ok_def cells_ok_def live_ok_def sums_ok_def

lemma reg_rep_new: "reg_rep registry_new [] []"
  by (simp add: reg_rep_def rep_defs closed_sum_def registry_new_def)

lemma closed_sum_append: "closed_sum g (L @ [row]) = closed_sum g L + (if row_open row then 0 else g row)"
  by (simp add: closed_sum_def)

lemma sum_list_update_word:
  "i < length xs \<Longrightarrow> sum_list (map f (xs[i := x])) + f (xs ! i) = (sum_list (map f xs) + f x :: u64)"
proof (induction xs arbitrary: i)
  case Nil
  then show ?case by simp
next
  case (Cons y ys)
  show ?case
  proof (cases i)
    case 0
    then show ?thesis by (simp add: ac_simps)
  next
    case (Suc j)
    with Cons.IH [of j] Cons.prems show ?thesis by (simp add: add.assoc)
  qed
qed

lemma closed_sum_update:
  "i < length L \<Longrightarrow> row_open (L ! i) \<Longrightarrow>
     closed_sum g (L[i := row]) = closed_sum g L + (if row_open row then 0 else g row)"
  using sum_list_update_word [of i L "\<lambda>row. if row_open row then 0 else g row" row]
  by (simp add: closed_sum_def)

lemma map_upt_nth: "map (\<lambda>i. f (xs ! i)) [0..<length xs] = map f xs"
  by (rule nth_equalityI) simp_all

text \<open>The figures a registry reports are those of its ledger.\<close>

lemma sum_split:
  "sum_list (map (\<lambda>row. if P row then g row else 0) L) + sum_list (map (\<lambda>row. if P row then 0 else g row) L)
     = (sum_list (map g L) :: u64)"
  by (induction L) (auto simp: algebra_simps)

lemma live_cells_sum:
  assumes "live_ok r hs L" and "\<And>i. i < length L \<Longrightarrow> cells r (f (hs ! i)) = g (L ! i)"
  shows "sum_list (map (\<lambda>c. cells r (f c)) (live r)) + closed_sum g L = sum_list (map g L)"
proof -
  let ?idx = "filter (\<lambda>i. row_open (L ! i)) [0..<length L]"
  have "map (\<lambda>c. cells r (f c)) (live r) = map (\<lambda>i. g (L ! i)) ?idx"
    using assms by (auto simp: live_ok_def)
  then have "sum_list (map (\<lambda>c. cells r (f c)) (live r)) =
      sum_list (map (\<lambda>i. if row_open (L ! i) then g (L ! i) else 0) [0..<length L])"
    by (simp only: sum_list_map_filter')
  also have "\<dots> = sum_list (map (\<lambda>row. if row_open row then g row else 0) L)"
    by (simp only: map_upt_nth [of "\<lambda>row. if row_open row then g row else 0" L])
  also have "\<dots> + closed_sum g L = sum_list (map g L)"
    unfolding closed_sum_def by (rule sum_split)
  finally show ?thesis .
qed

lemma live_count:
  assumes "live_ok r hs L"
  shows "length (live r) = length (filter row_open L)"
proof -
  let ?idx = "filter (\<lambda>i. row_open (L ! i)) [0..<length L]"
  have "filter row_open L = filter row_open (map ((!) L) [0..<length L])" by (simp add: map_nth)
  also have "\<dots> = map ((!) L) ?idx" by (simp add: filter_map comp_def)
  finally show ?thesis using assms by (simp add: live_ok_def)
qed

lemma rep_totals:
  assumes rep: "reg_rep r hs L"
  shows "reg_totals r = ledger_totals L"
proof -
  have live: "live_ok r hs L" using rep by (simp add: reg_rep_def)
  have "sum_list (map (\<lambda>c. cells r (bytes_in c)) (live r)) + closed_sum (\<lambda>row. row_in row) L =
      sum_list (map (\<lambda>row. row_in row) L)"
    by (rule live_cells_sum [OF live]) (use rep in \<open>simp add: reg_rep_def rep_defs\<close>)
  moreover have "sum_list (map (\<lambda>c. cells r (bytes_out c)) (live r)) + closed_sum (\<lambda>row. row_out row) L =
      sum_list (map (\<lambda>row. row_out row) L)"
    by (rule live_cells_sum [OF live]) (use rep in \<open>simp add: reg_rep_def rep_defs\<close>)
  moreover note live_count [OF live]
  moreover have "total_connections r = word_of_nat (length L)"
    and "total_bytes_in r = closed_sum (\<lambda>row. row_in row) L"
    and "total_bytes_out r = closed_sum (\<lambda>row. row_out row) L"
    using rep by (simp_all add: reg_rep_def rep_defs)
  ultimately show ?thesis
    by (simp add: reg_totals_def ledger_totals_def add.commute comp_def)
qed

section \<open>Every operation follows the ledger\<close>

lemma rep_push [invariants]: "reg_rep r hs L \<Longrightarrow> reg_rep (push_event ts ev r) hs L"
  by (simp add: reg_rep_def rep_defs)

lemma live_append:
  assumes "length hs = length L"
  shows "map ((!) (hs @ [h])) (filter (\<lambda>i. row_open ((L @ [row]) ! i)) [0..<Suc (length L)]) =
     map ((!) hs) (filter (\<lambda>i. row_open (L ! i)) [0..<length L]) @ (if row_open row then [h] else [])"
proof -
  have "filter (\<lambda>i. row_open ((L @ [row]) ! i)) [0..<length L] =
      filter (\<lambda>i. row_open (L ! i)) [0..<length L]"
    by (rule filter_cong) (auto simp: nth_append)
  moreover have "map ((!) (hs @ [h])) is = map ((!) hs) is" if "set is \<subseteq> {..<length L}" for "is"
    using that assms by (auto simp: nth_append)
  moreover have "set (filter (\<lambda>i. row_open (L ! i)) [0..<length L]) \<subseteq> {..<length L}" by auto
  ultimately show ?thesis using assms by (auto simp: nth_append)
qed

lemma rep_open [invariants]:
  assumes rep: "reg_rep r hs L" and room: "length L < 2 ^ 64 - 1"
    and opn: "reg_open now lb p src dst r = (h, r')"
  shows "reg_rep r' (hs @ [h]) (L @ [(0, 0, True)])"
proof -
  let ?n = "length L"
  have n: "length hs = ?n" "next_id r = 1 + word_of_nat ?n" "fresh_cell r = 2 * ?n"
    "total_connections r = word_of_nat ?n"
    using rep by (simp_all add: reg_rep_def ids_ok_def)
  have h: "conn_id h = 1 + word_of_nat ?n" "bytes_in h = 2 * ?n" "bytes_out h = 2 * ?n + 1"
    and r': "next_id r' = 2 + word_of_nat ?n" "fresh_cell r' = 2 * ?n + 2"
      "total_connections r' = 1 + word_of_nat ?n" "live r' = live r @ [h]"
      "total_bytes_in r' = total_bytes_in r" "total_bytes_out r' = total_bytes_out r"
      "cells r' = (cells r)(2 * ?n := 0, 2 * ?n + 1 := 0)"
    using opn n by (auto simp: reg_open_def fetch_next_id_def new_cell_def Let_def)
  have "ids_ok r' (hs @ [h]) (L @ [(0, 0, True)])"
    using rep room h r' by (auto simp: reg_rep_def ids_ok_def nth_append less_Suc_eq)
  moreover have "cells_ok r' (L @ [(0, 0, True)])"
    using rep r' by (auto simp: reg_rep_def cells_ok_def nth_append less_Suc_eq)
  moreover have "live_ok r' (hs @ [h]) (L @ [(0, 0, True)])"
    using rep r'(4) n(1) by (simp add: reg_rep_def live_ok_def live_append del: upt_Suc)
  moreover have "sums_ok r' (L @ [(0, 0, True)])"
    using rep r' by (simp add: reg_rep_def sums_ok_def closed_sum_append)
  ultimately show ?thesis by (simp add: reg_rep_def)
qed

lemma rep_moved [invariants]:
  assumes rep: "reg_rep r hs L" and i: "i < length L" and op: "row_open (L ! i)"
    and r': "r' = count_bytes (bytes_out (hs ! i)) b (count_bytes (bytes_in (hs ! i)) a r)"
  shows "reg_rep r' hs (L[i := (row_in (L ! i) + a, row_out (L ! i) + b, True)])"
proof -
  let ?L = "L[i := (row_in (L ! i) + a, row_out (L ! i) + b, True)]"
  have c: "bytes_in (hs ! i) = 2 * i" "bytes_out (hs ! i) = 2 * i + 1"
    using rep i by (simp_all add: reg_rep_def ids_ok_def)
  have "ids_ok r' hs ?L" using rep by (simp add: reg_rep_def ids_ok_def r' count_bytes_def)
  moreover have "cells_ok r' ?L"
    using rep i c by (auto simp: reg_rep_def cells_ok_def r' count_bytes_def nth_list_update)
  moreover
  have "row_open (?L ! j) = row_open (L ! j)" for j
    using op i by (cases "j = i") simp_all
  with rep have "live_ok r' hs ?L" by (simp add: reg_rep_def live_ok_def r' count_bytes_def)
  moreover have "sums_ok r' ?L"
    using rep op i by (simp add: reg_rep_def sums_ok_def r' count_bytes_def closed_sum_update)
  ultimately show ?thesis by (simp add: reg_rep_def)
qed

lemma id_distinct:
  "ids_ok r hs L \<Longrightarrow> i < length L \<Longrightarrow> j < length L \<Longrightarrow> conn_id (hs ! i) = conn_id (hs ! j) \<longleftrightarrow> i = j"
  by (auto simp: ids_ok_def word_of_nat_eq_iff take_bit_nat_eq_self)

lemma rep_close [invariants]:
  assumes rep: "reg_rep r hs L" and i: "i < length L" and op: "row_open (L ! i)"
  shows "reg_rep (reg_close now (hs ! i) r) hs (L[i := (row_in (L ! i), row_out (L ! i), False)])"
proof -
  let ?r = "reg_close now (hs ! i) r"
  let ?L = "L[i := (row_in (L ! i), row_out (L ! i), False)]"
  have ids: "ids_ok r hs L" using rep by (simp add: reg_rep_def)
  have c: "cells r (bytes_in (hs ! i)) = row_in (L ! i)"
      "cells r (bytes_out (hs ! i)) = row_out (L ! i)"
    using rep i by (simp_all add: reg_rep_def ids_ok_def cells_ok_def)
  have s: "cells ?r = cells r" "next_id ?r = next_id r" "fresh_cell ?r = fresh_cell r"
      "total_connections ?r = total_connections r"
      "live ?r = filter (\<lambda>c. conn_id c \<noteq> conn_id (hs ! i)) (live r)"
      "total_bytes_in ?r = total_bytes_in r + row_in (L ! i)"
      "total_bytes_out ?r = total_bytes_out r + row_out (L ! i)"
    using c by (simp_all add: reg_close_def close_live_def close_totals_def Let_def)
  have "ids_ok ?r hs ?L" using ids by (simp add: ids_ok_def s)
  moreover have "cells_ok ?r ?L"
    using rep i by (auto simp: reg_rep_def cells_ok_def s nth_list_update)
  moreover have "live_ok ?r hs ?L"
  proof -
    have "live ?r = map ((!) hs)
        (filter (\<lambda>j. row_open (L ! j) \<and> conn_id (hs ! j) \<noteq> conn_id (hs ! i)) [0..<length L])"
      using rep by (simp add: s reg_rep_def live_ok_def filter_map comp_def conj_commute)
    also have "\<dots> = map ((!) hs) (filter (\<lambda>j. row_open (?L ! j)) [0..<length ?L])"
      using i by (intro arg_cong [where f = "map ((!) hs)"] filter_cong)
        (auto simp: id_distinct [OF ids] nth_list_update)
    finally show ?thesis unfolding live_ok_def .
  qed
  moreover have "sums_ok ?r ?L"
    using rep i op by (simp add: reg_rep_def sums_ok_def s closed_sum_update)
  ultimately show ?thesis by (simp add: reg_rep_def)
qed

fun run_reg :: "(clocks \<times> reg_op) list \<Rightarrow> registry \<times> conn_info list \<Rightarrow> registry \<times> conn_info list" where
  "run_reg [] st = st"
| "run_reg ((now, p) # ps) st = run_reg ps (reg_step now p st)"

fun run_ledger :: "(clocks \<times> reg_op) list \<Rightarrow> ledger \<Rightarrow> ledger" where
  "run_ledger [] L = L"
| "run_ledger ((now, p) # ps) L = run_ledger ps (ledger_step p L)"

fun ops_ok :: "(clocks \<times> reg_op) list \<Rightarrow> ledger \<Rightarrow> bool" where
  "ops_ok [] L \<longleftrightarrow> True"
| "ops_ok ((now, p) # ps) L \<longleftrightarrow> op_ok L p \<and> ops_ok ps (ledger_step p L)"

lemma rep_step:
  assumes "reg_rep r hs L" and "op_ok L p" and "reg_step now p (r, hs) = (r', hs')"
  shows "reg_rep r' hs' (ledger_step p L)"
proof (cases p)
  case (OpenConn lb q src dst)
  with assms show ?thesis by (auto split: prod.splits intro: rep_open)
next
  case (Moved i a b)
  with assms rep_moved [OF assms(1), of i r' b a] show ?thesis
    by (auto simp: case_prod_beta)
next
  case (CloseConn i)
  with assms rep_close [OF assms(1), of i now] show ?thesis by (auto simp: case_prod_beta)
next
  case (Say ev)
  with assms show ?thesis by (auto intro: rep_push)
next
  case (LogTo old)
  with assms show ?thesis by (auto simp: set_log_file_def reg_rep_def rep_defs)
qed

lemma rep_run: "reg_rep r hs L \<Longrightarrow> ops_ok ps L \<Longrightarrow> run_reg ps (r, hs) = (r', hs') \<Longrightarrow>
    reg_rep r' hs' (run_ledger ps L)"
proof (induction ps arbitrary: r hs L)
  case Nil
  then show ?case by simp
next
  case (Cons q ps)
  obtain now p where q: "q = (now, p)" by (cases q)
  obtain r1 hs1 where s: "reg_step now p (r, hs) = (r1, hs1)" by force
  with Cons q rep_step [of r hs L p now r1 hs1] show ?case by simp
qed

lemma log_ok_step:
  assumes "log_ok r"
  shows "log_ok (fst (reg_step now p (r, hs)))"
proof (cases p)
  case (OpenConn lb q src dst)
  with log_ok_open [OF assms, of now lb q src dst] show ?thesis by (auto split: prod.splits)
next
  case (CloseConn i)
  with assms show ?thesis by (simp add: log_ok_close)
next
  case (Say ev)
  with assms show ?thesis by (simp add: log_ok_push)
qed (use assms in \<open>simp_all add: count_bytes_def set_log_file_def log_ok_def\<close>)

lemma log_ok_run: "log_ok (fst st) \<Longrightarrow> log_ok (fst (run_reg ps st))"
  by (induction ps st rule: run_reg.induct) (use log_ok_step in fastforce)+

section \<open>Properties\<close>

text \<open>
  C16: The registry refines the ledger of its connections. After any sequence of opens, counted
  bytes, closes, messages and log files on a new registry, where a connection is counted and
  closed while it is open, the figures it reports are the ledger's: the open connections, the
  number ever opened, and the bytes of every connection, open or closed (modulo \<open>2 ^ 64\<close>). No
  close loses a byte and none is counted twice.
\<close>

theorem registry_conserves:
  assumes "ops_ok ps []" and "run_reg ps (registry_new, []) = (r, hs)"
  shows "reg_totals r = ledger_totals (run_ledger ps [])"
  by (rule rep_totals [OF rep_run [OF reg_rep_new assms]])

definition sample_reg_ops :: "(clocks \<times> reg_op) list" where
  "sample_reg_ops =
     [((0, 9), OpenConn ''a'' Tcp ''s'' ''d''), ((1, 9), Moved 0 5 7), ((2, 9), OpenConn ''b'' Udp ''s'' ''d''),
      ((3, 9), CloseConn 0), ((4, 9), Moved 1 2 1)]"

theorem registry_conserves_witness:
  "reg_totals (fst (run_reg sample_reg_ops (registry_new, []))) =
     \<lparr>live_connections = 1, all_connections = 2, all_bytes_in = 7, all_bytes_out = 8\<rparr>"
proof -
  have ok: "ops_ok sample_reg_ops []" by (simp add: sample_reg_ops_def)
  obtain r hs where run: "run_reg sample_reg_ops (registry_new, []) = (r, hs)" by force
  have "run_ledger sample_reg_ops [] = [(5, 7, False), (2, 1, True)]"
    by (simp add: sample_reg_ops_def)
  with registry_conserves [OF ok run] run show ?thesis by (simp add: ledger_totals_def)
qed

text \<open>
  The log holds the last 500 events, one formatted line each, oldest first, whatever the
  sequence of operations; so it never grows past \<open>MAX_LOG_LINES\<close> and drops the oldest lines
  only.
\<close>

theorem log_is_last_events:
  "log_lines (fst (run_reg ps (registry_new, hs))) =
     drop (length (emitted (fst (run_reg ps (registry_new, hs)))) - MAX_LOG_LINES)
       (map event_line (emitted (fst (run_reg ps (registry_new, hs)))))
   \<and> length (log_lines (fst (run_reg ps (registry_new, hs)))) \<le> MAX_LOG_LINES"
proof -
  have "log_ok (fst (registry_new, hs))" by (simp add: log_ok_def registry_new_def)
  from log_ok_run [OF this, of ps] show ?thesis by (simp add: log_ok_def)
qed

text \<open>
  Closing is not atomic. Between adding a connection's bytes to the totals and taking it off
  the live list, a reader of the totals counts them twice; after both steps the totals are what
  they were before.
\<close>

theorem close_counts_twice_midway:
  assumes "reg_rep r hs L" and "i < length L" and "row_open (L ! i)"
  shows "all_bytes_in (reg_totals (close_totals (hs ! i) r)) =
      all_bytes_in (reg_totals r) + row_in (L ! i)
    \<and> all_bytes_in (reg_totals (close_live (hs ! i) (close_totals (hs ! i) r))) =
      all_bytes_in (reg_totals r)"
proof
  have c: "cells r (bytes_in (hs ! i)) = row_in (L ! i)"
    using assms by (simp add: reg_rep_def ids_ok_def cells_ok_def)
  then show "all_bytes_in (reg_totals (close_totals (hs ! i) r)) =
      all_bytes_in (reg_totals r) + row_in (L ! i)"
    by (simp add: reg_totals_def close_totals_def Let_def)
  have "reg_totals (reg_close (0, 0) (hs ! i) r) =
      ledger_totals (L[i := (row_in (L ! i), row_out (L ! i), False)])"
    by (rule rep_totals [OF rep_close [OF assms]])
  moreover have "sum_list (map fst (L[i := (row_in (L ! i), row_out (L ! i), False)])) = sum_list (map fst L)"
    using sum_list_update_word [of i L fst "(row_in (L ! i), row_out (L ! i), False)"] assms(2) by simp
  moreover have "all_bytes_in (reg_totals (reg_close (0, 0) (hs ! i) r)) =
      all_bytes_in (reg_totals (close_live (hs ! i) (close_totals (hs ! i) r)))"
    by (simp add: reg_close_def reg_totals_def Let_def)
  ultimately show "all_bytes_in (reg_totals (close_live (hs ! i) (close_totals (hs ! i) r))) =
      all_bytes_in (reg_totals r)"
    using rep_totals [OF assms(1)] by (simp add: ledger_totals_def)
qed

theorem close_counts_twice_midway_witness:
  "\<exists>r h. all_bytes_in (reg_totals r) = 5 \<and> all_bytes_in (reg_totals (close_totals h r)) = 10
     \<and> all_bytes_in (reg_totals (close_live h (close_totals h r))) = 5"
proof -
  let ?ps = "[((0, 0), OpenConn ''a'' Tcp ''s'' ''d''), ((0, 0), Moved 0 5 0)] :: (clocks \<times> reg_op) list"
  obtain r hs where run: "run_reg ?ps (registry_new, []) = (r, hs)" by force
  have rep: "reg_rep r hs [(5, 0, True)]"
    using rep_run [OF reg_rep_new _ run] by simp
  from rep_totals [OF rep] have "all_bytes_in (reg_totals r) = 5" by (simp add: ledger_totals_def)
  with close_counts_twice_midway [OF rep, of 0] show ?thesis by auto
qed

end
