(* ===== verification/Config.thy ===== *)
theory Config
  imports Prelude
begin

text \<open>
  Configuration (\<open>config.rs\<close>): the rule records and their defaults, the checks on them, and the
  parsers of the \<open>--map\<close> shorthands. A \<open>bail!\<close> is a constructor of \<open>config_error\<close> with the
  values its message shows. Reading TOML is left to the \<open>toml\<close> crate, an argument of
  \<open>file_config_load\<close>.
\<close>

section \<open>Records and defaults\<close>

datatype protocol_kind = KindTcp | KindUdp | KindBoth
datatype transport = Tls | Noise

definition default_protocol :: protocol_kind where "default_protocol = KindBoth"
definition default_transport :: transport where "default_transport = Tls"
definition default_udp_idle_secs :: u64 where "default_udp_idle_secs = 60"
definition default_reconnect_min_secs :: u64 where "default_reconnect_min_secs = 1"
definition default_reconnect_max_secs :: u64 where "default_reconnect_max_secs = 30"

datatype config_error =
    ForwardNoiseNeedsToken string
  | ClientNoiseNeedsToken string
  | TenantsCannotCombine
  | TenantsNeedSniListen
  | SniListenNeedsTenants
  | BadMapFlag string
  | BadClientMapFlag string
  | UnknownTransport string
  | UnknownProtocol string
  | TwoTransports string
  | TransportNeedsTcp string
  | ReadingConfig string
  | ParsingConfig string

record forward_rule =
  fw_name :: "string option"
  fw_listen :: string
  fw_target :: string
  fw_protocol :: protocol_kind
  fw_udp_idle_secs :: u64
  fw_transport :: "transport option"
  fw_token :: "string option"

record serve_tunnel =
  st_name :: string
  st_external :: string

record serve_config =
  sv_listen :: string
  sv_token :: string
  sv_tunnel :: "serve_tunnel list"
  sv_tenants_file :: "string option"
  sv_sni_listen :: "string option"

definition serve_config_default :: serve_config where
  "serve_config_default = \<lparr>sv_listen = [], sv_token = [], sv_tunnel = [],
     sv_tenants_file = None, sv_sni_listen = None\<rparr>"

record connect_tunnel =
  ct_name :: string
  ct_target :: string

record connect_config =
  cn_server :: string
  cn_token :: string
  cn_tunnel :: "connect_tunnel list"
  reconnect_min_secs :: u64
  reconnect_max_secs :: u64

record client_rule =
  cl_name :: "string option"
  cl_listen :: string
  cl_server :: string
  cl_transport :: transport
  cl_token :: "string option"

record file_config =
  fc_forward :: "forward_rule list"
  fc_serve :: "serve_config option"
  fc_connect :: "connect_config option"
  fc_client :: "client_rule list"

definition file_config_default :: file_config where
  "file_config_default = \<lparr>fc_forward = [], fc_serve = None, fc_connect = None, fc_client = []\<rparr>"

definition unwrap_or :: "'a option \<Rightarrow> 'a \<Rightarrow> 'a" where
  "unwrap_or m d = (case m of None \<Rightarrow> d | Some x \<Rightarrow> x)"

definition file_config_load ::
  "(string \<Rightarrow> string option) \<Rightarrow> (string \<Rightarrow> file_config option) \<Rightarrow> string \<Rightarrow> config_error + file_config" where
  "file_config_load read_to_string from_toml path =
     rbind (ok_or (read_to_string path) (ReadingConfig path))
       (\<lambda>txt. ok_or (from_toml txt) (ParsingConfig path))"

section \<open>Checks\<close>

definition forward_label :: "forward_rule \<Rightarrow> string" where
  "forward_label r = unwrap_or (fw_name r) (fw_listen r @ ''->'' @ fw_target r)"

definition forward_validate :: "forward_rule \<Rightarrow> config_error + unit" where
  "forward_validate r =
     (if fw_transport r = Some Noise \<and> fw_token r = None
      then Inl (ForwardNoiseNeedsToken (forward_label r)) else Inr ())"

definition client_label :: "client_rule \<Rightarrow> string" where
  "client_label r = unwrap_or (cl_name r) (cl_listen r @ ''->'' @ cl_server r)"

definition client_validate :: "client_rule \<Rightarrow> config_error + unit" where
  "client_validate r =
     (if cl_transport r = Noise \<and> cl_token r = None
      then Inl (ClientNoiseNeedsToken (client_label r)) else Inr ())"

definition is_multi_tenant :: "serve_config \<Rightarrow> config_error + bool" where
  "is_multi_tenant c = (case (sv_tenants_file c, sv_sni_listen c) of
     (Some _, sni) \<Rightarrow>
       if sv_token c \<noteq> [] \<or> sv_tunnel c \<noteq> [] then Inl TenantsCannotCombine
       else if sni = None then Inl TenantsNeedSniListen
       else Inr True
   | (None, Some _) \<Rightarrow> Inl SniListenNeedsTenants
   | (None, None) \<Rightarrow> Inr False)"

section \<open>The shorthands\<close>

definition is_transport :: "string \<Rightarrow> bool" where
  "is_transport part \<longleftrightarrow> eq_ignore_ascii_case part ''tls'' \<or> eq_ignore_ascii_case part ''noise''"

definition transport_of_parts :: "string \<Rightarrow> string list \<Rightarrow> config_error + transport option" where
  "transport_of_parts s parts = (case parts of
     [] \<Rightarrow> Inr None
   | [t] \<Rightarrow> if eq_ignore_ascii_case t ''tls'' then Inr (Some Tls)
          else if eq_ignore_ascii_case t ''noise'' then Inr (Some Noise)
          else Inl (TwoTransports s)
   | _ \<Rightarrow> Inl (TwoTransports s))"

definition protocol_of_name :: "string \<Rightarrow> bool \<Rightarrow> config_error + protocol_kind" where
  "protocol_of_name w has_transport =
     (if w = [] \<and> has_transport then Inr KindTcp
      else if w = ''tcp'' then Inr KindTcp
      else if w = ''udp'' then Inr KindUdp
      else if w = ''both'' \<or> w = ''tcp+udp'' \<or> w = ''udp+tcp'' then Inr KindBoth
      else Inl (UnknownProtocol w))"

definition parse_protocol :: "string \<Rightarrow> config_error + protocol_kind \<times> transport option" where
  "parse_protocol s =
     (let parts = split_on (CHR ''+'') s in
      rbind (transport_of_parts s (filter is_transport parts)) (\<lambda>transport.
      let without_transport = filter (\<lambda>p. \<not> is_transport p) parts in
      rbind (protocol_of_name (to_ascii_lowercase (join_with ''+'' without_transport)) (transport \<noteq> None))
        (\<lambda>protocol.
          if transport \<noteq> None \<and> protocol \<noteq> KindTcp then Inl (TransportNeedsTcp s)
          else Inr (protocol, transport))))"

definition normalize_listen :: "string \<Rightarrow> config_error + string" where
  "normalize_listen raw = (if parse_u16 raw \<noteq> None then Inr (''0.0.0.0:'' @ raw) else Inr raw)"

definition normalize_client_listen :: "string \<Rightarrow> config_error + string" where
  "normalize_client_listen raw = (if parse_u16 raw \<noteq> None then Inr (''127.0.0.1:'' @ raw) else Inr raw)"

definition parse_client_transport :: "string \<Rightarrow> config_error + transport" where
  "parse_client_transport modifier =
     (let w = to_ascii_lowercase modifier in
      if w = ''tls'' then Inr Tls else if w = ''noise'' then Inr Noise else Inl (UnknownTransport w))"

definition two_parts :: "config_error \<Rightarrow> string \<Rightarrow> config_error + string \<times> string" where
  "two_parts e rest = (case map trim (splitn2 ''->'' rest) of
     [l, t] \<Rightarrow> Inr (l, t) | _ \<Rightarrow> Inl e)"

definition split_suffix :: "string \<Rightarrow> config_error + string \<times> protocol_kind \<times> transport option" where
  "split_suffix raw = (case rsplit_once (CHR ''/'') raw of
     Some (rest, proto) \<Rightarrow> rbind (parse_protocol proto) (\<lambda>p. Inr (rest, p))
   | None \<Rightarrow> Inr (raw, (KindBoth, None)))"

definition parse_map_flag :: "string \<Rightarrow> config_error + forward_rule" where
  "parse_map_flag raw =
     rbind (split_suffix raw)
       (\<lambda>(rest, (protocol, transport)).
         rbind (two_parts (BadMapFlag raw) rest) (\<lambda>(listen_raw, target_raw).
         rbind (normalize_listen listen_raw) (\<lambda>listen.
           Inr \<lparr>fw_name = None, fw_listen = listen, fw_target = target_raw, fw_protocol = protocol,
                fw_udp_idle_secs = default_udp_idle_secs, fw_transport = transport, fw_token = None\<rparr>)))"

definition parse_client_map_flag :: "string \<Rightarrow> config_error + client_rule" where
  "parse_client_map_flag raw =
     rbind (case rsplit_once (CHR ''/'') raw of
              Some (rest, modifier) \<Rightarrow> rbind (parse_client_transport modifier) (\<lambda>t. Inr (rest, t))
            | None \<Rightarrow> Inr (raw, Tls))
       (\<lambda>(rest, transport).
         rbind (two_parts (BadClientMapFlag raw) rest) (\<lambda>(listen_raw, server_raw).
         rbind (normalize_client_listen listen_raw) (\<lambda>listen.
           Inr \<lparr>cl_name = None, cl_listen = listen, cl_server = server_raw, cl_transport = transport,
                cl_token = None\<rparr>)))"

section \<open>Lemmas\<close>

lemma digits_value_bad:
  "c \<in> set s \<Longrightarrow> to_digit radix c = None \<Longrightarrow> digits_value radix maxv acc s = None"
  by (induction radix maxv acc s rule: digits_value.induct) (auto split: option.splits)

lemma parse_u16_bad:
  assumes "c \<in> set s" and "to_digit 10 c = None" and "c \<noteq> CHR ''+''"
  shows "parse_u16 s = None"
  unfolding parse_u16_def using assms
  by (cases "(10 :: nat, 65535 :: nat, s)" rule: from_str_radix.cases)
    (auto intro: digits_value_bad split: option.splits)

lemma parse_u16_qualified: "parse_u16 (a @ CHR '':'' # b) = None"
  by (rule parse_u16_bad [of "CHR '':''"]) (auto simp: to_digit_def)

lemma normalize_listen_qualified:
  "normalize_listen raw = Inr l \<Longrightarrow> parse_u16 l = None"
  using parse_u16_qualified [of "''0.0.0.0''" raw]
  by (auto simp: normalize_listen_def split: if_splits)

lemma normalize_client_listen_qualified:
  "normalize_client_listen raw = Inr l \<Longrightarrow> parse_u16 l = None"
  using parse_u16_qualified [of "''127.0.0.1''" raw]
  by (auto simp: normalize_client_listen_def split: if_splits)

lemma parse_protocol_tcp:
  "parse_protocol s = Inr (p, Some t) \<Longrightarrow> p = KindTcp"
  by (auto simp: parse_protocol_def Let_def rbind_eq_Inr_iff split: if_splits)

lemma splitn2_arrow:
  "CHR ''>'' \<notin> set a \<Longrightarrow> splitn2 ''->'' (a @ CHR ''-'' # CHR ''>'' # b) = [a, b]"
proof (induction a)
  case (Cons c cs)
  then have "take 2 (c # cs @ CHR ''-'' # CHR ''>'' # b) \<noteq> ''->''"
    by (cases cs) auto
  with Cons show ?case by simp
qed simp

lemma lower_plus: "lower_char c = CHR ''+'' \<longleftrightarrow> c = CHR ''+''"
proof
  assume h: "lower_char c = CHR ''+''"
  show "c = CHR ''+''"
  proof (cases "65 \<le> ccode c \<and> ccode c \<le> 90")
    case True
    with h have "char_of (ccode c + 32) = CHR ''+''" by (simp add: lower_char_def)
    then have "(of_char (char_of (ccode c + 32) :: char) :: nat) = 43" by simp
    with True show ?thesis by simp
  qed (use h in \<open>auto simp: lower_char_def split: if_splits\<close>)
qed (simp add: lower_char_def)

lemma split_on_lower: "split_on (CHR ''+'') (to_ascii_lowercase s) = map to_ascii_lowercase (split_on (CHR ''+'') s)"
  by (induction s) (auto simp: lower_plus split: list.splits)

lemma join_with_lower:
  "to_ascii_lowercase (join_with ''+'' ws) = join_with ''+'' (map to_ascii_lowercase ws)"
proof -
  have "lower_char (CHR ''+'') = CHR ''+''" by (simp add: lower_char_def)
  then show ?thesis by (induction "''+''" ws rule: join_with.induct) auto
qed

lemma is_transport_lower: "is_transport (to_ascii_lowercase p) = is_transport p"
  by (simp add: is_transport_def eq_ignore_ascii_case_def comp_def)

lemma filter_lower:
  "(\<And>p. P (to_ascii_lowercase p) = P p) \<Longrightarrow>
     filter P (map to_ascii_lowercase ps) = map to_ascii_lowercase (filter P ps)"
  by (induction ps) auto

lemma join_split: "join_with ''+'' (split_on (CHR ''+'') s) = s"
proof (induction s)
  case (Cons c s)
  obtain w ws where "split_on (CHR ''+'') s = w # ws"
    using split_on_nonempty by (cases "split_on (CHR ''+'') s") auto
  with Cons show ?case by (cases ws) auto
qed simp

lemma split_parts: "w \<in> set (split_on d s) \<Longrightarrow> d \<notin> set w"
  by (induction s arbitrary: w) (fastforce split: if_splits list.splits)+

lemma split_join:
  "ws \<noteq> [] \<Longrightarrow> (\<And>w. w \<in> set ws \<Longrightarrow> CHR ''+'' \<notin> set w) \<Longrightarrow> split_on (CHR ''+'') (join_with ''+'' ws) = ws"
  by (induction "''+''" ws rule: join_with.induct) (auto simp: split_on_single split_on_append)

lemma parse_protocol_case:
  "parse_protocol (to_ascii_lowercase s) = Inr x \<longleftrightarrow> parse_protocol s = Inr x"
proof -
  let ?parts = "split_on (CHR ''+'') s"
  have tr: "filter is_transport (map to_ascii_lowercase ?parts) =
      map to_ascii_lowercase (filter is_transport ?parts)"
    by (rule filter_lower) (simp add: is_transport_lower)
  have nt: "filter (\<lambda>p. \<not> is_transport p) (map to_ascii_lowercase ?parts) =
      map to_ascii_lowercase (filter (\<lambda>p. \<not> is_transport p) ?parts)"
    by (rule filter_lower) (simp add: is_transport_lower)
  have "transport_of_parts (to_ascii_lowercase s) (map to_ascii_lowercase ts) = Inr t \<longleftrightarrow>
      transport_of_parts s ts = Inr t" for ts t
    by (auto simp: transport_of_parts_def eq_ignore_ascii_case_def comp_def split: list.splits)
  then show ?thesis
    by (auto simp: parse_protocol_def Let_def split_on_lower tr nt rbind_eq_Inr_iff
        join_with_lower [symmetric] comp_def split: if_splits)
qed

text \<open>The protocol suffixes there are, up to case.\<close>

definition transport_suffixes :: "string \<Rightarrow> transport \<Rightarrow> (string \<times> protocol_kind \<times> transport option) list" where
  "transport_suffixes n t = map (\<lambda>s. (s, KindTcp, Some t))
     [n, ''+'' @ n, n @ ''+'', ''tcp+'' @ n, n @ ''+tcp'']"

definition protocol_suffixes :: "(string \<times> protocol_kind \<times> transport option) list" where
  "protocol_suffixes =
     [(''tcp'', KindTcp, None), (''udp'', KindUdp, None), (''both'', KindBoth, None),
      (''tcp+udp'', KindBoth, None), (''udp+tcp'', KindBoth, None)]
     @ transport_suffixes ''tls'' Tls @ transport_suffixes ''noise'' Noise"

lemma suffixes_accepted:
  "(s, x) \<in> set protocol_suffixes \<Longrightarrow> parse_protocol s = Inr x"
  by (auto simp: protocol_suffixes_def transport_suffixes_def parse_protocol_def is_transport_def
      eq_ignore_ascii_case_def lower_char_def transport_of_parts_def protocol_of_name_def)

lemma two_filters:
  assumes "filter P xs = [t]" and "length (filter (\<lambda>x. \<not> P x) xs) \<le> 1"
  shows "xs = [t] \<or> (\<exists>w. filter (\<lambda>x. \<not> P x) xs = [w] \<and> (xs = [t, w] \<or> xs = [w, t]))"
proof -
  have "length xs = 1 + length (filter (\<lambda>x. \<not> P x) xs)"
    using sum_length_filter_compl [of P xs] assms(1) by simp
  with assms(2) consider a where "xs = [a]" | a b where "xs = [a, b]"
    by (auto simp: le_Suc_eq length_Suc_conv)
  then show ?thesis by cases (use assms(1) in \<open>auto split: if_splits\<close>)
qed

lemma map_fixed: "map f xs = xs \<Longrightarrow> x \<in> set xs \<Longrightarrow> f x = x"
  by (induction xs) auto

lemma parse_protocol_listed:
  assumes low: "to_ascii_lowercase s = s" and ok: "parse_protocol s = Inr (p, t)"
  shows "(s, p, t) \<in> set protocol_suffixes"
proof -
  let ?parts = "split_on (CHR ''+'') s"
  let ?ts = "filter is_transport ?parts" and ?ws = "filter (\<lambda>p. \<not> is_transport p) ?parts"
  have parts: "map to_ascii_lowercase ?parts = ?parts" using split_on_lower [of s] low by simp
  then have plow: "to_ascii_lowercase q = q" if "q \<in> set ?parts" for q
    using map_fixed [of to_ascii_lowercase ?parts q] that by blast
  have "map to_ascii_lowercase ?ws = ?ws" by (rule map_idI) (use plow in auto)
  then have wlow: "to_ascii_lowercase (join_with ''+'' ?ws) = join_with ''+'' ?ws"
    by (simp add: join_with_lower)
  from ok have t: "transport_of_parts s ?ts = Inr t"
    and p: "protocol_of_name (join_with ''+'' ?ws) (t \<noteq> None) = Inr p"
    and tcp: "t = None \<or> p = KindTcp"
    by (auto simp: parse_protocol_def Let_def rbind_eq_Inr_iff wlow split: if_splits)
  have sp: "s = join_with ''+'' ?parts" by (simp add: join_split)
  have ws: "?ws = split_on (CHR ''+'') (join_with ''+'' ?ws)" if "?ws \<noteq> []"
    by (rule split_join [OF that, symmetric]) (auto dest: split_parts)
  show ?thesis
  proof (cases t)
    case None
    then have "?ts = []" using t by (auto simp: transport_of_parts_def split: list.splits if_splits)
    then have "?ws = ?parts" by (simp add: filter_empty_conv)
    then have "protocol_of_name s False = Inr p" using p None sp by simp
    with None show ?thesis
      by (auto simp: protocol_of_name_def protocol_suffixes_def split: if_splits)
  next
    case (Some tr)
    then obtain q where q: "?ts = [q]"
        and "(eq_ignore_ascii_case q ''tls'' \<and> tr = Tls) \<or> (eq_ignore_ascii_case q ''noise'' \<and> tr = Noise)"
      using t by (auto simp: transport_of_parts_def split: list.splits if_splits)
    moreover have "q \<in> set ?parts" using q by (metis filter_is_subset list.set_intros(1) subsetD)
    ultimately have qt: "(q = ''tls'' \<and> tr = Tls) \<or> (q = ''noise'' \<and> tr = Noise)"
      using plow by (auto simp: eq_ignore_ascii_case_def lower_char_def)
    have "join_with ''+'' ?ws = [] \<or> join_with ''+'' ?ws = ''tcp''"
      using p tcp Some by (auto simp: protocol_of_name_def split: if_splits)
    then have w: "?ws = [] \<or> ?ws = [[]] \<or> ?ws = [''tcp'']"
      using ws by (cases "?ws = []") (auto dest: sym)
    then have "?parts = [q] \<or> ?parts \<in> {[q, []], [[], q], [q, ''tcp''], [''tcp'', q]}"
      using two_filters [OF q] by auto
    then have "s \<in> {q, q @ ''+'', ''+'' @ q, q @ ''+tcp'', ''tcp+'' @ q}"
      using sp by auto
    with qt Some tcp show ?thesis by (auto simp: protocol_suffixes_def transport_suffixes_def)
  qed
qed

section \<open>Properties\<close>

text \<open>
  The parser of the protocol suffix accepts exactly the fifteen suffixes of the table, in any
  letter case, with the protocol and the transport the table gives; a transport only ever comes
  with TCP.
\<close>

theorem parse_protocol_complete:
  "parse_protocol s = Inr x \<longleftrightarrow> (to_ascii_lowercase s, x) \<in> set protocol_suffixes"
proof
  assume "parse_protocol s = Inr x"
  then have "parse_protocol (to_ascii_lowercase s) = Inr (fst x, snd x)"
    by (simp add: parse_protocol_case)
  then show "(to_ascii_lowercase s, x) \<in> set protocol_suffixes"
    using parse_protocol_listed [of "to_ascii_lowercase s" "fst x" "snd x"] by (simp add: comp_def)
next
  assume "(to_ascii_lowercase s, x) \<in> set protocol_suffixes"
  then have "parse_protocol (to_ascii_lowercase s) = Inr x" by (rule suffixes_accepted)
  then show "parse_protocol s = Inr x" by (rule iffD1 [OF parse_protocol_case])
qed

text \<open>The text of a mapping, with its protocol and transport spelled out.\<close>

definition show_suffix :: "protocol_kind \<Rightarrow> transport option \<Rightarrow> string" where
  "show_suffix p t =
     (case p of KindTcp \<Rightarrow> ''tcp'' | KindUdp \<Rightarrow> ''udp'' | KindBoth \<Rightarrow> ''both'') @
     (case t of None \<Rightarrow> [] | Some Tls \<Rightarrow> ''+tls'' | Some Noise \<Rightarrow> ''+noise'')"

definition show_map_flag :: "forward_rule \<Rightarrow> string" where
  "show_map_flag r = fw_listen r @ ''->'' @ fw_target r @ ''/'' @ show_suffix (fw_protocol r) (fw_transport r)"

lemma parse_show_suffix:
  "t = None \<or> p = KindTcp \<Longrightarrow> parse_protocol (show_suffix p t) = Inr (p, t)"
  by (cases p; cases t rule: option.exhaust [case_product transport.exhaust])
    (auto intro!: suffixes_accepted simp: show_suffix_def protocol_suffixes_def transport_suffixes_def
      split: transport.splits)

lemma slash_suffix: "CHR ''/'' \<notin> set (show_suffix p t)"
  by (cases p) (auto simp: show_suffix_def split: option.splits transport.splits)

lemma two_parts_arrow:
  "CHR ''>'' \<notin> set a \<Longrightarrow> two_parts e (a @ ''->'' @ b) = Inr (trim a, trim b)"
  using splitn2_arrow [of a b] by (simp add: two_parts_def)

text \<open>
  Printing a mapping and parsing it back gives the mapping, for every rule the command line
  can express: the listen address is not a bare port and has no \<open>'>'\<close>, neither address has
  surrounding white space, and a transport comes with TCP. The target may contain a slash.
\<close>

theorem map_flag_roundtrip:
  assumes "CHR ''>'' \<notin> set (fw_listen r)" and "parse_u16 (fw_listen r) = None"
    and "trim (fw_listen r) = fw_listen r" and "trim (fw_target r) = fw_target r"
    and "fw_transport r = None \<or> fw_protocol r = KindTcp"
    and "fw_name r = None" and "fw_token r = None" and "fw_udp_idle_secs r = default_udp_idle_secs"
  shows "parse_map_flag (show_map_flag r) = Inr r"
proof -
  let ?suf = "show_suffix (fw_protocol r) (fw_transport r)"
  have "show_map_flag r = (fw_listen r @ ''->'' @ fw_target r) @ CHR ''/'' # ?suf"
    by (simp add: show_map_flag_def)
  then have "rsplit_once (CHR ''/'') (show_map_flag r) = Some (fw_listen r @ ''->'' @ fw_target r, ?suf)"
    by (simp only: rsplit_once_append [OF slash_suffix])
  moreover have "two_parts e (fw_listen r @ ''->'' @ fw_target r) = Inr (fw_listen r, fw_target r)" for e
    using two_parts_arrow assms(1,3,4) by simp
  ultimately show ?thesis
    using assms parse_show_suffix [OF assms(5)]
    by (simp add: parse_map_flag_def split_suffix_def normalize_listen_def)
qed

definition sample_forward :: forward_rule where
  "sample_forward = \<lparr>fw_name = None, fw_listen = ''h:1'', fw_target = ''t:2'', fw_protocol = KindTcp,
     fw_udp_idle_secs = 60, fw_transport = Some Noise, fw_token = None\<rparr>"

lemma sample_trim: "trim ''h:1'' = ''h:1''" "trim ''t:2'' = ''t:2''"
  by (auto intro!: trim_printable simp: printable_def)

theorem map_flag_roundtrip_witness:
  "parse_map_flag ''h:1->t:2/tcp+noise'' = Inr sample_forward"
proof -
  have "parse_u16 ''h:1'' = None" by (rule parse_u16_bad [of "CHR '':''"]) (auto simp: to_digit_def)
  with map_flag_roundtrip [of sample_forward] sample_trim show ?thesis
    by (simp add: sample_forward_def default_udp_idle_secs_def show_map_flag_def show_suffix_def)
qed

text \<open>
  Every mapping the command line yields is well formed: its listen address is never a bare
  port (a bare port was completed), it carries a transport only for TCP, it has no token, and
  the raw text is the listen part, an arrow and the target, followed by at most one suffix.
\<close>

theorem map_flag_sound:
  assumes "parse_map_flag raw = Inr r"
  shows "parse_u16 (fw_listen r) = None \<and> (fw_transport r = None \<or> fw_protocol r = KindTcp)
    \<and> fw_token r = None \<and> fw_udp_idle_secs r = default_udp_idle_secs
    \<and> (\<exists>rest l. two_parts (BadMapFlag raw) rest = Inr (l, fw_target r)
         \<and> fw_listen r \<in> {l, ''0.0.0.0:'' @ l}
         \<and> (raw = rest \<and> fw_protocol r = KindBoth \<or> (\<exists>proto. raw = rest @ CHR ''/'' # proto
              \<and> parse_protocol proto = Inr (fw_protocol r, fw_transport r))))"
proof -
  obtain rest p t where head: "split_suffix raw = Inr (rest, p, t)"
    and tail: "rbind (two_parts (BadMapFlag raw) rest) (\<lambda>(listen_raw, target_raw).
         rbind (normalize_listen listen_raw) (\<lambda>listen.
           Inr \<lparr>fw_name = None, fw_listen = listen, fw_target = target_raw, fw_protocol = p,
                fw_udp_idle_secs = default_udp_idle_secs, fw_transport = t, fw_token = None\<rparr>)) = Inr r"
    using assms by (auto simp: parse_map_flag_def rbind_eq_Inr_iff)
  from tail obtain l where two: "two_parts (BadMapFlag raw) rest = Inr (l, fw_target r)"
    and norm: "normalize_listen l = Inr (fw_listen r)"
    and r: "fw_protocol r = p" "fw_transport r = t" "fw_token r = None"
      "fw_udp_idle_secs r = default_udp_idle_secs"
    by (auto simp: rbind_eq_Inr_iff)
  have head: "(raw = rest \<and> p = KindBoth \<and> t = None) \<or>
      (\<exists>proto. raw = rest @ CHR ''/'' # proto \<and> parse_protocol proto = Inr (p, t))"
    using head rsplit_once_SomeD [of "CHR ''/''" raw]
    by (auto simp: split_suffix_def rbind_eq_Inr_iff split: option.splits)
  have "t = None \<or> p = KindTcp"
    using head parse_protocol_tcp by (cases t) fastforce+
  moreover have "fw_listen r \<in> {l, ''0.0.0.0:'' @ l}"
    using norm by (auto simp: normalize_listen_def split: if_splits)
  ultimately show ?thesis
    using head two r normalize_listen_qualified [OF norm] by auto
qed

theorem map_flag_sound_witness:
  "\<exists>r. parse_map_flag ''80->t:2'' = Inr r \<and> fw_listen r = ''0.0.0.0:80'' \<and> parse_u16 (fw_listen r) = None"
proof -
  have t: "trim ''80'' = ''80''" "trim ''t:2'' = ''t:2''"
    by (auto intro!: trim_printable simp: printable_def)
  have u: "parse_u16 ''80'' = Some 80" by (simp add: parse_u16_def to_digit_def)
  let ?r = "\<lparr>fw_name = None, fw_listen = ''0.0.0.0:80'', fw_target = ''t:2'', fw_protocol = KindBoth,
     fw_udp_idle_secs = default_udp_idle_secs, fw_transport = None, fw_token = None\<rparr>"
  have "rsplit_once (CHR ''/'') ''80->t:2'' = None" by (simp add: rsplit_once_None_iff)
  moreover have "CHR ''>'' \<notin> set ''80''" by simp
  from two_parts_arrow [OF this, of _ "''t:2''"]
  have two: "two_parts e ''80->t:2'' = Inr (''80'', ''t:2'')" for e by (simp add: t)
  ultimately have ok: "parse_map_flag ''80->t:2'' = Inr ?r"
    using two by (simp add: parse_map_flag_def split_suffix_def normalize_listen_def u)
  have q: "parse_u16 (fw_listen ?r) = None" by (rule conjunct1 [OF map_flag_sound [OF ok]])
  have l: "fw_listen ?r = ''0.0.0.0:80''" by simp
  show ?thesis by (rule exI [of _ ?r], intro conjI) (rule ok, rule l, rule q)
qed

end
