(* ===== verification/Reverse_Tunnel.thy ===== *)
theory Reverse_Tunnel
  imports Pump Registry Config Tenants
begin

text \<open>
  One tunnelled connection, both ends: \<open>relay\<close> on A (\<open>reverse/serve.rs\<close>) and
  \<open>handle_inbound_stream\<close> on B (\<open>reverse/connect.rs\<close>). The mux stream between them is a feed
  and a sink on each side; what yamux promises, that one side's feed delivers the bytes the other
  side's sink was sent, is a hypothesis of the end-to-end theorem (\<open>carries\<close>). Dialling the
  target is an argument. A future that is still pending when nothing more arrives is the error
  \<open>RelayPending\<close> or \<open>InboundPending\<close>: the code has not returned and has closed nothing.
\<close>

section \<open>A: relaying an external connection\<close>

datatype relay_error = OpeningMuxStream | SendingTunnelHeader io_error | WaitingForB io_error
  | TargetUnreachable string | CopyToB io_error | CopyFromB io_error | RelayPending

abbreviation sink_pump :: "feed \<Rightarrow> sink \<Rightarrow> u64 \<Rightarrow> (io_error + unit) \<times> sink \<times> u64" where
  "sink_pump f k n \<equiv> pump sink_write sink_shutdown (segs f) (fin f) k n"

text \<open>The task that feeds B: the bytes already read from the client, then the rest.\<close>

definition relay_to_b :: "byte list \<Rightarrow> feed \<Rightarrow> sink \<Rightarrow> (io_error + unit) \<times> sink \<times> u64" where
  "relay_to_b prefix client mux_w =
     (if prefix \<noteq> [] then
        (case sink_write prefix mux_w of
           (Inl e, mux_w') \<Rightarrow> (Inl e, mux_w', 0)
         | (Inr _, mux_w') \<Rightarrow> sink_pump client mux_w' (word_of_nat (length prefix)))
      else sink_pump client mux_w 0)"

text \<open>How far that task got when it is aborted: not at all, or through \<open>k\<close> segments.\<close>

definition aborted_to_b :: "nat option \<Rightarrow> byte list \<Rightarrow> feed \<Rightarrow> sink \<Rightarrow> sink \<times> u64" where
  "aborted_to_b progress prefix client mux_w = (case progress of
     None \<Rightarrow> (mux_w, 0)
   | Some k \<Rightarrow> snd (relay_to_b prefix \<lparr>segs = take k (segs client), fin = Silent\<rparr> mux_w))"

definition count_and_close :: "clocks \<Rightarrow> conn_info \<Rightarrow> u64 \<Rightarrow> u64 \<Rightarrow> registry \<Rightarrow> registry" where
  "count_and_close later info n m reg =
     reg_close later info (count_bytes (bytes_out info) m (count_bytes (bytes_in info) n reg))"

definition relay ::
  "clocks \<Rightarrow> clocks \<Rightarrow> bool \<Rightarrow> nat option \<Rightarrow> string \<Rightarrow> string \<Rightarrow> byte list \<Rightarrow> feed \<Rightarrow> sink \<Rightarrow> feed \<Rightarrow> sink
    \<Rightarrow> registry \<Rightarrow> (relay_error + unit) \<times> sink \<times> sink \<times> registry" where
  "relay now later opened progress peer tunnel_name prefix client client_w mux_r mux_w reg =
     (if \<not> opened then (Inl OpeningMuxStream, mux_w, client_w, reg)
      else case write_frame sink_write sink_flush (as_bytes tunnel_name) mux_w of
        (Inl e, mw) \<Rightarrow> (Inl (SendingTunnelHeader e), mw, client_w, reg)
      | (Inr _, mw) \<Rightarrow>
          let (info, reg1) = reg_open now (''reverse:'' @ tunnel_name) Tcp peer (''B:'' @ tunnel_name) reg;
              give_up = (\<lambda>e. case aborted_to_b progress prefix client mw of (mw', n) \<Rightarrow>
                (Inl e, mw', client_w, count_and_close later info n 0 reg1))
          in case feed_read_exact 1 mux_r of
               (Inl e, _) \<Rightarrow>
                 if e = Stalled
                 then (Inl RelayPending, fst (snd (relay_to_b prefix client mw)), client_w, reg1)
                 else give_up (WaitingForB e)
             | (Inr ready, mux_r') \<Rightarrow>
                 if ready ! 0 \<noteq> 1 then give_up (TargetUnreachable tunnel_name)
                 else (case relay_to_b prefix client mw of (r1, mw', n) \<Rightarrow>
                       (case sink_pump mux_r' client_w 0 of (r2, cw', m) \<Rightarrow>
                          if r1 = Inl Stalled \<or> r2 = Inl Stalled then (Inl RelayPending, mw', cw', reg1)
                          else (rbind (map_err CopyToB r1) (\<lambda>_. map_err CopyFromB r2), mw', cw',
                                count_and_close later info n m reg1))))"

section \<open>B: serving an inbound stream\<close>

datatype inbound_error = ReadingHeader io_error | HeaderNotUtf8 | UnknownTunnel string
  | DialFailed string | Acknowledging io_error | InboundCopy io_error | InboundPending

text \<open>The \<open>HashMap\<close> collected from the tunnel list: a repeated name keeps the last target.\<close>

definition targets_of :: "connect_tunnel list \<Rightarrow> string \<rightharpoonup> string" where
  "targets_of ts = fold (\<lambda>t m. m(ct_name t \<mapsto> ct_target t)) ts Map.empty"

text \<open>Once the target is connected and A has its answer.\<close>

definition pipe_target ::
  "clocks \<Rightarrow> clocks \<Rightarrow> string \<Rightarrow> string \<Rightarrow> feed \<Rightarrow> sink \<Rightarrow> feed \<Rightarrow> sink \<Rightarrow> registry
    \<Rightarrow> (inbound_error + unit) \<times> sink \<times> sink option \<times> registry" where
  "pipe_target now later name target_addr from_a to_a target_r target_w reg =
     (let (info, reg1) = reg_open now (''reverse:'' @ name) Tcp ''A'' target_addr reg
      in (case pipe_bidirectional_tracked from_a to_a target_r target_w 0 0 of
            (r, to_a', target_w', n, m) \<Rightarrow>
              if r = Inl Stalled then (Inl InboundPending, to_a', Some target_w', reg1)
              else (map_err InboundCopy r, to_a', Some target_w', count_and_close later info n m reg1)))"

definition handle_inbound_stream ::
  "clocks \<Rightarrow> clocks \<Rightarrow> (string \<rightharpoonup> string) \<Rightarrow> (string \<Rightarrow> (feed \<times> sink) option) \<Rightarrow> feed \<Rightarrow> sink \<Rightarrow> registry
    \<Rightarrow> (inbound_error + unit) \<times> sink \<times> sink option \<times> registry" where
  "handle_inbound_stream now later targets dial from_a to_a reg =
     (case read_frame feed_read_exact MAX_NAME_LEN from_a of
        (Inl e, _) \<Rightarrow> (Inl (ReadingHeader e), to_a, None, reg)
      | (Inr name_bytes, from_a1) \<Rightarrow>
          (case from_utf8 name_bytes of
             None \<Rightarrow> (Inl HeaderNotUtf8, to_a, None, reg)
           | Some name \<Rightarrow>
              (case targets name of
                 None \<Rightarrow> (Inl (UnknownTunnel name), to_a, None, reg)
               | Some target_addr \<Rightarrow>
                  (case dial target_addr of
                     None \<Rightarrow> (Inl (DialFailed target_addr), snd (sink_write [0] to_a), None, reg)
                   | Some (target_r, target_w) \<Rightarrow>
                      (case sink_write [1] to_a of
                         (Inl e, to_a1) \<Rightarrow> (Inl (Acknowledging e), to_a1, Some target_w, reg)
                       | (Inr _, to_a1) \<Rightarrow>
                          pipe_target now later name target_addr from_a1 to_a1 target_r target_w reg)))))"

section \<open>Each end on its own\<close>

lemma sink_frame_open:
  "sink_ok k \<Longrightarrow> length data \<le> 65535 \<Longrightarrow>
     write_frame sink_write sink_flush data k = (Inr (), sink_put (frame_bytes data) k)"
  by (simp add: write_frame_def sbind_def sink_flush_def frame_bytes_def)

lemma relay_to_b_open:
  "sink_ok k \<Longrightarrow> fin client = EndOfStream \<Longrightarrow>
     relay_to_b prefix client k = (Inr (), sink_shutdown (sink_put (prefix @ feed_bytes client) k),
       word_of_nat (length prefix + length (feed_bytes client)))"
  by (simp add: relay_to_b_def pump_open feed_bytes_def)

lemma relay_to_b_prefix:
  assumes "relay_to_b prefix client k = (r, k', n)"
  shows "\<exists>i. sink_bytes k' = sink_bytes k @ take i (prefix @ feed_bytes client)"
proof (cases "sink_write prefix k")
  case (Pair q k1)
  show ?thesis
  proof (cases "prefix = []")
    case True
    with assms snk.pump_prefix [of "segs client" "fin client" k 0 r k' n] show ?thesis
      by (auto simp: relay_to_b_def feed_bytes_def)
  next
    case False
    show ?thesis
    proof (cases q)
      case (Inl e)
      with Pair snk.wr_err obtain i where "i < length prefix" "sink_bytes k1 = sink_bytes k @ take i prefix"
        by blast
      with False assms Pair Inl show ?thesis
        by (auto simp: relay_to_b_def intro!: exI [of _ i])
    next
      case (Inr u)
      with Pair snk.wr_ok have w: "sink_bytes k1 = sink_bytes k @ prefix" by blast
      from False assms Pair Inr have "sink_pump client k1 (word_of_nat (length prefix)) = (r, k', n)"
        by (simp add: relay_to_b_def)
      from snk.pump_prefix [OF this] obtain i where "sink_bytes k' = sink_bytes k1 @ take i (feed_bytes client)"
        by (auto simp: feed_bytes_def)
      with w show ?thesis by (auto intro!: exI [of _ "length prefix + i"])
    qed
  qed
qed

lemma aborted_prefix:
  assumes "aborted_to_b progress prefix client k = (k', n)"
  shows "\<exists>i. sink_bytes k' = sink_bytes k @ take i (prefix @ feed_bytes client)"
proof (cases progress)
  case None
  with assms show ?thesis by (auto simp: aborted_to_b_def intro!: exI [of _ 0])
next
  case (Some j)
  let ?c = "\<lparr>segs = take j (segs client), fin = Silent\<rparr>"
  obtain r where "relay_to_b prefix ?c k = (r, k', n)"
    using assms Some by (cases "relay_to_b prefix ?c k") (auto simp: aborted_to_b_def)
  from relay_to_b_prefix [OF this] obtain i where
    i: "sink_bytes k' = sink_bytes k @ take i (prefix @ feed_bytes ?c)" by blast
  have c: "feed_bytes client = feed_bytes ?c @ concat (drop j (segs client))"
    by (simp add: feed_bytes_def flip: concat_append)
  have "take i (prefix @ feed_bytes ?c) =
      take (min i (length (prefix @ feed_bytes ?c))) (prefix @ feed_bytes client)"
    unfolding c by (simp add: min_def)
  with i show ?thesis by metis
qed

text \<open>Whatever happens on A, B is sent the header and a prefix of the client's bytes.\<close>

lemma relay_sends:
  assumes "relay now later True progress peer name prefix client cw mux_r mw reg = (r, mw', cw', reg')"
    and "sink_ok mw" and "length name \<le> 65535"
  shows "\<exists>i. sink_bytes mw' = sink_bytes mw @ frame_bytes (as_bytes name) @ take i (prefix @ feed_bytes client)"
proof -
  let ?mw = "sink_put (frame_bytes (as_bytes name)) mw"
  have w: "write_frame sink_write sink_flush (as_bytes name) mw = (Inr (), ?mw)"
    using assms(2,3) by (simp add: sink_frame_open)
  obtain info reg1 where o: "reg_open now (''reverse:'' @ name) Tcp peer (''B:'' @ name) reg = (info, reg1)"
    by force
  obtain a n where ab: "aborted_to_b progress prefix client ?mw = (a, n)" by force
  obtain q u m where up: "relay_to_b prefix client ?mw = (q, u, m)" by (metis prod_cases3)
  have "mw' = a \<or> mw' = u"
    using assms(1) w o ab up
    by (auto simp: relay_def Let_def split: prod.splits sum.splits if_splits)
  then show ?thesis using aborted_prefix [OF ab] relay_to_b_prefix [OF up] by auto
qed

text \<open>Bytes on the mux stream: one side's feed is what the other side's sink was sent.\<close>

definition carries :: "sink \<Rightarrow> feed \<Rightarrow> bool" where
  "carries k f \<longleftrightarrow> feed_bytes f = sink_bytes k \<and> fin f = (if shut k then EndOfStream else Silent)"

lemma feed_read_frame:
  assumes "feed_bytes f = frame_bytes data @ rest" and "length data \<le> max_len" and "length data \<le> 65535"
  shows "\<exists>f'. read_frame feed_read_exact max_len f = (Inr data, f') \<and> feed_bytes f' = rest \<and> fin f' = fin f"
proof -
  obtain f' where f': "read_frame feed_read_exact max_len f = (Inr data, f')" "feed_bytes f' = rest"
    using feed.read_frame_written [OF assms] by blast
  have "fin g' = fin g" if "feed_read_exact n g = (r, g')" for n g r g'
    using that by (auto simp: feed_read_exact_def split: if_splits)
  then have "fin f' = fin f"
    using f'(1) by (auto simp: read_frame_def sbind_eq_Inr_iff Let_def split: if_splits)
  with f' show ?thesis by blast
qed

lemma pipe_open:
  "sink_ok aw \<Longrightarrow> sink_ok bw \<Longrightarrow> fin ar = EndOfStream \<Longrightarrow> fin br = EndOfStream \<Longrightarrow>
     pipe_bidirectional_tracked ar aw br bw n m =
       (Inr (), sink_shutdown (sink_put (feed_bytes br) aw), sink_shutdown (sink_put (feed_bytes ar) bw),
        n + word_of_nat (length (feed_bytes ar)), m + word_of_nat (length (feed_bytes br)))"
  by (simp add: pipe_bidirectional_tracked_def pump_open feed_bytes_def)

text \<open>B's answer starts with the byte 1 as soon as it has dialled, whatever follows.\<close>

lemma inbound_accepts:
  assumes "feed_bytes from_a = frame_bytes (as_bytes name) @ rest" and "length name \<le> MAX_NAME_LEN"
    and "from_utf8 (as_bytes name) = Some name" and "targets name = Some addr"
    and "dial addr = Some (tr, tw)" and "sink_ok to_a"
  shows "\<exists>f1. feed_bytes f1 = rest \<and> fin f1 = fin from_a
    \<and> handle_inbound_stream now later targets dial from_a to_a reg =
        pipe_target now later name addr f1 (sink_put [1] to_a) tr tw reg"
proof -
  have "length (as_bytes name) \<le> MAX_NAME_LEN" "length (as_bytes name) \<le> 65535"
    using assms(2) by (simp_all add: MAX_NAME_LEN_def)
  from feed_read_frame [OF assms(1) this] obtain f1 where
    "read_frame feed_read_exact MAX_NAME_LEN from_a = (Inr (as_bytes name), f1)"
    "feed_bytes f1 = rest" "fin f1 = fin from_a" by blast
  with assms show ?thesis
    by (intro exI [of _ f1]) (simp add: handle_inbound_stream_def)
qed

lemma pipe_target_answer:
  assumes "pipe_target now later name addr f1 to_a tr tw reg = (r, to_a', tw', reg')"
  shows "\<exists>bs. sink_bytes to_a' = sink_bytes to_a @ bs"
proof -
  obtain q tw2 n m where "pipe_bidirectional_tracked f1 to_a tr tw 0 0 = (q, to_a', tw2, n, m)"
    using assms by (auto simp: pipe_target_def split: prod.splits if_splits)
  then obtain r2 m2 where "sink_pump tr to_a 0 = (r2, to_a', m2)"
    by (auto simp: pipe_bidirectional_tracked_def split: prod.splits)
  from snk.pump_prefix [OF this] show ?thesis by auto
qed

lemma pipe_target_open:
  assumes "sink_ok to_a" and "sink_ok tw" and "fin f1 = EndOfStream" and "fin tr = EndOfStream"
  shows "\<exists>reg'. pipe_target now later name addr f1 to_a tr tw reg =
    (Inr (), sink_shutdown (sink_put (feed_bytes tr) to_a), Some (sink_shutdown (sink_put (feed_bytes f1) tw)), reg')"
  using pipe_open [OF assms, of 0 0] by (simp add: pipe_target_def case_prod_beta)

section \<open>Properties\<close>

text \<open>Both ends together, for a tunnel that B serves.\<close>

lemma tunnel_carries:
  assumes "relay now later True progress peer name prefix client cw mux_r new_sink reg = (ra, mw', cw', reg')"
    and "handle_inbound_stream nowB laterB targets dial from_a new_sink regB = (rb, to_a', tw', regB')"
    and "carries mw' from_a" and "carries to_a' mux_r"
    and "length name \<le> MAX_NAME_LEN" and "from_utf8 (as_bytes name) = Some name"
    and "targets name = Some addr" and "dial addr = Some (tr, tw)"
    and "sink_ok cw" and "sink_ok tw" and "fin client = EndOfStream" and "fin tr = EndOfStream"
  shows "ra = Inr () \<and> rb = Inr ()
    \<and> (\<exists>t. tw' = Some t \<and> sink_bytes t = sink_bytes tw @ prefix @ feed_bytes client \<and> shut t)
    \<and> sink_bytes cw' = sink_bytes cw @ feed_bytes tr \<and> shut cw'"
proof -
  have new: "sink_ok new_sink" "sink_bytes new_sink = []" "shut new_sink = False"
    by (simp_all add: new_sink_def sink_ok_def sink_bytes_def)
  have nl: "length name \<le> 65535" using assms(5) by (simp add: MAX_NAME_LEN_def)
  let ?mw = "sink_put (frame_bytes (as_bytes name)) new_sink"
  obtain i where "feed_bytes from_a = frame_bytes (as_bytes name) @ take i (prefix @ feed_bytes client)"
    using relay_sends [OF assms(1) new(1) nl] assms(3) new(2) by (auto simp: carries_def)
  from inbound_accepts [where name = name and targets = targets and dial = dial, OF this assms(5-8) new(1)] obtain f0 where
    "pipe_target nowB laterB name addr f0 (sink_put [1] new_sink) tr tw regB = (rb, to_a', tw', regB')"
    using assms(2) by metis
  from pipe_target_answer [OF this] obtain bs where
    ans: "feed_bytes mux_r = 1 # bs" using assms(4) new(2) by (auto simp: carries_def)
  then obtain mux_r1 where m1: "feed_read_exact 1 mux_r = (Inr [1], mux_r1)"
      "feed_bytes mux_r1 = bs" "fin mux_r1 = fin mux_r"
    by (auto simp: feed_read_exact_def feed_bytes_def)
  obtain info reg1 where o: "reg_open now (''reverse:'' @ name) Tcp peer (''B:'' @ name) reg = (info, reg1)"
    by force
  have w: "write_frame sink_write sink_flush (as_bytes name) new_sink = (Inr (), ?mw)"
    using new(1) nl by (simp add: sink_frame_open)
  have up: "relay_to_b prefix client ?mw = (Inr (), sink_shutdown (sink_put (prefix @ feed_bytes client) ?mw),
      word_of_nat (length prefix + length (feed_bytes client)))"
    by (rule relay_to_b_open) (use new assms(11) in simp_all)
  have down: "sink_pump mux_r1 cw 0 =
     (if fin mux_r = EndOfStream then (Inr (), sink_shutdown (sink_put bs cw), word_of_nat (length bs))
      else (Inl (fin_error (fin mux_r)), sink_put bs cw, word_of_nat (length bs)))"
    using pump_open [OF assms(9)] m1 by (simp add: feed_bytes_def)
  have mw': "mw' = sink_shutdown (sink_put (prefix @ feed_bytes client) ?mw)"
    and A: "if fin mux_r = EndOfStream then ra = Inr () \<and> cw' = sink_shutdown (sink_put bs cw)
            else True"
    using assms(1) w o m1(1) up down by (auto simp: relay_def Let_def split: if_splits)
  have fa: "feed_bytes from_a = frame_bytes (as_bytes name) @ prefix @ feed_bytes client"
    "fin from_a = EndOfStream"
    using assms(3) mw' new by (simp_all add: carries_def sink_shutdown_def sink_bytes_def sink_put_def)
  obtain f1 where f1: "feed_bytes f1 = prefix @ feed_bytes client" "fin f1 = EndOfStream"
    and run: "pipe_target nowB laterB name addr f1 (sink_put [1] new_sink) tr tw regB = (rb, to_a', tw', regB')"
    using inbound_accepts [where name = name and targets = targets and dial = dial, OF fa(1) assms(5-8) new(1)] fa(2) assms(2) by metis
  have B: "rb = Inr ()" "to_a' = sink_shutdown (sink_put (feed_bytes tr) (sink_put [1] new_sink))"
    "tw' = Some (sink_shutdown (sink_put (prefix @ feed_bytes client) tw))"
    using pipe_target_open [OF _ assms(10) f1(2) assms(12), of "sink_put [1] new_sink"] run new(1) f1(1)
    by (metis Pair_inject sink_put_simps(1))+
  then have "feed_bytes mux_r = 1 # feed_bytes tr" "fin mux_r = EndOfStream"
    using assms(4) new by (simp_all add: carries_def sink_shutdown_def sink_bytes_def sink_put_def)
  with A B ans show ?thesis
    by (simp add: sink_shutdown_def sink_bytes_def sink_put_def)
qed

text \<open>Streams that carry what the two ends write exist: those of a run without a pause.\<close>

lemma tunnel_realised:
  fixes prefix :: "byte list"
  assumes "length name \<le> MAX_NAME_LEN" and "from_utf8 (as_bytes name) = Some name"
    and "targets name = Some addr" and "dial addr = Some (tr, tw)"
    and "sink_ok cw" and "sink_ok tw" and "fin client = EndOfStream" and "fin tr = EndOfStream"
  defines "mux_r \<equiv> \<lparr>segs = [1 # feed_bytes tr], fin = EndOfStream\<rparr>"
    and "from_a \<equiv> \<lparr>segs = [frame_bytes (as_bytes name) @ prefix @ feed_bytes client], fin = EndOfStream\<rparr>"
  shows "\<exists>mw cw' reg'. relay now later True progress peer name prefix client cw mux_r new_sink reg =
      (Inr (), mw, cw', reg') \<and> carries mw from_a"
    and "\<exists>to_a tw' regB'. handle_inbound_stream nowB laterB targets dial from_a new_sink regB =
      (Inr (), to_a, Some tw', regB') \<and> carries to_a mux_r"
proof -
  have new: "sink_ok new_sink" "sink_bytes new_sink = []" "shut new_sink = False"
    by (simp_all add: new_sink_def sink_ok_def sink_bytes_def)
  have nl: "length name \<le> 65535" using assms(1) by (simp add: MAX_NAME_LEN_def)
  let ?mw = "sink_put (frame_bytes (as_bytes name)) new_sink"
  have w: "write_frame sink_write sink_flush (as_bytes name) new_sink = (Inr (), ?mw)"
    using new(1) nl by (simp add: sink_frame_open)
  have fx: "feed_read_exact 1 mux_r = (Inr [1], mux_r\<lparr>segs := drop_bytes 1 (segs mux_r)\<rparr>)"
    by (simp add: feed_read_exact_def feed_bytes_def mux_r_def)
  have up: "relay_to_b prefix client ?mw = (Inr (), sink_shutdown (sink_put (prefix @ feed_bytes client) ?mw),
      word_of_nat (length prefix + length (feed_bytes client)))"
    by (rule relay_to_b_open) (use new assms(7) in simp_all)
  obtain ra mw cw' reg' where A: "relay now later True progress peer name prefix client cw mux_r new_sink reg = (ra, mw, cw', reg')"
    by (metis prod_cases4)
  obtain info reg1 where o: "reg_open now (''reverse:'' @ name) Tcp peer (''B:'' @ name) reg = (info, reg1)" by force
  let ?f = "mux_r\<lparr>segs := drop_bytes 1 (segs mux_r)\<rparr>"
  have down: "sink_pump ?f cw 0 = (Inr (), sink_shutdown (sink_put (feed_bytes ?f) cw), word_of_nat (length (feed_bytes ?f)))"
    using pump_open [OF assms(5), of "segs ?f" EndOfStream 0] by (simp add: mux_r_def feed_bytes_def)
  have "ra = Inr () \<and> mw = sink_shutdown (sink_put (prefix @ feed_bytes client) ?mw)"
    using A w o fx up down by (auto simp: relay_def Let_def split: if_splits)
  then have "ra = Inr () \<and> carries mw from_a"
    using new by (simp add: carries_def from_a_def feed_bytes_def sink_shutdown_def sink_bytes_def sink_put_def)
  with A show "\<exists>mw cw' reg'. relay now later True progress peer name prefix client cw mux_r new_sink reg =
      (Inr (), mw, cw', reg') \<and> carries mw from_a" by blast
  have "feed_bytes from_a = frame_bytes (as_bytes name) @ prefix @ feed_bytes client" by (simp add: from_a_def feed_bytes_def)
  from inbound_accepts [where name = name and targets = targets and dial = dial, OF this assms(1-4) new(1)]
  obtain f1 where f1: "feed_bytes f1 = prefix @ feed_bytes client" "fin f1 = fin from_a"
    and run: "handle_inbound_stream nowB laterB targets dial from_a new_sink regB =
      pipe_target nowB laterB name addr f1 (sink_put [1] new_sink) tr tw regB" by blast
  have "fin f1 = EndOfStream" "sink_ok (sink_put [1] new_sink)" using f1(2) new by (simp_all add: from_a_def)
  with pipe_target_open [OF this(2) assms(6) this(1) assms(8), of nowB laterB name addr regB]
  obtain regB' where "handle_inbound_stream nowB laterB targets dial from_a new_sink regB =
      (Inr (), sink_shutdown (sink_put (feed_bytes tr) (sink_put [1] new_sink)), Some (sink_shutdown (sink_put (feed_bytes f1) tw)), regB')"
    unfolding run by blast
  moreover have "carries (sink_shutdown (sink_put (feed_bytes tr) (sink_put [1] new_sink))) mux_r"
    using new by (simp add: carries_def mux_r_def feed_bytes_def sink_shutdown_def sink_bytes_def sink_put_def)
  ultimately show "\<exists>to_a tw' regB'. handle_inbound_stream nowB laterB targets dial from_a new_sink regB =
      (Inr (), to_a, Some tw', regB') \<and> carries to_a mux_r" by blast
qed

text \<open>
  A tunnelled connection is transparent from end to end. When A relays a client through a mux
  stream that carries bytes faithfully, to a B that knows the tunnel and reaches the target, and
  both peers end their streams, then the target has been sent exactly the bytes A had already
  read followed by the rest the client sent, the client exactly the target's bytes, without the
  header or the acknowledgement byte; both are shut down, and both ends report success.
\<close>

theorem tunnel_transparent:
  assumes "relay now later True progress peer name prefix client cw mux_r new_sink reg = (ra, mw', cw', reg')"
    and "handle_inbound_stream nowB laterB targets dial from_a new_sink regB = (rb, to_a', tw', regB')"
    and "carries mw' from_a" and "carries to_a' mux_r"
    and "length name \<le> MAX_NAME_LEN" and "from_utf8 (as_bytes name) = Some name"
    and "targets name = Some addr" and "dial addr = Some (tr, tw)"
    and "sink_ok cw" and "sink_ok tw" and "fin client = EndOfStream" and "fin tr = EndOfStream"
  shows "ra = Inr () \<and> rb = Inr ()
    \<and> (\<exists>t. tw' = Some t \<and> sink_bytes t = sink_bytes tw @ prefix @ feed_bytes client \<and> shut t)
    \<and> sink_bytes cw' = sink_bytes cw @ feed_bytes tr \<and> shut cw'"
  using assms by (rule tunnel_carries)

definition hi_feed :: feed where "hi_feed = \<lparr>segs = [[104], [105]], fin = EndOfStream\<rparr>"

definition demo_dial :: "string \<Rightarrow> (feed \<times> sink) option" where
  "demo_dial a = (if a = ''t:1'' then Some (\<lparr>segs = [[111, 107]], fin = EndOfStream\<rparr>, new_sink) else None)"

theorem tunnel_transparent_witness:
  "\<exists>ra mw cw reg rb ta tw regB.
     relay (0, 0) (1, 1) True None ''p'' ''web'' [22] hi_feed new_sink
       \<lparr>segs = [[1, 111], [107]], fin = EndOfStream\<rparr> new_sink registry_new = (ra, mw, cw, reg)
     \<and> handle_inbound_stream (0, 0) (1, 1) (targets_of [\<lparr>ct_name = ''web'', ct_target = ''t:1''\<rparr>]) demo_dial
       \<lparr>segs = [[0, 3, 119], [101, 98, 22, 104, 105]], fin = EndOfStream\<rparr> new_sink registry_new = (rb, ta, Some tw, regB)
     \<and> sink_bytes tw = [22, 104, 105] \<and> sink_bytes cw = [111, 107]"
proof -
  let ?from_a = "\<lparr>segs = [[0, 3, 119], [101, 98, 22, 104, 105]], fin = EndOfStream\<rparr>"
  let ?mux_r = "\<lparr>segs = [[1, 111], [107]], fin = EndOfStream\<rparr>"
  let ?targets = "targets_of [\<lparr>ct_name = ''web'', ct_target = ''t:1''\<rparr>]"
  let ?tr = "\<lparr>segs = [[111, 107]], fin = EndOfStream\<rparr> :: feed"
  have new: "sink_ok new_sink" "sink_bytes new_sink = []" "shut new_sink = False"
    by (simp_all add: new_sink_def sink_ok_def sink_bytes_def)
  have name: "from_utf8 (as_bytes ''web'') = Some ''web''"
    by (rule from_utf8_ascii) (simp add: is_ascii_def)
  have fr: "frame_bytes (as_bytes ''web'') = [0, 3, 119, 101, 98]"
    by (simp add: frame_bytes_def to_be16_def byte_of_char_def)
  have tgt: "?targets ''web'' = Some ''t:1''" by (simp add: targets_of_def)
  have dl: "demo_dial ''t:1'' = Some (?tr, new_sink)" by (simp add: demo_dial_def)
  obtain ra mw cw reg where
    A: "relay (0, 0) (1, 1) True None ''p'' ''web'' [22] hi_feed new_sink ?mux_r new_sink registry_new = (ra, mw, cw, reg)"
    by (metis prod_cases4)
  have fx: "feed_read_exact 1 ?mux_r = (Inr [1], ?mux_r\<lparr>segs := [[111], [107]]\<rparr>)"
    by (simp add: feed_read_exact_def feed_bytes_def)
  have up: "relay_to_b [22] hi_feed (sink_put [0, 3, 119, 101, 98] new_sink) =
      (Inr (), sink_shutdown (sink_put [22, 104, 105] (sink_put [0, 3, 119, 101, 98] new_sink)), 3)"
    using relay_to_b_open [of "sink_put [0, 3, 119, 101, 98] new_sink" hi_feed "[22]"] new
    by (simp add: hi_feed_def feed_bytes_def)
  have "mw = sink_shutdown (sink_put [22, 104, 105] (sink_put [0, 3, 119, 101, 98] new_sink))"
    using A new up fx sink_frame_open [of new_sink "as_bytes ''web''"]
    by (auto simp: relay_def Let_def fr [simplified] pump_open split: prod.splits if_splits)
  then have cA: "carries mw ?from_a"
    using new by (simp add: carries_def feed_bytes_def sink_shutdown_def sink_bytes_def sink_put_def)
  have h: "feed_bytes ?from_a = frame_bytes (as_bytes ''web'') @ [22, 104, 105]"
    unfolding fr by (simp add: feed_bytes_def)
  have l: "length ''web'' \<le> MAX_NAME_LEN" by (simp add: MAX_NAME_LEN_def)
  obtain f1 where f1: "feed_bytes f1 = [22, 104, 105]" "fin f1 = fin ?from_a"
    "handle_inbound_stream (0, 0) (1, 1) ?targets demo_dial ?from_a new_sink registry_new =
        pipe_target (0, 0) (1, 1) ''web'' ''t:1'' f1 (sink_put [1] new_sink) ?tr new_sink registry_new"
    using inbound_accepts [where targets = ?targets and dial = demo_dial, OF h l name tgt dl new(1)] by blast
  have ends: "fin f1 = EndOfStream" "fin ?tr = EndOfStream" "sink_ok (sink_put [1] new_sink)"
    using f1(2) new by simp_all
  obtain regB where
    B: "handle_inbound_stream (0, 0) (1, 1) ?targets demo_dial ?from_a new_sink registry_new =
      (Inr (), sink_shutdown (sink_put [111, 107] (sink_put [1] new_sink)), Some (sink_shutdown (sink_put [22, 104, 105] new_sink)), regB)"
    using pipe_target_open [OF ends(3) new(1) ends(1,2), of "(0, 0)" "(1, 1)" "''web''" "''t:1''" registry_new]
    unfolding f1(1,3) by (auto simp: feed_bytes_def)
  have cB: "carries (sink_shutdown (sink_put [111, 107] (sink_put [1] new_sink))) ?mux_r"
    using new by (simp add: carries_def feed_bytes_def sink_shutdown_def sink_bytes_def sink_put_def)
  note t = tunnel_transparent [OF A B cA cB l name tgt dl new(1) new(1)]
  from t ends(2) new(2) have "sink_bytes cw = [111, 107]"
    and "sink_bytes (sink_shutdown (sink_put [22, 104, 105] new_sink)) = [22, 104, 105]"
    by (simp_all add: hi_feed_def feed_bytes_def)
  with A B show ?thesis by blast
qed

lemma inbound_no_target:
  assumes "handle_inbound_stream now later targets dial from_a new_sink reg = (r, to_a, None, reg')"
  shows "sink_bytes to_a = [] \<or> sink_bytes to_a = [0]"
proof -
  have new: "sink_ok new_sink" "sink_bytes new_sink = []"
    by (simp_all add: new_sink_def sink_ok_def sink_bytes_def)
  have no: "pipe_target now later n a f k tr tw q \<noteq> (r, to_a, None, reg')" for n a f k tr tw q
    by (auto simp: pipe_target_def split: prod.splits)
  have "to_a = new_sink \<or> to_a = sink_put [0] new_sink"
    using assms no new(1)
    by (auto simp: handle_inbound_stream_def split: prod.splits sum.splits option.splits)
  then show ?thesis using new(2) by auto
qed

lemma relay_refused:
  assumes "relay now later opened progress peer name prefix client cw mux_r mw reg = (ra, mw', cw', reg')"
    and "feed_bytes mux_r = [] \<or> feed_bytes mux_r = [0]"
  shows "ra \<noteq> Inr () \<and> cw' = cw"
proof -
  have "(\<exists>e f. feed_read_exact 1 mux_r = (Inl e, f)) \<or> (\<exists>f. feed_read_exact 1 mux_r = (Inr [0], f))"
    using assms(2) by (auto simp: feed_read_exact_def)
  then show ?thesis
    using assms(1) by (auto simp: relay_def Let_def split: if_splits prod.splits sum.splits)
qed

text \<open>
  When B cannot serve a connection (bad header, unknown tunnel, failed dial), the external
  client is sent nothing at all: B answers with nothing or with the byte 0, and A, reading that
  answer, reports an error and has not touched the client's side, however long the client's
  bytes kept flowing towards B.
\<close>

theorem refusal_reaches_no_client:
  assumes "handle_inbound_stream nowB laterB targets dial from_a new_sink regB = (rb, to_a, None, regB')"
    and "feed_bytes mux_r = sink_bytes to_a"
    and "relay now later opened progress peer name prefix client cw mux_r mw reg = (ra, mw', cw', reg')"
  shows "ra \<noteq> Inr () \<and> cw' = cw"
  using relay_refused [OF assms(3)] inbound_no_target [OF assms(1)] assms(2) by simp

theorem refusal_reaches_no_client_witness:
  "fst (snd (snd (relay (0, 0) (1, 1) True None ''p'' ''web'' [] hi_feed new_sink
      \<lparr>segs = [[0]], fin = EndOfStream\<rparr> new_sink registry_new))) = new_sink"
proof -
  obtain ra mw cw reg where A: "relay (0, 0) (1, 1) True None ''p'' ''web'' [] hi_feed new_sink
      \<lparr>segs = [[0]], fin = EndOfStream\<rparr> new_sink registry_new = (ra, mw, cw, reg)"
    by (metis prod_cases4)
  have name: "from_utf8 (as_bytes ''web'') = Some ''web''"
    by (rule from_utf8_ascii) (simp add: is_ascii_def)
  have f: "feed_bytes (feed_of [frame_bytes (as_bytes ''web'')]) = frame_bytes (as_bytes ''web'') @ []"
    by (simp add: feed_of_def feed_bytes_def)
  have l: "length (as_bytes ''web'') \<le> MAX_NAME_LEN" by (simp add: MAX_NAME_LEN_def)
  obtain f1 where "read_frame feed_read_exact MAX_NAME_LEN (feed_of [frame_bytes (as_bytes ''web'')]) = (Inr (as_bytes ''web''), f1)"
    using feed_read_frame [OF f l] by auto
  then have B: "handle_inbound_stream (0, 0) (1, 1) (targets_of [\<lparr>ct_name = ''web'', ct_target = ''x''\<rparr>]) demo_dial
      (feed_of [frame_bytes (as_bytes ''web'')]) new_sink registry_new =
      (Inl (DialFailed ''x''), sink_put [0] new_sink, None, registry_new)"
    using name by (simp add: handle_inbound_stream_def targets_of_def demo_dial_def new_sink_def sink_ok_def)
  have "feed_bytes \<lparr>segs = [[0]], fin = EndOfStream\<rparr> = sink_bytes (sink_put [0] new_sink)"
    by (simp add: feed_bytes_def) (simp add: new_sink_def sink_bytes_def)
  from refusal_reaches_no_client [OF B this A] A show ?thesis by simp
qed

text \<open>
  The two ends disagree about names. A sends the header of any name of up to 65535 bytes, and
  a tenant set with such a name is valid, but B refuses a header of more than 256: a tunnel or a
  tenant with a longer name can never be served, though nothing rejects it when it is configured.
\<close>

theorem long_name_unreachable:
  assumes "MAX_NAME_LEN < length name" and "length name \<le> 65535"
    and "relay now later True progress peer name prefix client cw mux_r new_sink reg = (ra, mw, cw', reg')"
    and "feed_bytes from_a = sink_bytes mw"
  shows "handle_inbound_stream nowB laterB targets dial from_a new_sink regB =
      (Inl (ReadingHeader InvalidData), new_sink, None, regB)
    \<and> is_ok (tenant_set_new [\<lparr>tname = name, tpsk = sample_psk 1, tsni = ''a.example'', tmax_conns = 1, disabled = False\<rparr>] [])"
proof
  have new: "sink_ok new_sink" "sink_bytes new_sink = []"
    by (simp_all add: new_sink_def sink_ok_def sink_bytes_def)
  obtain i where "feed_bytes from_a = frame_bytes (as_bytes name) @ take i (prefix @ feed_bytes client)"
    using relay_sends [OF assms(3) new(1) assms(2)] assms(4) new(2) by auto
  then have "feed_bytes from_a = to_be16 (length name) @ (as_bytes name @ take i (prefix @ feed_bytes client))"
    by (simp add: frame_bytes_def)
  from feed.read_frame_too_long [OF this assms(1,2)]
  show "handle_inbound_stream nowB laterB targets dial from_a new_sink regB =
      (Inl (ReadingHeader InvalidData), new_sink, None, regB)"
    by (auto simp: handle_inbound_stream_def)
  have "name \<noteq> []" using assms(1) by auto
  then show "is_ok (tenant_set_new [\<lparr>tname = name, tpsk = sample_psk 1, tsni = ''a.example'', tmax_conns = 1, disabled = False\<rparr>] [])"
    by (simp add: is_ok_iff tenant_set_new_iff wf_set_def wf_tenant_def sample_hosts)
qed

theorem long_name_unreachable_witness:
  "\<exists>ra mw cw reg. relay (0, 0) (1, 1) True None ''p'' (replicate 300 (CHR ''a'')) [] hi_feed new_sink
      \<lparr>segs = [], fin = EndOfStream\<rparr> new_sink registry_new = (ra, mw, cw, reg)
    \<and> fst (handle_inbound_stream (0, 0) (1, 1) Map.empty demo_dial \<lparr>segs = [sink_bytes mw], fin = EndOfStream\<rparr>
        new_sink registry_new) = Inl (ReadingHeader InvalidData)"
proof -
  obtain ra mw cw reg where A: "relay (0, 0) (1, 1) True None ''p'' (replicate 300 (CHR ''a'')) [] hi_feed new_sink
      \<lparr>segs = [], fin = EndOfStream\<rparr> new_sink registry_new = (ra, mw, cw, reg)"
    by (metis prod_cases4)
  have "feed_bytes \<lparr>segs = [sink_bytes mw], fin = EndOfStream\<rparr> = sink_bytes mw" by (simp add: feed_bytes_def)
  from long_name_unreachable [OF _ _ A this] A show ?thesis by (auto simp: MAX_NAME_LEN_def)
qed

section \<open>Accounting\<close>

lemma rep_count_and_close:
  assumes "reg_rep reg hs L" and "length L < 2 ^ 64 - 1" and "reg_open now lb p src dst reg = (info, reg1)"
  shows "reg_rep (count_and_close later info n m reg1) (hs @ [info]) (L @ [(n, m, False)])"
proof -
  let ?L = "L @ [(0, 0, True)]" and ?hs = "hs @ [info]"
  have len: "length hs = length L" using assms(1) by (simp add: reg_rep_def ids_ok_def)
  have rep1: "reg_rep reg1 ?hs ?L" by (rule rep_open [OF assms])
  have "reg_rep (count_bytes (bytes_out info) m (count_bytes (bytes_in info) n reg1)) ?hs (L @ [(n, m, True)])"
    using rep_moved [OF rep1, of "length L" _ m n] len by (simp add: nth_append)
  from rep_close [OF this, of "length L" later] len show ?thesis
    by (simp add: count_and_close_def nth_append)
qed

text \<open>
  C33: A relayed connection is accounted for on every path: once \<open>relay\<close> has returned, with success
  or any error, no entry of it is left among the live connections, and at most one connection has
  been added to the registry's ledger.
\<close>

theorem relay_closes_entry:
  assumes "reg_rep reg hs L" and "length L < 2 ^ 64 - 1"
    and "relay now later opened progress peer name prefix client cw mux_r mw reg = (r, mw', cw', reg')"
    and "r \<noteq> Inl RelayPending"
  shows "\<exists>hs' L'. reg_rep reg' hs' L' \<and> L' \<in> {L} \<union> {L @ [(n, m, False)] | n m. True}
    \<and> live_connections (reg_totals reg') = live_connections (reg_totals reg)"
proof -
  obtain info reg1 where o: "reg_open now (''reverse:'' @ name) Tcp peer (''B:'' @ name) reg = (info, reg1)"
    by force
  have "reg' = reg \<or> (\<exists>n m. reg' = count_and_close later info n m reg1)"
    using assms(3,4) o
    by (auto simp: relay_def Let_def split: if_splits prod.splits sum.splits)
  then obtain hs' L' where L': "reg_rep reg' hs' L'" "L' \<in> {L} \<union> {L @ [(n, m, False)] | n m. True}"
  proof
    assume "reg' = reg"
    with assms(1) that show thesis by blast
  next
    assume "\<exists>n m. reg' = count_and_close later info n m reg1"
    with rep_count_and_close [OF assms(1,2) o] that show thesis by blast
  qed
  then have "length (filter row_open L') = length (filter row_open L)" by auto
  with rep_totals [OF L'(1)] rep_totals [OF assms(1)] L' show ?thesis
    by (auto simp: ledger_totals_def)
qed

theorem relay_closes_entry_witness:
  "live_connections (reg_totals (snd (snd (snd (relay (0, 0) (1, 1) True None ''p'' ''web'' [] hi_feed new_sink
      \<lparr>segs = [[0]], fin = EndOfStream\<rparr> new_sink registry_new))))) = 0"
proof -
  obtain ra mw cw reg where A: "relay (0, 0) (1, 1) True None ''p'' ''web'' [] hi_feed new_sink
      \<lparr>segs = [[0]], fin = EndOfStream\<rparr> new_sink registry_new = (ra, mw, cw, reg)"
    by (metis prod_cases4)
  have "ra \<noteq> Inl RelayPending"
    using A by (auto simp: relay_def feed_read_exact_def feed_bytes_def new_sink_def sink_frame_open sink_ok_def
        split: prod.splits)
  with relay_closes_entry [OF reg_rep_new _ A] A show ?thesis
    by (auto simp: reg_totals_def registry_new_def)
qed

text \<open>
  Only a relay that returns closes its entry. One that shutdown drops while it is pending leaves
  the entry on the live list and its bytes outside the totals, and no close event is emitted.
\<close>

theorem dropped_relay_stays_live:
  assumes "relay now later opened progress peer name prefix client cw mux_r mw reg = (Inl RelayPending, mw', cw', reg')"
  shows "\<exists>info. live reg' = live reg @ [info] \<and> conn_id info = next_id reg
    \<and> total_bytes_in reg' = total_bytes_in reg
    \<and> emitted reg' = emitted reg @ [ConnectionOpened (next_id reg) (''reverse:'' @ name) Tcp peer (''B:'' @ name)]"
proof -
  have "reg' = snd (reg_open now (''reverse:'' @ name) Tcp peer (''B:'' @ name) reg)"
    using assms by (auto simp: relay_def Let_def rbind_def map_err_def split: if_splits prod.splits sum.splits)
  then show ?thesis
    by (simp add: reg_open_def fetch_next_id_def new_cell_def push_event_def Let_def)
qed

end
