(* ===== verification/Sni_Relay.thy ===== *)
theory Sni_Relay
  imports Sni Hub Reverse_Tunnel
begin

text \<open>
  The whole path of a TLS connection through a multi-tenant \<open>serve\<close>: \<open>handle_sni\<close>
  (\<open>reverse/tenant_serve.rs\<close>) from the first byte of the client to the end of its relay, over the
  parser of \<open>Sni\<close>, the lookups and the budget of \<open>Hub\<close> and the relay of \<open>Reverse_Tunnel\<close>, and its
  composition with the tenant's side. \<open>Hub_System\<close> has the same handler as interleaved steps.
\<close>

section \<open>The handler\<close>

datatype sni_conn_error = PeekingSni sni_error | NotRouted route_error | RelayFailed relay_error

text \<open>
  \<open>streams\<close> are the streams the sessions' drivers would open, none where opening fails. The result
  has the stream that was written to, with its session. The slot is given back when the relay ends.
\<close>

definition handle_sni ::
  "clocks \<Rightarrow> clocks \<Rightarrow> (nat \<Rightarrow> (feed \<times> sink) option) \<Rightarrow> nat option \<Rightarrow> string \<Rightarrow> feed \<Rightarrow> sink \<Rightarrow> hub \<Rightarrow> registry
    \<Rightarrow> (sni_conn_error + unit) \<times> sink \<times> (nat \<times> sink) option \<times> hub \<times> registry" where
  "handle_sni now later streams progress peer client client_w h reg =
     (case peek_sni feed_read_exact client of
        (Inl e, _) \<Rightarrow> (Inl (PeekingSni e), client_w, None, h, reg)
      | (Inr peeked, client') \<Rightarrow>
          (case route_sni (peeked_sni peeked) h of
             (Inl e, h1) \<Rightarrow> (Inl (NotRouted e), client_w, None, h1, reg)
           | (Inr (t, c, sem), h1) \<Rightarrow>
               (let (mux_r, mux_w) = (case streams c of None \<Rightarrow> (\<lparr>segs = [], fin = EndOfStream\<rparr>, new_sink) | Some rw \<Rightarrow> rw)
                in case relay now later (streams c \<noteq> None) progress peer (tname t) (buffered peeked) client' client_w
                          mux_r mux_w reg of
                     (r, mux_w', client_w', reg') \<Rightarrow>
                       (map_err RelayFailed r, client_w', map_option (\<lambda>_. (c, mux_w')) (streams c),
                        (if r = Inl RelayPending then h1 else release_slot sem h1), reg'))))"

section \<open>Peeking at a client\<close>

lemma enc_record_header:
  assumes "wf_hello hello"
  shows "check_header (take RECORD_HEADER_LEN (enc_record minor hello)) = Inr (length (enc_handshake hello))"
    and "length (enc_record minor hello) = RECORD_HEADER_LEN + length (enc_handshake hello)"
proof -
  have n: "0 < length (enc_handshake hello)" "length (enc_handshake hello) \<le> MAX_RECORD_BODY"
    using assms by (auto simp: enc_handshake_def wf_hello_def)
  show "check_header (take RECORD_HEADER_LEN (enc_record minor hello)) = Inr (length (enc_handshake hello))"
    using check_header_enc [OF n] by (simp add: enc_record_def RECORD_HEADER_LEN_def to_be16_def)
  show "length (enc_record minor hello) = RECORD_HEADER_LEN + length (enc_handshake hello)"
    by (simp add: enc_record_def RECORD_HEADER_LEN_def to_be16_def)
qed

lemma read_exact_fin: "feed_read_exact n f = (r, f') \<Longrightarrow> fin f' = fin f"
  by (auto simp: feed_read_exact_def split: if_splits)

lemma peek_keeps_fin:
  assumes "peek_sni feed_read_exact f = (r, f')"
  shows "fin f' = fin f"
  using assms by (auto simp: peek_sni_def read_record_def dest!: read_exact_fin split: prod.splits sum.splits)

lemma peek_hello:
  assumes "wf_hello hello" and "feed_bytes client = enc_record minor hello @ rest"
  obtains client' where "peek_sni feed_read_exact client =
      (Inr \<lparr>peeked_sni = hello_sni hello, buffered = enc_record minor hello\<rparr>, client')"
    and "feed_bytes client' = rest" and "fin client' = fin client"
proof -
  have "parse_record (enc_record minor hello) = Inr (hello_sni hello)"
    using parse_record_enc [OF assms(1), of minor "[]"] by simp
  from exact_reader.peek_sni_record [OF feed.exact_reader_axioms assms(2) enc_record_header [OF assms(1)] this]
  obtain client' where c: "peek_sni feed_read_exact client =
      (Inr \<lparr>peeked_sni = hello_sni hello, buffered = enc_record minor hello\<rparr>, client')" "feed_bytes client' = rest"
    by blast
  have "fin client' = fin client" by (rule peek_keeps_fin [OF c(1)])
  with c that show ?thesis by blast
qed


section \<open>Routing\<close>

lemma route_granted:
  assumes "route_sni name h = (Inr (t, c, sem), h1)"
  obtains host q where "name = Some host" and "tenant_by_sni (published h) host = Some t"
    and "sessions h (tname t) = Some q" and "c = control q" and "try_acquire t h = (Some sem, h1)"
  using assms by (auto simp: route_sni_def split: option.splits prod.splits)

lemma budget_entry_free: "budget_entry t h = (b, h1) \<Longrightarrow> sem \<noteq> sem_next h \<Longrightarrow> sem_free h1 sem = sem_free h sem"
  by (auto simp: budget_entry_def split: option.splits prod.splits if_splits)

lemma route_refused:
  assumes "route_sni name h = (Inl e, h1)" and "sem \<noteq> sem_next h"
  shows "sem_free h1 sem = sem_free h sem"
  using assms budget_entry_free [OF _ assms(2)]
  by (auto simp: route_sni_def try_acquire_def split: option.splits prod.splits if_splits)

lemma acquire_release:
  assumes "try_acquire t h = (Some sem, h1)" and "s \<noteq> sem_next h"
  shows "sem_free (release_slot sem h1) s = sem_free h s"
  using assms(1) budget_entry_free [OF _ assms(2)]
  by (auto simp: try_acquire_def release_slot_def split: prod.splits if_splits)

text \<open>A hello that is routed is relayed with what was read of it.\<close>

lemma handle_sni_routed:
  assumes "wf_hello hello" and "hello_sni hello = Some host" and "feed_bytes client = enc_record minor hello @ rest"
    and "tenant_by_sni (published h) host = Some t" and "sessions h (tname t) = Some q"
    and "try_acquire t h = (Some sem, h1)" and "streams (control q) = Some (mux_r, mux_w)"
  obtains client' where "feed_bytes client' = rest" and "fin client' = fin client"
    and "\<And>r mw w reg'. relay now later True progress peer (tname t) (enc_record minor hello) client' cw
        mux_r mux_w reg = (r, mw, w, reg') \<Longrightarrow>
      handle_sni now later streams progress peer client cw h reg = (map_err RelayFailed r, w, Some (control q, mw),
        if r = Inl RelayPending then h1 else release_slot sem h1, reg')"
proof -
  obtain client' where p: "peek_sni feed_read_exact client =
      (Inr \<lparr>peeked_sni = hello_sni hello, buffered = enc_record minor hello\<rparr>, client')"
    and c: "feed_bytes client' = rest" "fin client' = fin client"
    using peek_hello [OF assms(1,3)] by blast
  have r: "route_sni (hello_sni hello) h = (Inr (t, control q, sem), h1)"
    using assms(2,4-6) by (simp add: route_sni_def)
  show ?thesis by (rule that [OF c]) (simp add: handle_sni_def p r assms(7))
qed

section \<open>Properties\<close>


text \<open>A server with one tenant online, a client that sends a hello and a byte, and B's side.\<close>

definition sni_hub :: hub where
  "sni_hub = (hub_new \<lparr>tenants = [sample_tenant ''web'' (sample_psk 1) ''a.x''], codes = []\<rparr>)
     \<lparr>sessions := [''web'' \<mapsto> \<lparr>sid = 1, spsk = sample_psk 1, control = 7\<rparr>]\<rparr>"

definition hello_client :: feed where
  "hello_client = \<lparr>segs = [enc_record 1 example_hello @ [9]], fin = EndOfStream\<rparr>"

definition sni_streams :: "nat \<Rightarrow> (feed \<times> sink) option" where
  "sni_streams c = (if c = 7 then Some (\<lparr>segs = [[1, 111, 107]], fin = EndOfStream\<rparr>, new_sink) else None)"

definition hello_from_a :: feed where
  "hello_from_a = \<lparr>segs = [frame_bytes (as_bytes ''web'') @ enc_record 1 example_hello @ [9]], fin = EndOfStream\<rparr>"

lemma sni_hub_routes:
  shows "tenant_by_sni (published sni_hub) ''a.x'' = Some (sample_tenant ''web'' (sample_psk 1) ''a.x'')"
    and "sessions sni_hub ''web'' = Some \<lparr>sid = 1, spsk = sample_psk 1, control = 7\<rparr>"
    and "\<exists>h1. try_acquire (sample_tenant ''web'' (sample_psk 1) ''a.x'') sni_hub = (Some 0, h1)"
  by (simp_all add: sni_hub_def hub_new_def tenant_by_sni_def sample_tenant_def try_acquire_def budget_entry_def)

lemma sni_web:
  shows "from_utf8 (as_bytes ''web'') = Some ''web''" and "length ''web'' \<le> MAX_NAME_LEN"
    and "targets_of [\<lparr>ct_name = ''web'', ct_target = ''t:1''\<rparr>] ''web'' = Some ''t:1''"
    and "demo_dial ''t:1'' = Some (\<lparr>segs = [[111, 107]], fin = EndOfStream\<rparr>, new_sink)"
    and "sink_ok new_sink" and "sink_bytes new_sink = []"
  by (rule from_utf8_ascii) (simp_all add: is_ascii_def MAX_NAME_LEN_def targets_of_def demo_dial_def
      new_sink_def sink_ok_def sink_bytes_def)

lemma hello_relayed:
  "\<exists>mw cw' h' reg'. handle_sni (0, 0) (1, 1) sni_streams None ''p'' hello_client new_sink sni_hub registry_new
     = (Inr (), cw', Some (7, mw), h', reg') \<and> carries mw hello_from_a"
proof -
  let ?t = "sample_tenant ''web'' (sample_psk 1) ''a.x''"
  obtain h1 where h1: "try_acquire ?t sni_hub = (Some 0, h1)" using sni_hub_routes(3) by blast
  have f: "feed_bytes hello_client = enc_record 1 example_hello @ [9]" by (simp add: hello_client_def feed_bytes_def)
  have n: "tname ?t = ''web''" by (simp add: sample_tenant_def)
  have st: "sni_streams (control \<lparr>sid = 1, spsk = sample_psk 1, control = 7\<rparr>) =
      Some (\<lparr>segs = [[1, 111, 107]], fin = EndOfStream\<rparr>, new_sink)" by (simp add: sni_streams_def)
  have se: "sessions sni_hub (tname ?t) = Some \<lparr>sid = 1, spsk = sample_psk 1, control = 7\<rparr>" using sni_hub_routes(2) n by simp
  from handle_sni_routed [where streams = sni_streams and q = "\<lparr>sid = 1, spsk = sample_psk 1, control = 7\<rparr>",
      OF example_hello_wf example_hello_name f sni_hub_routes(1) se h1 st]
  obtain client' where c: "feed_bytes client' = [9]" "fin client' = fin hello_client"
    and run: "\<And>r mw w reg'. relay (0, 0) (1, 1) True None ''p'' ''web'' (enc_record 1 example_hello) client' new_sink
        \<lparr>segs = [[1, 111, 107]], fin = EndOfStream\<rparr> new_sink registry_new = (r, mw, w, reg') \<Longrightarrow>
      handle_sni (0, 0) (1, 1) sni_streams None ''p'' hello_client new_sink sni_hub registry_new =
        (map_err RelayFailed r, w, Some (7, mw), if r = Inl RelayPending then h1 else release_slot 0 h1, reg')"
    unfolding n by (metis session.select_convs(3))
  have "fin client' = EndOfStream" using c(2) by (simp add: hello_client_def)
  from tunnel_realised(1) [where targets = "targets_of [\<lparr>ct_name = ''web'', ct_target = ''t:1''\<rparr>]" and dial = demo_dial, OF sni_web(2,1,3,4,5,5) this, of "(0, 0)" "(1, 1)" None "''p''" "enc_record 1 example_hello" registry_new]
  show ?thesis using run by (fastforce simp: feed_bytes_def hello_from_a_def c(1) [unfolded feed_bytes_def] map_err_def)
qed


text \<open>
  C2: A TLS client reaches no one else, and holds no slot afterwards. If anything is written to a
  session's stream, the client's first record named a host, an enabled tenant owns that host, and the
  session is that tenant's; otherwise (no usable hello, no such tenant, no session, no free slot, no
  stream) the connection ends with an error, the client gets no byte and the registry is as it was.
  Whatever the outcome, once the handler has ended every budget has the free slots it had.
\<close>

theorem tls_client_reaches_no_one_else:
  assumes "handle_sni now later streams progress peer client cw h reg = (r, cw', st, h', reg')"
  shows "(\<forall>c mw. st = Some (c, mw) \<longrightarrow> (\<exists>rec rest host t q.
            feed_bytes client = rec @ rest \<and> parse_record rec = Inr (Some host)
            \<and> t \<in> set (tenants (published h)) \<and> \<not> disabled t \<and> normalize_host (tsni t) = normalize_host host
            \<and> sessions h (tname t) = Some q \<and> c = control q))
    \<and> (st = None \<longrightarrow> (\<exists>e. r = Inl e) \<and> cw' = cw \<and> reg' = reg)
    \<and> (r \<noteq> Inl (RelayFailed RelayPending) \<longrightarrow> (\<forall>sem. sem \<noteq> sem_next h \<longrightarrow> sem_free h' sem = sem_free h sem))"
proof -
  obtain pr client' where p: "peek_sni feed_read_exact client = (pr, client')" by force
  show ?thesis
  proof (cases pr)
    case (Inl e)
    with assms p show ?thesis by (auto simp: handle_sni_def)
  next
    case (Inr pk)
    obtain rr h1 where r: "route_sni (peeked_sni pk) h = (rr, h1)" by force
    show ?thesis
    proof (cases rr)
      case Inl
      with assms p Inr r route_refused [of "peeked_sni pk" h] show ?thesis by (auto simp: handle_sni_def)
    next
      case R: (Inr x)
      obtain t c sem where x: "x = (t, c, sem)" by (cases x)
      obtain host q where rt: "peeked_sni pk = Some host" "tenant_by_sni (published h) host = Some t"
        "sessions h (tname t) = Some q" "c = control q" "try_acquire t h = (Some sem, h1)"
        using r unfolding R x by (rule route_granted)
      have t: "t \<in> set (tenants (published h))" "\<not> disabled t" "normalize_host (tsni t) = normalize_host host"
        using rt(2) by (auto simp: tenant_by_sni_def Let_def dest!: find_SomeD)
      have pr: "feed_bytes client = buffered pk @ feed_bytes client'" "parse_record (buffered pk) = Inr (Some host)"
        using exact_reader.peek_sni_ok(1,2) [OF feed.exact_reader_axioms, of client pk client'] p Inr rt(1) by simp_all
      have slots: "s \<noteq> sem_next h \<Longrightarrow> sem_free (release_slot sem h1) s = sem_free h s" for s
        by (rule acquire_release [OF rt(5)])
      obtain mux_r mux_w where io: "(case streams c of None \<Rightarrow> (\<lparr>segs = [], fin = EndOfStream\<rparr>, new_sink) | Some rw \<Rightarrow> rw) = (mux_r, mux_w)"
        by force
      obtain r0 mw w0 reg0 where A: "relay now later (streams c \<noteq> None) progress peer (tname t) (buffered pk) client' cw
          mux_r mux_w reg = (r0, mw, w0, reg0)" by (metis prod_cases4)
      have res: "r = map_err RelayFailed r0" "cw' = w0" "st = map_option (\<lambda>_. (c, mw)) (streams c)"
        "h' = (if r0 = Inl RelayPending then h1 else release_slot sem h1)" "reg' = reg0"
        using assms p Inr r by (simp_all add: handle_sni_def R x io A del: not_None_eq)
      have "streams c = None \<Longrightarrow> r0 = Inl OpeningMuxStream \<and> w0 = cw \<and> reg0 = reg"
        using A by (simp add: relay_def)
      moreover have "r \<noteq> Inl (RelayFailed RelayPending) \<Longrightarrow> h' = release_slot sem h1"
        using res(1,4) by (auto simp: map_err_def)
      ultimately show ?thesis using res(1-3,5) t pr rt(3,4) slots by (auto simp: map_err_def)
    qed
  qed
qed

theorem tls_client_reaches_no_one_else_witness:
  "\<exists>r cw' mw h' reg'. handle_sni (0, 0) (1, 1) sni_streams None ''p'' hello_client new_sink sni_hub registry_new
       = (r, cw', Some (7, mw), h', reg')
     \<and> (\<exists>(t :: tenant) q. \<not> disabled t \<and> sessions sni_hub (tname t) = Some q \<and> control q = 7)"
proof -
  obtain mw cw' h' reg' where A: "handle_sni (0, 0) (1, 1) sni_streams None ''p'' hello_client new_sink sni_hub registry_new
     = (Inr (), cw', Some (7, mw), h', reg')" using hello_relayed by blast
  from conjunct1 [OF tls_client_reaches_no_one_else [OF A], rule_format, OF refl]
  obtain t :: tenant and q where "\<not> disabled t" "sessions sni_hub (tname t) = Some q" "control q = 7" by metis
  with A show ?thesis by blast
qed

end
