(* ===== verification/Cli.thy ===== *)
theory Cli
  imports Config Hub
begin

text \<open>
  The command line (\<open>cli.rs\<close>, \<open>main.rs\<close>) and \<open>serve-admin\<close> (\<open>admin.rs\<close>): how flags and the
  config file are merged into the configuration each role runs with, and the admin actions on
  the tenant store. \<open>clap\<close> parses the flags into a \<open>command\<close>; a path is its display string. The
  admin actions are stated over the store interface of \<open>Tenant_Store\<close>, as the code is.
\<close>

section \<open>Commands\<close>

datatype admin_action =
    ActIssue string "nat option" "u64 option"
  | ActRevoke string
  | ActDisable string
  | ActEnable string
  | ActList

datatype command =
    CmdForward "string list" "string option"
  | CmdClient "string list" "string option"
  | CmdServe "string option" "string option" "string list" "string option" "string option"
  | CmdConnect "string option" "string option" "string list" "string option" "string option"
  | CmdEnroll string string "string option"
  | CmdServeAdmin "string option" admin_action

datatype cli_error =
    ConfigError config_error
  | MissingListen
  | MissingServeToken
  | MissingServer
  | MissingConnectToken
  | ReadingCredentials string
  | LoadingCredentials string
  | NeedsTarget
  | ExpectedNameValue string
  | NoTenantFile
  | OneShot

definition parse_name_value :: "string \<Rightarrow> cli_error + string \<times> string" where
  "parse_name_value raw =
     rbind (ok_or (split_once (CHR ''='') raw) (ExpectedNameValue raw))
       (\<lambda>(name, v). Inr (trim name, trim v))"

section \<open>Merging flags and file\<close>

definition give_forward_token :: "string option \<Rightarrow> forward_rule \<Rightarrow> forward_rule" where
  "give_forward_token cli_token r = (case cli_token of
     None \<Rightarrow> r
   | Some t \<Rightarrow> if fw_transport r \<noteq> None \<and> fw_token r = None then r\<lparr>fw_token := Some t\<rparr> else r)"

definition resolve_forward ::
  "file_config \<Rightarrow> string list \<Rightarrow> string option \<Rightarrow> cli_error + forward_rule list" where
  "resolve_forward file cli_maps cli_token =
     rbind (map_err ConfigError (try_map parse_map_flag cli_maps)) (\<lambda>rs.
       Inr (map (give_forward_token cli_token) (fc_forward file @ rs)))"

definition give_client_token :: "string option \<Rightarrow> client_rule \<Rightarrow> client_rule" where
  "give_client_token cli_token r = (case cli_token of
     None \<Rightarrow> r
   | Some t \<Rightarrow> if cl_token r = None then r\<lparr>cl_token := Some t\<rparr> else r)"

definition resolve_client ::
  "file_config \<Rightarrow> string list \<Rightarrow> string option \<Rightarrow> cli_error + client_rule list" where
  "resolve_client file cli_maps cli_token =
     rbind (map_err ConfigError (try_map parse_client_map_flag cli_maps)) (\<lambda>rs.
       Inr (map (give_client_token cli_token) (fc_client file @ rs)))"

definition apply_serve_flags ::
  "string option \<Rightarrow> string option \<Rightarrow> string option \<Rightarrow> string option \<Rightarrow> serve_config \<Rightarrow> serve_config" where
  "apply_serve_flags listen tenants_flag sni_listen token cfg =
     (let cfg = (case listen of None \<Rightarrow> cfg | Some l \<Rightarrow> cfg\<lparr>sv_listen := l\<rparr>);
          cfg = (case tenants_flag of None \<Rightarrow> cfg | Some path \<Rightarrow> cfg\<lparr>sv_tenants_file := Some path\<rparr>);
          cfg = (case sni_listen of None \<Rightarrow> cfg | Some addr \<Rightarrow> cfg\<lparr>sv_sni_listen := Some addr\<rparr>)
      in (case token of None \<Rightarrow> cfg | Some t \<Rightarrow> cfg\<lparr>sv_token := t\<rparr>))"

definition push_serve_tunnels :: "(string \<times> string) list \<Rightarrow> serve_config \<Rightarrow> serve_config" where
  "push_serve_tunnels nvs cfg =
     cfg\<lparr>sv_tunnel := sv_tunnel cfg @ map (\<lambda>(n, e). \<lparr>st_name = n, st_external = e\<rparr>) nvs\<rparr>"

definition check_serve :: "serve_config \<Rightarrow> cli_error + serve_config" where
  "check_serve cfg =
     (if sv_listen cfg = [] then Inl MissingListen
      else rbind (map_err ConfigError (is_multi_tenant cfg)) (\<lambda>multi.
        if \<not> multi \<and> sv_token cfg = [] then Inl MissingServeToken else Inr cfg))"

definition resolve_serve ::
  "file_config \<Rightarrow> string option \<Rightarrow> string option \<Rightarrow> string list \<Rightarrow> string option \<Rightarrow> string option
    \<Rightarrow> cli_error + serve_config" where
  "resolve_serve file listen token cli_tunnels tenants_flag sni_listen =
     (let cfg = apply_serve_flags listen tenants_flag sni_listen token
                  (unwrap_or (fc_serve file) serve_config_default)
      in rbind (try_map parse_name_value cli_tunnels) (\<lambda>nvs. check_serve (push_serve_tunnels nvs cfg)))"

definition connect_config_default :: connect_config where
  "connect_config_default = \<lparr>cn_server = [], cn_token = [], cn_tunnel = [],
     reconnect_min_secs = 1, reconnect_max_secs = 30\<rparr>"

text \<open>\<open>read_creds\<close> reads the credentials file, \<open>from_toml\<close> is \<open>Credentials::from_toml\<close>.\<close>

definition add_credentials ::
  "(string \<Rightarrow> string option) \<Rightarrow> (string \<Rightarrow> credentials option) \<Rightarrow> string option \<Rightarrow> string option
    \<Rightarrow> connect_config \<Rightarrow> cli_error + connect_config" where
  "add_credentials read_creds cred_from_toml credentials target cfg = (case credentials of
     None \<Rightarrow> Inr cfg
   | Some path \<Rightarrow>
       rbind (ok_or (read_creds path) (ReadingCredentials path)) (\<lambda>txt.
       rbind (ok_or (cred_from_toml txt) (LoadingCredentials path)) (\<lambda>creds.
       rbind (ok_or target NeedsTarget) (\<lambda>target.
         let cfg = (if cn_token cfg = [] then cfg\<lparr>cn_token := cred_token creds\<rparr> else cfg)
         in Inr (cfg\<lparr>cn_tunnel := cn_tunnel cfg @ [\<lparr>ct_name = cred_name creds, ct_target = target\<rparr>]\<rparr>)))))"

definition apply_connect_flags ::
  "string option \<Rightarrow> string option \<Rightarrow> connect_config \<Rightarrow> connect_config" where
  "apply_connect_flags server token cfg =
     (let cfg = (case server of None \<Rightarrow> cfg | Some s \<Rightarrow> cfg\<lparr>cn_server := s\<rparr>)
      in (case token of None \<Rightarrow> cfg | Some t \<Rightarrow> cfg\<lparr>cn_token := t\<rparr>))"

definition push_connect_tunnels :: "(string \<times> string) list \<Rightarrow> connect_config \<Rightarrow> connect_config" where
  "push_connect_tunnels nvs cfg =
     cfg\<lparr>cn_tunnel := cn_tunnel cfg @ map (\<lambda>(n, t). \<lparr>ct_name = n, ct_target = t\<rparr>) nvs\<rparr>"

definition check_connect :: "connect_config \<Rightarrow> cli_error + connect_config" where
  "check_connect cfg =
     (if cn_server cfg = [] then Inl MissingServer
      else if cn_token cfg = [] then Inl MissingConnectToken
      else Inr cfg)"

definition resolve_connect ::
  "(string \<Rightarrow> string option) \<Rightarrow> (string \<Rightarrow> credentials option) \<Rightarrow> file_config
    \<Rightarrow> string option \<Rightarrow> string option \<Rightarrow> string list \<Rightarrow> string option \<Rightarrow> string option
    \<Rightarrow> cli_error + connect_config" where
  "resolve_connect read_creds cred_from_toml file server token cli_tunnels credentials target =
     (let cfg = apply_connect_flags server token (unwrap_or (fc_connect file) connect_config_default)
      in rbind (try_map parse_name_value cli_tunnels) (\<lambda>nvs.
         rbind (add_credentials read_creds cred_from_toml credentials target (push_connect_tunnels nvs cfg))
           check_connect))"

definition tenants_path :: "string option \<Rightarrow> file_config \<Rightarrow> cli_error + string" where
  "tenants_path flag file =
     ok_or (case flag of
              Some p \<Rightarrow> Some p
            | None \<Rightarrow> (case fc_serve file of None \<Rightarrow> None | Some s \<Rightarrow> sv_tenants_file s))
       NoTenantFile"

text \<open>What \<open>run_command\<close> starts; the one-shot commands never reach it.\<close>

datatype job = RunForward "forward_rule list" | RunClient "client_rule list"
  | RunServe serve_config | RunConnect connect_config

definition run_command ::
  "(string \<Rightarrow> string option) \<Rightarrow> (string \<Rightarrow> credentials option) \<Rightarrow> command \<Rightarrow> file_config
    \<Rightarrow> cli_error + job" where
  "run_command read_creds cred_from_toml cmd file = (case cmd of
     CmdForward maps token \<Rightarrow> rbind (resolve_forward file maps token) (\<lambda>rs. Inr (RunForward rs))
   | CmdClient maps token \<Rightarrow> rbind (resolve_client file maps token) (\<lambda>rs. Inr (RunClient rs))
   | CmdServe listen token tunnels tenants_flag sni_listen \<Rightarrow>
       rbind (resolve_serve file listen token tunnels tenants_flag sni_listen) (\<lambda>c. Inr (RunServe c))
   | CmdConnect server token tunnels credentials target \<Rightarrow>
       rbind (resolve_connect read_creds cred_from_toml file server token tunnels credentials target)
         (\<lambda>c. Inr (RunConnect c))
   | _ \<Rightarrow> Inl OneShot)"

section \<open>The credentials file\<close>

text \<open>
  \<open>write_new_private\<close>: \<open>create_new\<close> refuses a path that exists. A write that fails leaves the
  created file with what was written; \<open>fault\<close> is how many bytes then got through.
\<close>

datatype write_error = CreatingNew string | WritingNew string

definition write_new_private ::
  "nat option \<Rightarrow> string \<Rightarrow> byte list \<Rightarrow> (string \<Rightarrow> byte list option) \<Rightarrow>
     (write_error + unit) \<times> (string \<Rightarrow> byte list option)" where
  "write_new_private fault path bytes fs =
     (if fs path \<noteq> None then (Inl (CreatingNew path), fs)
      else (case fault of
          None \<Rightarrow> (Inr (), fs(path := Some bytes))
        | Some k \<Rightarrow> (Inl (WritingNew path), fs(path := Some (take k bytes)))))"

text \<open>
  \<open>run_enroll\<close>: what \<open>enroll\<close> returned is written to a new file, or is the text to print.
\<close>

datatype enroll_cmd_error = EnrollFailed | SerialisingCredentials | SavingCredentials write_error

definition run_enroll ::
  "'e + credentials \<Rightarrow> (credentials \<Rightarrow> string option) \<Rightarrow> nat option \<Rightarrow> string option
    \<Rightarrow> (string \<Rightarrow> byte list option) \<Rightarrow> (enroll_cmd_error + string) \<times> (string \<Rightarrow> byte list option)" where
  "run_enroll enrolled cred_to_toml fault dest fs = (case enrolled of
     Inl _ \<Rightarrow> (Inl EnrollFailed, fs)
   | Inr cred \<Rightarrow> (case cred_to_toml cred of
       None \<Rightarrow> (Inl SerialisingCredentials, fs)
     | Some doc \<Rightarrow> (case dest of
         None \<Rightarrow> (Inr doc, fs)
       | Some path \<Rightarrow> (case write_new_private fault path (as_bytes doc) fs of
           (r, fs') \<Rightarrow> (rbind (map_err SavingCredentials r) (\<lambda>_. Inr []), fs')))))"

lemma run_enroll_keeps_files:
  "run_enroll enrolled cred_to_toml fault dest fs = (r, fs') \<Longrightarrow> fs path = Some old \<Longrightarrow> fs' path = Some old"
  by (auto simp: run_enroll_def write_new_private_def split: sum.splits option.splits prod.splits if_splits)

text \<open>The log file of a headless run.\<close>

definition log_path :: "bool \<Rightarrow> string option \<Rightarrow> string option" where
  "log_path headless log_file = (if headless then Some (unwrap_or log_file ''erbridge.log'') else None)"

section \<open>serve-admin\<close>

datatype admin_error = MaxConnsZero | AdminStore tenant_error

definition tab :: char where "tab = CHR 0x09"
definition nl :: char where "nl = CHR 0x0A"

definition list_line :: "tenant \<Rightarrow> string" where
  "list_line t = tname t @ [tab] @ tsni t @ [tab] @ ''max_conns='' @ show_nat (tmax_conns t) @ [tab] @
     (if disabled t then ''disabled'' else ''enabled'') @ [nl]"

definition admin_list :: "tenant_set \<Rightarrow> string" where
  "admin_list s = concat (map list_line (tenants s)) @
     show_nat (length (tenants s)) @ '' tenant(s), '' @ show_nat (length (codes s)) @
     '' unused enrollment code(s)'' @ [nl]"

text \<open>\<open>now_unix() + secs\<close> wraps in a release build.\<close>

definition admin_run ::
  "'s replace_fn \<Rightarrow> ('s \<Rightarrow> tenant_error + tenant_set) \<Rightarrow> (byte list \<Rightarrow> byte list) \<Rightarrow> byte list
    \<Rightarrow> u64 \<Rightarrow> admin_action \<Rightarrow> ('s, admin_error, string) step" where
  "admin_run rep snap sha256 rnd16 now action st = (case action of
     ActIssue sni max_conns expires_in \<Rightarrow>
       (let max_conns = unwrap_or max_conns DEFAULT_MAX_CONNS in
        if max_conns = 0 then (Inl MaxConnsZero, st)
        else (let expires_at = map_option (\<lambda>secs. now + secs) expires_in;
                  (code, entry) = new_enroll_code sha256 rnd16 sni max_conns expires_at
              in case issue_code rep entry st of
                   (Inl e, st') \<Rightarrow> (Inl (AdminStore e), st')
                 | (Inr _, st') \<Rightarrow> (Inr (code @ [nl]), st')))
   | ActRevoke n \<Rightarrow>
       (case revoke rep n st of
          (Inl e, st') \<Rightarrow> (Inl (AdminStore e), st')
        | (Inr _, st') \<Rightarrow> (Inr (''revoked '' @ n @ [nl]), st'))
   | ActDisable n \<Rightarrow>
       (case set_disabled rep n True st of
          (Inl e, st') \<Rightarrow> (Inl (AdminStore e), st')
        | (Inr _, st') \<Rightarrow> (Inr (''disabled '' @ n @ [nl]), st'))
   | ActEnable n \<Rightarrow>
       (case set_disabled rep n False st of
          (Inl e, st') \<Rightarrow> (Inl (AdminStore e), st')
        | (Inr _, st') \<Rightarrow> (Inr (''enabled '' @ n @ [nl]), st'))
   | ActList \<Rightarrow> (case snap st of
          Inl e \<Rightarrow> (Inl (AdminStore e), st)
        | Inr s \<Rightarrow> (Inr (admin_list s), st)))"

section \<open>Dispatch\<close>

text \<open>
  \<open>main\<close>: the one-shot commands are taken out first; every other command starts its job, with a
  log file when headless. \<open>load_config\<close> reads the config file, \<open>open_log\<close> says if the log file opens.
\<close>

datatype main_error = LoadingConfig config_error | MainCli cli_error | OpeningLog string

datatype main_action =
    EnrollAt string string "string option"
  | AdminOn string admin_action
  | Work "string option" job

definition main_run ::
  "(string \<Rightarrow> config_error + file_config) \<Rightarrow> (string \<Rightarrow> bool) \<Rightarrow> (string \<Rightarrow> string option)
    \<Rightarrow> (string \<Rightarrow> credentials option) \<Rightarrow> string option \<Rightarrow> bool \<Rightarrow> string option \<Rightarrow> command
    \<Rightarrow> main_error + main_action" where
  "main_run load_config open_log read_creds cred_from_toml config headless log_file cmd =
     rbind (case config of Some path \<Rightarrow> map_err LoadingConfig (load_config path) | None \<Rightarrow> Inr file_config_default)
       (\<lambda>file. case cmd of
          CmdEnroll server code dest \<Rightarrow> Inr (EnrollAt server code dest)
        | CmdServeAdmin tenants_flag action \<Rightarrow>
            rbind (map_err MainCli (tenants_path tenants_flag file)) (\<lambda>path. Inr (AdminOn path action))
        | _ \<Rightarrow> rbind (case log_path headless log_file of
                  Some path \<Rightarrow> if open_log path then Inr (Some path) else Inl (OpeningLog path)
                | None \<Rightarrow> Inr None)
                (\<lambda>log. rbind (map_err MainCli (run_command read_creds cred_from_toml cmd file)) (\<lambda>j.
                   Inr (Work log j))))"

section \<open>Lemmas\<close>

lemma is_multi_tenant_iff:
  "is_multi_tenant c = Inr m \<longleftrightarrow>
     (if m then sv_tenants_file c \<noteq> None \<and> sv_sni_listen c \<noteq> None \<and> sv_token c = [] \<and> sv_tunnel c = []
      else sv_tenants_file c = None \<and> sv_sni_listen c = None)"
  by (cases m) (auto simp: is_multi_tenant_def split: option.splits)

lemma serve_flags_simps [simp]:
  "sv_listen (apply_serve_flags l tf sni tok c) = unwrap_or l (sv_listen c)"
  "sv_token (apply_serve_flags l tf sni tok c) = unwrap_or tok (sv_token c)"
  "sv_tunnel (apply_serve_flags l tf sni tok c) = sv_tunnel c"
  "sv_tenants_file (apply_serve_flags l tf sni tok c) = (if tf = None then sv_tenants_file c else tf)"
  "sv_sni_listen (apply_serve_flags l tf sni tok c) = (if sni = None then sv_sni_listen c else sni)"
  by (auto simp: apply_serve_flags_def unwrap_or_def Let_def split: option.split)

lemma push_serve_simps [simp]:
  "sv_listen (push_serve_tunnels nvs c) = sv_listen c" "sv_token (push_serve_tunnels nvs c) = sv_token c"
  "sv_tenants_file (push_serve_tunnels nvs c) = sv_tenants_file c"
  "sv_sni_listen (push_serve_tunnels nvs c) = sv_sni_listen c"
  by (simp_all add: push_serve_tunnels_def)

lemma check_serve_iff:
  "check_serve c = Inr c' \<longleftrightarrow> c' = c \<and> sv_listen c \<noteq> [] \<and>
     (sv_tenants_file c \<noteq> None \<and> sv_sni_listen c \<noteq> None \<and> sv_token c = [] \<and> sv_tunnel c = []
       \<or> sv_tenants_file c = None \<and> sv_sni_listen c = None \<and> sv_token c \<noteq> [])"
proof -
  have "check_serve c = Inr c' \<longleftrightarrow> sv_listen c \<noteq> [] \<and>
      (\<exists>m. is_multi_tenant c = Inr m \<and> (m \<or> sv_token c \<noteq> []) \<and> c' = c)"
    by (cases "is_multi_tenant c") (auto simp: check_serve_def)
  then show ?thesis unfolding is_multi_tenant_iff by (cases "sv_tenants_file c = None") auto
qed

lemma connect_flags_simps [simp]:
  "cn_server (apply_connect_flags sv tok c) = unwrap_or sv (cn_server c)"
  "cn_token (apply_connect_flags sv tok c) = unwrap_or tok (cn_token c)"
  "cn_server (push_connect_tunnels nvs c) = cn_server c"
  "cn_token (push_connect_tunnels nvs c) = cn_token c"
  by (auto simp: apply_connect_flags_def push_connect_tunnels_def unwrap_or_def split: option.split)

lemma check_connect_iff:
  "check_connect c = Inr c' \<longleftrightarrow> c' = c \<and> cn_server c \<noteq> [] \<and> cn_token c \<noteq> []"
  by (auto simp: check_connect_def)

lemma add_credentials_iff:
  "add_credentials rd dec (Some path) target c = Inr c' \<longleftrightarrow>
     (\<exists>txt cred tgt. rd path = Some txt \<and> dec txt = Some cred \<and> target = Some tgt \<and>
        c' = c\<lparr>cn_token := (if cn_token c = [] then cred_token cred else cn_token c),
               cn_tunnel := cn_tunnel c @ [\<lparr>ct_name = cred_name cred, ct_target = tgt\<rparr>]\<rparr>)"
proof (cases "cn_token c = []")
  case True
  then show ?thesis
    by (simp add: add_credentials_def rbind_eq_Inr_iff Let_def) blast
next
  case False
  then show ?thesis
    by (simp add: add_credentials_def rbind_eq_Inr_iff Let_def) blast
qed

lemma issue_code_memory:
  "issue_code memory_replace_with c st =
     (case with_code st c of Inl e \<Rightarrow> (Inl e, st) | Inr s' \<Rightarrow> (Inr (), s'))"
  by (auto simp: issue_code_def replace_drop_def memory_replace_with_def plain_edit_def split: sum.splits)

lemma with_code_iff:
  "with_code s c = Inr s' \<longleftrightarrow>
     (\<forall>t \<in> set (tenants s). normalize_host (tsni t) \<noteq> normalize_host (csni c)) \<and>
     s' = \<lparr>tenants = tenants s, codes = codes s @ [c]\<rparr> \<and> wf_set s'"
  by (auto simp: with_code_def tenant_set_new_iff find_eq_None_iff find_Some_iff
      split: option.splits dest: nth_mem)

lemma find_snoc_unique:
  "(\<And>x. x \<in> set xs \<Longrightarrow> \<not> P x) \<Longrightarrow> P y \<Longrightarrow> find P (xs @ [y]) = Some y"
  by (induction xs) auto

text \<open>A code that was just stored can be redeemed while it is unexpired.\<close>

lemma stored_code_redeems:
  assumes "with_code s c = Inr s'" and "unexpired now c"
    and "n \<noteq> []" and "n \<notin> tname ` set (tenants s)"
    and "k \<notin> tpsk ` set (tenants s) \<union> cpsk ` set (codes s')"
  shows "\<exists>s2. redeem s' (cpsk c) now n k =
     Inr (s2, \<lparr>tname = n, tpsk = k, tsni = csni c, tmax_conns = cmax_conns c, disabled = False\<rparr>)"
proof -
  let ?t = "\<lparr>tname = n, tpsk = k, tsni = csni c, tmax_conns = cmax_conns c, disabled = False\<rparr>"
  have s': "s' = \<lparr>tenants = tenants s, codes = codes s @ [c]\<rparr>" and wf: "wf_set s'"
    and free: "\<forall>t \<in> set (tenants s). normalize_host (tsni t) \<noteq> normalize_host (csni c)"
    using assms(1) by (auto simp: with_code_iff)
  have "cpsk c \<notin> cpsk ` set (codes s)" and wc: "wf_enroll_code c"
    using wf by (auto simp: wf_set_def s')
  then have "\<not> (cpsk d = cpsk c \<and> unexpired now d)" if "d \<in> set (codes s)" for d
    using that by (metis imageI)
  then have f: "find (\<lambda>d. cpsk d = cpsk c \<and> unexpired now d) (codes s') = Some c"
    using find_snoc_unique [of "codes s" "\<lambda>d. cpsk d = cpsk c \<and> unexpired now d" c] assms(2)
    by (simp add: s')
  let ?cs = "filter (\<lambda>d. cpsk d \<noteq> cpsk c \<and> unexpired now d) (codes s')"
  have "wf_set \<lparr>tenants = tenants s, codes = ?cs\<rparr>"
    using wf_set_filter [OF wf, of "\<lambda>_. True" "\<lambda>d. cpsk d \<noteq> cpsk c \<and> unexpired now d"]
    by (simp add: s')
  then have "wf_set \<lparr>tenants = tenants s @ [?t], codes = ?cs\<rparr>"
    using assms(3-5) wc free
    by (subst wf_set_snoc_tenant) (auto simp: wf_tenant_def wf_enroll_code_def)
  then show ?thesis using f by (auto simp: redeem_iff s')
qed

section \<open>Properties\<close>

text \<open>
  C37: A serve configuration that passes the merge of flags and file is in exactly one of the two
  modes: multi-tenant, with a tenant file and an SNI address and neither token nor tunnel, or
  single-tenant, with a token and neither of the other two. Its control address is set, and every
  flag that was given has won over the file.
\<close>

theorem serve_modes_exclusive:
  assumes "resolve_serve file listen token tunnels tenants_flag sni = Inr c"
  shows "sv_listen c \<noteq> []
    \<and> (sv_tenants_file c \<noteq> None \<and> sv_sni_listen c \<noteq> None \<and> sv_token c = [] \<and> sv_tunnel c = []
       \<or> sv_tenants_file c = None \<and> sv_sni_listen c = None \<and> sv_token c \<noteq> [])
    \<and> listen \<in> {None, Some (sv_listen c)} \<and> token \<in> {None, Some (sv_token c)}
    \<and> (tenants_flag = None \<or> sv_tenants_file c = tenants_flag)
    \<and> (sni = None \<or> sv_sni_listen c = sni)"
proof -
  obtain nvs cfg where "cfg = apply_serve_flags listen tenants_flag sni token
      (unwrap_or (fc_serve file) serve_config_default)"
    and "check_serve (push_serve_tunnels nvs cfg) = Inr c"
    using assms by (auto simp: resolve_serve_def rbind_eq_Inr_iff)
  then show ?thesis
    unfolding check_serve_iff by (cases listen; cases token) (simp_all add: unwrap_or_def)
qed

theorem serve_modes_exclusive_witness:
  "\<exists>c. resolve_serve file_config_default (Some ''h:1'') None [] (Some ''t.toml'') (Some ''h:443'') = Inr c
     \<and> sv_tenants_file c = Some ''t.toml'' \<and> sv_token c = []"
proof -
  let ?c = "\<lparr>sv_listen = ''h:1'', sv_token = [], sv_tunnel = [], sv_tenants_file = Some ''t.toml'',
    sv_sni_listen = Some ''h:443''\<rparr>"
  have ok: "resolve_serve file_config_default (Some ''h:1'') None [] (Some ''t.toml'') (Some ''h:443'') = Inr ?c"
    by (simp add: resolve_serve_def file_config_default_def unwrap_or_def serve_config_default_def
        is_multi_tenant_def apply_serve_flags_def push_serve_tunnels_def check_serve_def)
  have t: "sv_tenants_file ?c = Some ''t.toml''"
    using serve_modes_exclusive [OF ok] by blast
  show ?thesis by (rule exI [of _ ?c], intro conjI) (rule ok, rule t, simp)
qed

text \<open>
  With \<open>--token\<close> given, every mapping that \<open>forward\<close> ends up with passes its own check: no
  Noise mapping is left without a token, a mapping that had a token keeps it, plaintext mappings
  get none, and no other field of a mapping changes.
\<close>

theorem forward_token_validates:
  assumes "resolve_forward file maps (Some tok) = Inr rs"
  shows "(\<forall>r \<in> set rs. forward_validate r = Inr ())
    \<and> (\<exists>qs. try_map parse_map_flag maps = Inr qs \<and> length rs = length (fc_forward file @ qs)
        \<and> (\<forall>i < length rs. let q = (fc_forward file @ qs) ! i in
             rs ! i = q\<lparr>fw_token := (if fw_token q \<noteq> None \<or> fw_transport q = None then fw_token q
                                    else Some tok)\<rparr>))"
proof -
  from assms obtain qs where q: "try_map parse_map_flag maps = Inr qs"
    and rs: "rs = map (give_forward_token (Some tok)) (fc_forward file @ qs)"
    by (auto simp: resolve_forward_def rbind_eq_Inr_iff)
  have each: "give_forward_token (Some tok) r =
      r\<lparr>fw_token := (if fw_token r \<noteq> None \<or> fw_transport r = None then fw_token r else Some tok)\<rparr>" for r
    by (auto simp: give_forward_token_def)
  have "forward_validate (give_forward_token (Some tok) r) = Inr ()" for r
    by (auto simp: forward_validate_def give_forward_token_def)
  then have "\<forall>r \<in> set rs. forward_validate r = Inr ()" by (auto simp: rs)
  moreover have "rs ! i = (let q = (fc_forward file @ qs) ! i in
      q\<lparr>fw_token := (if fw_token q \<noteq> None \<or> fw_transport q = None then fw_token q else Some tok)\<rparr>)"
    if "i < length rs" for i
    using that unfolding Let_def each [symmetric] rs by (simp only: length_map nth_map)
  ultimately show ?thesis using q by (auto simp: Let_def rs)
qed

theorem forward_token_validates_witness:
  "\<exists>rs. resolve_forward (file_config_default\<lparr>fc_forward := [sample_forward]\<rparr>) [] (Some ''k'') = Inr rs
     \<and> map forward_validate rs = [Inr ()]"
proof -
  let ?rs = "[give_forward_token (Some ''k'') sample_forward]"
  have ok: "resolve_forward (file_config_default\<lparr>fc_forward := [sample_forward]\<rparr>) [] (Some ''k'') = Inr ?rs"
    by (simp add: resolve_forward_def file_config_default_def)
  from conjunct1 [OF forward_token_validates [OF ok]] ok show ?thesis by simp
qed

text \<open>
  The configuration \<open>connect\<close> runs with has a server and a token; a token from a flag or the
  config file wins over the one in the credentials file, which is used otherwise; and with
  credentials the last tunnel carries the enrolled name and the target given, after all the
  others.
\<close>

theorem connect_merge:
  assumes "resolve_connect rd dec file server token tunnels (Some path) target = Inr c"
  shows "cn_server c \<noteq> [] \<and> cn_token c \<noteq> []
    \<and> (\<exists>txt cred tgt. rd path = Some txt \<and> dec txt = Some cred \<and> target = Some tgt
        \<and> last (cn_tunnel c) = \<lparr>ct_name = cred_name cred, ct_target = tgt\<rparr>
        \<and> (let given = unwrap_or token (cn_token (unwrap_or (fc_connect file) connect_config_default))
           in cn_token c = (if given = [] then cred_token cred else given)))"
proof -
  let ?base = "unwrap_or (fc_connect file) connect_config_default"
  obtain nvs c1 where
      a: "add_credentials rd dec (Some path) target
        (push_connect_tunnels nvs (apply_connect_flags server token ?base)) = Inr c1"
    and k: "check_connect c1 = Inr c"
    using assms by (auto simp: resolve_connect_def rbind_eq_Inr_iff)
  from a obtain doc cred tgt where "rd path = Some doc" "dec doc = Some cred" "target = Some tgt"
    and "cn_token c1 = (if unwrap_or token (cn_token ?base) = [] then cred_token cred
        else unwrap_or token (cn_token ?base))"
    and "last (cn_tunnel c1) = \<lparr>ct_name = cred_name cred, ct_target = tgt\<rparr>"
    unfolding add_credentials_iff by auto
  with k show ?thesis unfolding check_connect_iff Let_def by blast
qed

definition sample_cred :: credentials where
  "sample_cred = \<lparr>cred_name = ''t-abc'', cred_token = ''secret'', cred_sni = ''a.example''\<rparr>"

theorem connect_merge_witness:
  "\<exists>c. resolve_connect (\<lambda>p. Some p) (\<lambda>_. Some sample_cred) file_config_default (Some ''h:9'') None []
         (Some ''c.toml'') (Some ''t:1'') = Inr c \<and> last (cn_tunnel c) = \<lparr>ct_name = ''t-abc'', ct_target = ''t:1''\<rparr>"
proof -
  let ?c = "\<lparr>cn_server = ''h:9'', cn_token = ''secret'', cn_tunnel = [\<lparr>ct_name = ''t-abc'', ct_target = ''t:1''\<rparr>],
     reconnect_min_secs = 1, reconnect_max_secs = 30\<rparr>"
  have ok: "resolve_connect (\<lambda>p. Some p) (\<lambda>_. Some sample_cred) file_config_default (Some ''h:9'') None []
         (Some ''c.toml'') (Some ''t:1'') = Inr ?c"
    by (simp add: resolve_connect_def add_credentials_def file_config_default_def unwrap_or_def
        connect_config_default_def sample_cred_def apply_connect_flags_def push_connect_tunnels_def
        check_connect_def)
  have "last (cn_tunnel ?c) = \<lparr>ct_name = cred_name sample_cred, ct_target = ''t:1''\<rparr>"
    using connect_merge [OF ok] by auto
  then have l: "last (cn_tunnel ?c) = \<lparr>ct_name = ''t-abc'', ct_target = ''t:1''\<rparr>"
    by (simp add: sample_cred_def)
  show ?thesis by (rule exI [of _ ?c], intro conjI) (rule ok, rule l)
qed

text \<open>
  C28: The code \<open>serve-admin issue\<close> prints is the one the store holds the key of: while it is
  unexpired, deriving a key from the printed line (without its newline) redeems it, for any new
  name and key not in use, into an enabled tenant with the host given and the connection limit
  given, or \<open>DEFAULT_MAX_CONNS\<close>.
\<close>

theorem issued_code_redeems:
  assumes "admin_run memory_replace_with memory_snapshot sha256 rnd16 now0 (ActIssue sni mc exp) st = (Inr out, st')"
    and "case exp of None \<Rightarrow> True | Some secs \<Rightarrow> now < now0 + secs"
    and "n \<noteq> []" and "n \<notin> tname ` set (tenants st)"
    and "k \<notin> tpsk ` set (tenants st) \<union> cpsk ` set (codes st')"
  shows "\<exists>s2. redeem st' (derive_psk sha256 (butlast out)) now n k =
     Inr (s2, \<lparr>tname = n, tpsk = k, tsni = sni, tmax_conns = unwrap_or mc DEFAULT_MAX_CONNS, disabled = False\<rparr>)"
proof -
  let ?c = "\<lparr>cpsk = derive_psk sha256 (random_hex rnd16), csni = sni,
    cmax_conns = unwrap_or mc DEFAULT_MAX_CONNS, expires_at = map_option (\<lambda>secs. now0 + secs) exp\<rparr>"
  have "with_code st ?c = Inr st'" and out: "out = random_hex rnd16 @ [nl]"
    using assms(1) by (auto simp: admin_run_def new_enroll_code_def issue_code_memory Let_def
        split: if_splits sum.splits)
  moreover have "unexpired now ?c"
    using assms(2) by (cases exp) (auto simp: unexpired_def)
  ultimately show ?thesis using stored_code_redeems [of st ?c st' now n k] assms(3-5) by simp
qed

theorem issued_code_redeems_witness:
  "\<exists>out st' s2. admin_run memory_replace_with memory_snapshot (\<lambda>_. replicate 32 7) [1] 5 (ActIssue ''a.example'' None (Some 60)) empty_set
       = (Inr out, st')
     \<and> redeem st' (derive_psk (\<lambda>_. replicate 32 7) (butlast out)) 6 ''t-1'' (sample_psk 9) =
        Inr (s2, \<lparr>tname = ''t-1'', tpsk = sample_psk 9, tsni = ''a.example'', tmax_conns = DEFAULT_MAX_CONNS, disabled = False\<rparr>)"
proof -
  let ?c = "\<lparr>cpsk = sample_psk 7, csni = ''a.example'', cmax_conns = DEFAULT_MAX_CONNS, expires_at = Some 65\<rparr>"
  let ?st = "\<lparr>tenants = [], codes = [?c]\<rparr>"
  have "wf_set ?st"
    by (simp add: wf_set_def wf_enroll_code_def sample_hosts DEFAULT_MAX_CONNS_def)
  then have "with_code empty_set ?c = Inr ?st" by (simp add: with_code_iff empty_set_def)
  then have run: "admin_run memory_replace_with memory_snapshot (\<lambda>_. replicate 32 7) [1] 5 (ActIssue ''a.example'' None (Some 60)) empty_set
      = (Inr (random_hex [1] @ [nl]), ?st)"
    by (simp add: admin_run_def new_enroll_code_def issue_code_memory Let_def derive_psk_def
        sample_psk_def unwrap_or_def DEFAULT_MAX_CONNS_def)
  have "\<exists>s2. redeem ?st (derive_psk (\<lambda>_. replicate 32 7) (butlast (random_hex [1] @ [nl]))) 6 ''t-1'' (sample_psk 9) =
      Inr (s2, \<lparr>tname = ''t-1'', tpsk = sample_psk 9, tsni = ''a.example'',
        tmax_conns = unwrap_or None DEFAULT_MAX_CONNS, disabled = False\<rparr>)"
    by (rule issued_code_redeems [OF run]) (simp_all add: empty_set_def)
  with run show ?thesis by (auto simp: unwrap_or_def)
qed

text \<open>
  In a release build \<open>now_unix() + secs\<close> wraps: asking for a very long life, such as
  \<open>2 ^ 64 - 1\<close> seconds, stores a code that has already expired, though \<open>issue\<close> reports success
  and prints it; it cannot be redeemed at the time it was issued, under any name or key.
\<close>

theorem issue_expiry_wraps:
  assumes "admin_run memory_replace_with memory_snapshot sha256 rnd16 now (ActIssue sni mc (Some secs)) st = (Inr out, st')"
    and "unat now + unat secs \<ge> 2 ^ 64" and "wf_set st"
  shows "redeem st' (derive_psk sha256 (butlast out)) now n k = Inl BadCode"
proof -
  let ?c = "\<lparr>cpsk = derive_psk sha256 (random_hex rnd16), csni = sni,
    cmax_conns = unwrap_or mc DEFAULT_MAX_CONNS, expires_at = Some (now + secs)\<rparr>"
  have w: "with_code st ?c = Inr st'" and out: "out = random_hex rnd16 @ [nl]"
    using assms(1) by (auto simp: admin_run_def new_enroll_code_def issue_code_memory Let_def
        split: if_splits sum.splits)
  have "now + secs < now"
  proof -
    have l: "unat (x :: u64) < 2 ^ 64" for x
      by (rule order.strict_trans2 [OF unsigned_less]) simp
    have "unat (now + secs) = (unat now + unat secs) mod 2 ^ 64"
      by (simp add: unat_word_ariths)
    also have "\<dots> = unat now + unat secs - 2 ^ 64"
      using assms(2) l [of now] l [of secs] by (simp add: le_mod_geq)
    finally have "unat (now + secs) < unat now"
      using assms(2) l [of secs] by linarith
    then show ?thesis by (simp add: word_less_nat_alt)
  qed
  then have ex: "\<not> unexpired now ?c" by (simp add: unexpired_def)
  have st': "st' = \<lparr>tenants = tenants st, codes = codes st @ [?c]\<rparr>" and wf: "wf_set st'"
    using w unfolding with_code_iff by blast+
  have new: "cpsk ?c \<notin> cpsk ` set (codes st)" using wf unfolding st' wf_set_def by simp
  have "\<not> (psk_eq (cpsk d) (cpsk ?c) \<and> unexpired now d)" if d: "d \<in> set (codes st')" for d
  proof (cases "d = ?c")
    case True
    show ?thesis unfolding True using ex by blast
  next
    case False
    then have "d \<in> set (codes st)" using d by (simp add: st')
    then have "cpsk d \<noteq> cpsk ?c" using new by (metis imageI)
    then show ?thesis by simp
  qed
  then have "find (\<lambda>d. psk_eq (cpsk d) (cpsk ?c) \<and> unexpired now d) (codes st') = None"
    unfolding find_eq_None_iff by blast
  then show ?thesis by (simp add: redeem_def out)
qed

theorem issue_expiry_wraps_witness:
  "\<exists>out st'. admin_run memory_replace_with memory_snapshot (\<lambda>_. replicate 32 7) [1] 5 (ActIssue ''a.example'' None (Some 18446744073709551615)) empty_set
       = (Inr out, st')
     \<and> redeem st' (derive_psk (\<lambda>_. replicate 32 7) (butlast out)) 5 ''t-1'' (sample_psk 9) = Inl BadCode"
proof -
  let ?c = "\<lparr>cpsk = sample_psk 7, csni = ''a.example'', cmax_conns = DEFAULT_MAX_CONNS, expires_at = Some (5 + 18446744073709551615)\<rparr>"
  let ?st = "\<lparr>tenants = [], codes = [?c]\<rparr>"
  have "wf_set ?st"
    by (simp add: wf_set_def wf_enroll_code_def sample_hosts DEFAULT_MAX_CONNS_def)
  then have "with_code empty_set ?c = Inr ?st" by (simp add: with_code_iff empty_set_def)
  then have run: "admin_run memory_replace_with memory_snapshot (\<lambda>_. replicate 32 7) [1] 5 (ActIssue ''a.example'' None (Some 18446744073709551615)) empty_set
      = (Inr (random_hex [1] @ [nl]), ?st)"
    by (simp add: admin_run_def new_enroll_code_def issue_code_memory Let_def derive_psk_def
        sample_psk_def unwrap_or_def DEFAULT_MAX_CONNS_def)
  have "redeem ?st (derive_psk (\<lambda>_. replicate 32 7) (butlast (random_hex [1] @ [nl]))) 5 ''t-1'' (sample_psk 9) = Inl BadCode"
    by (rule issue_expiry_wraps [OF run]) (simp_all add: empty_set_wf)
  with run show ?thesis by blast
qed

text \<open>The \<open>unreachable!\<close> of \<open>run_command\<close> is not reached from \<open>main\<close>.\<close>

lemma resolve_not_one_shot:
  "resolve_forward file maps token \<noteq> Inl OneShot" "resolve_client file maps token \<noteq> Inl OneShot"
  by (auto simp: resolve_forward_def resolve_client_def map_err_def rbind_def split: sum.splits)

lemma try_map_error: "try_map f xs = Inl e \<Longrightarrow> \<exists>x \<in> set xs. f x = Inl e"
  by (induction xs) (auto simp: rbind_def split: sum.splits)

lemma names_not_one_shot: "try_map parse_name_value raws \<noteq> Inl OneShot"
  by (auto dest!: try_map_error simp: parse_name_value_def rbind_def ok_or_def split: sum.splits option.splits)

lemma resolve_serve_not_one_shot: "resolve_serve file l t tun tf sni \<noteq> Inl OneShot"
  using names_not_one_shot [of tun]
  by (auto simp: resolve_serve_def check_serve_def map_err_def rbind_def Let_def split: sum.splits if_splits)

lemma resolve_connect_not_one_shot: "resolve_connect rc cf file sv t tun cr tg \<noteq> Inl OneShot"
  using names_not_one_shot [of tun]
  by (auto simp: resolve_connect_def check_connect_def add_credentials_def rbind_def ok_or_def Let_def
      split: sum.splits if_splits option.splits)

theorem unreachable_not_reached:
  "main_run load_config open_log read_creds cred_from_toml config headless log_file cmd \<noteq> Inl (MainCli OneShot)"
  using resolve_not_one_shot resolve_serve_not_one_shot resolve_connect_not_one_shot
  by (auto simp: main_run_def run_command_def tenants_path_def map_err_def rbind_def ok_or_def
      split: sum.splits option.splits command.splits if_splits)

end
