(* ===== verification/Enroll.thy ===== *)
theory Enroll
  imports Noise_Handshake Hub
begin

text \<open>
  The client side of enrollment (\<open>reverse/enroll.rs\<close>): dial, handshake with the code as the key,
  one frame with the credentials. Reading from the Noise stream is an argument that satisfies the
  reader contract of \<open>Frame\<close>; decoding JSON is an argument. The overall time limit turns a
  future that would stay pending into \<open>EnrollTimedOut\<close>.
\<close>

definition MAX_CREDENTIALS_LEN :: nat where "MAX_CREDENTIALS_LEN = 4096"

datatype enroll_client_error = EnrollConnecting string | EnrollHandshake handshake_error
  | NoCredentials io_error | MalformedCredentials | EnrollTimedOut

definition enroll ::
  "('b, 'h, 't) snow \<Rightarrow> (string \<Rightarrow> duplex option)
    \<Rightarrow> (nat \<Rightarrow> ((duplex, 't) noise_stream, io_error, byte list) step) \<Rightarrow> (byte list \<Rightarrow> credentials option)
    \<Rightarrow> (byte list \<Rightarrow> byte list) \<Rightarrow> string \<Rightarrow> string \<Rightarrow> enroll_client_error + credentials" where
  "enroll N dial rxs from_json sha256 server code = (case dial server of
     None \<Rightarrow> Inl (EnrollConnecting server)
   | Some io \<Rightarrow> (case connect N (derive_psk sha256 code) io of
       (Inl e, _) \<Rightarrow> Inl (if e = ReadingMessage2 Stalled then EnrollTimedOut else EnrollHandshake e)
     | (Inr st, _) \<Rightarrow> (case read_frame rxs MAX_CREDENTIALS_LEN st of
         (Inl e, _) \<Rightarrow> Inl (if e = Stalled then EnrollTimedOut else NoCredentials e)
       | (Inr frame, _) \<Rightarrow> ok_or (from_json frame) MalformedCredentials)))"

text \<open>
  When the handshake succeeds and the server's frame arrives, the client has exactly the
  credentials the server serialised.
\<close>

lemma enroll_delivers:
  fixes rxs :: "nat \<Rightarrow> ((duplex, 't) noise_stream, io_error, byte list) step"
  assumes rd: "exact_reader rxs pend"
    and "dial server = Some io" and "connect N (derive_psk sha256 code) io = (Inr st, io')"
    and "pend st = frame_bytes (to_json cred) @ rest" and "length (to_json cred) \<le> MAX_CREDENTIALS_LEN"
    and "from_json (to_json cred) = Some cred"
  shows "enroll N dial rxs from_json sha256 server code = Inr cred"
proof -
  have "length (to_json cred) \<le> 65535" using assms(5) by (simp add: MAX_CREDENTIALS_LEN_def)
  from exact_reader.read_frame_written [OF rd assms(4,5) this] obtain st' where
    "read_frame rxs MAX_CREDENTIALS_LEN st = (Inr (to_json cred), st')" by blast
  with assms show ?thesis by (simp add: enroll_def)
qed

text \<open>
  A frame of more than \<open>MAX_CREDENTIALS_LEN\<close> bytes is refused by the client, although the server
  has spent the code.
\<close>

lemma enroll_oversized:
  fixes rxs :: "nat \<Rightarrow> ((duplex, 't) noise_stream, io_error, byte list) step"
  assumes rd: "exact_reader rxs pend"
    and "dial server = Some io" and "connect N (derive_psk sha256 code) io = (Inr st, io')"
    and "pend st = frame_bytes (to_json cred) @ rest" and "MAX_CREDENTIALS_LEN < length (to_json cred)"
    and "length (to_json cred) \<le> 65535"
  shows "enroll N dial rxs from_json sha256 server code = Inl (NoCredentials InvalidData)"
proof -
  have "pend st = to_be16 (length (to_json cred)) @ (to_json cred @ rest)"
    using assms(4) by (simp add: frame_bytes_def)
  from exact_reader.read_frame_too_long [OF rd this assms(5,6)] obtain st' where
    "read_frame rxs MAX_CREDENTIALS_LEN st = (Inl InvalidData, st')" by blast
  with assms show ?thesis by (simp add: enroll_def)
qed

section \<open>Both ends of an enrollment\<close>

lemma run_enrollment_memory:
  assumes "run_enrollment memory_replace_with memory_snapshot sha256 send rnd6 rnd32 now code st h = (Inr cred, st', h')"
  shows "\<exists>t. redeem st (cpsk code) now (cred_name cred) (tpsk t) = Inr (st', t) \<and> published h' = st'
    \<and> tname t = cred_name cred \<and> tsni t = cred_sni cred \<and> tpsk t = derive_psk sha256 (cred_token cred)"
  using assms
  by (auto simp: run_enrollment_def memory_redeem memory_snapshot_def apply_snapshot_def Let_def
      redeem_iff split: sum.splits prod.splits if_splits)


text \<open>An example with a stream that does not encrypt and the Noise library of the examples.\<close>

definition clear_read :: "nat \<Rightarrow> ((duplex, nat) noise_stream, io_error, byte list) step" where
  "clear_read n st = (case dup_read n (inner st) of (r, io) \<Rightarrow> (r, st\<lparr>inner := io\<rparr>))"

lemma clear_read_exact: "exact_reader clear_read (unread \<circ> inner)"
  by unfold_locales (auto simp: clear_read_def dest: dup.rx_ok dup.rx_enough split: prod.splits)

definition demo_peer :: "psk \<Rightarrow> duplex" where
  "demo_peer p = \<lparr>rx = \<lparr>avail = frame_bytes (psk_bytes p) @ frame_bytes [1, 2], closes = True\<rparr>,
     tx = \<lparr>sent = [], room = None\<rparr>\<rparr>"

lemma demo_connect:
  "\<exists>st io'. connect demo_snow p (demo_peer p) = (Inr st, io') \<and> unread (inner st) = frame_bytes [1, 2] @ []"
  if "p = sample_psk b" for p
proof -
  have len: "length (psk_bytes p) = 32" using that by (simp add: sample_psk_def)
  let ?io = "(demo_peer p)\<lparr>tx := \<lparr>sent = frame_bytes (psk_bytes p), room = None\<rparr>\<rparr>"
  have w: "write_frame dup_write dup_flush (psk_bytes p) (demo_peer p) = (Inr (), ?io)"
    using len by (simp add: write_frame_def sbind_def dup_write_def dup_flush_def write_all_def flush_def
        demo_peer_def frame_bytes_def)
  have "unread ?io = frame_bytes (psk_bytes p) @ (frame_bytes [1, 2])"
    by (simp add: unread_def demo_peer_def)
  from dup.read_frame_written [OF this, of MAX_MESSAGE] len obtain io2 where
    r: "read_frame dup_read MAX_MESSAGE ?io = (Inr (psk_bytes p), io2)" "unread io2 = frame_bytes [1, 2]"
    by (auto simp: MAX_MESSAGE_def)
  from w r(1) have "connect demo_snow p (demo_peer p) = (Inr (noise_stream_new io2 0), io2)"
    by (simp add: connect_def demo_snow_def)
  with r(2) show ?thesis by (auto simp: noise_stream_new_def)
qed

definition demo_sha :: "byte list \<Rightarrow> byte list" where
  "demo_sha bs = replicate 32 (if bs = as_bytes ''code'' then 2 else 9)"

definition demo_cred :: credentials where
  "demo_cred = \<lparr>cred_name = new_tenant_name [1], cred_token = new_token [1], cred_sni = ''b.example''\<rparr>"

lemma demo_run:
  "\<exists>st' h'. run_enrollment memory_replace_with memory_snapshot demo_sha (\<lambda>_. True) [1] [1] 5
     (codes sample_set ! 0) sample_set (hub_new sample_set) = (Inr demo_cred, st', h')"
proof -
  have key: "derive_psk demo_sha (new_token [1]) = sample_psk 9"
    by (simp add: derive_psk_def demo_sha_def sample_psk_def new_token_def random_hex_def hex_string_def hex_byte_def)
  have "\<exists>s1 t. redeem sample_set (sample_psk 2) 5 (new_tenant_name [1]) (sample_psk 9) = Inr (s1, t) \<and> tsni t = ''b.example''"
    by (auto simp: redeem_iff sample_set_def sample_tenant_def unexpired_def new_tenant_name_def
      wf_set_def wf_tenant_def wf_enroll_code_def sample_hosts)
  then show ?thesis
    by (auto simp: run_enrollment_def memory_redeem Let_def key demo_cred_def sample_set_def)
qed

lemma demo_snow_simps:
  "builder_psk demo_snow p = Inr p" "build_responder demo_snow p = Inr p"
  "hs_read_message demo_snow m p = (if m = psk_bytes p then Inr [] else Inl Snow, p)"
  by (simp_all add: demo_snow_def)

lemma try_demo:
  "p \<in> set ps \<Longrightarrow> \<exists>j. try_candidates demo_snow (psk_bytes p) i ps None = Inr (Some (j, p))"
proof -
  have some: "try_candidates demo_snow msg i ps (Some x) = Inr (Some x)" for msg i ps and x :: "nat \<times> psk"
    by (induction ps arbitrary: i) (auto simp: demo_snow_simps)
  show "p \<in> set ps \<Longrightarrow> \<exists>j. try_candidates demo_snow (psk_bytes p) i ps None = Inr (Some (j, p))"
  proof (induction ps arbitrary: i)
    case (Cons q ps)
    have n: "try_candidates demo_snow (psk_bytes p) i (q # ps) None =
        try_candidates demo_snow (psk_bytes p) (Suc i) ps (if p = q then Some (i, q) else None)"
      by (auto simp: demo_snow_simps psk.expand)
    show ?case
    proof (cases "p = q")
      case True
      then show ?thesis using n some by simp
    next
      case False
      with Cons.IH [of "Suc i"] Cons.prems n show ?thesis by simp
    qed
  qed simp
qed

lemma demo_accept:
  assumes "p = sample_psk b" and "p \<in> set ps"
  shows "\<exists>st i io'. accept_any demo_snow ps (demo_io p) = (Inr (st, i), io')"
proof -
  have len: "length (psk_bytes p) = 32" using assms(1) by (simp add: sample_psk_def)
  from dup.read_frame_written [OF demo_io_unread [of p], of MAX_MESSAGE] len obtain io1 where
    r: "read_frame dup_read MAX_MESSAGE (demo_io p) = (Inr (psk_bytes p), io1)"
    by (auto simp: MAX_MESSAGE_def)
  have "room (tx io1) = None" using read_frame_keeps_tx [OF r] by (simp add: demo_io_def)
  then obtain io2 where w: "write_frame dup_write dup_flush (psk_bytes p) io1 = (Inr (), io2)"
    using len by (simp add: write_frame_def sbind_def dup_write_def dup_flush_def write_all_def flush_def)
  obtain j where t: "try_candidates demo_snow (psk_bytes p) 0 ps None = Inr (Some (j, p))"
    using try_demo [OF assms(2)] by blast
  have "hs_write_message demo_snow [] p = (Inr (psk_bytes p), p)" "into_transport_mode demo_snow p = Inr 0"
    by (simp_all add: demo_snow_def)
  with r w t show ?thesis by (simp add: accept_any_def)
qed


end
