(* ===== verification/Link_Control.thy ===== *)
theory Link_Control
  imports Config
begin

text \<open>
  The life of the A-B link: the reconnect loop of B (\<open>reverse/connect.rs\<close>), the single-tenant
  control slot of A (\<open>reverse/serve.rs\<close>), and the driver task of the multiplexer (\<open>mux.rs\<close>).
\<close>

section \<open>Reconnecting with backoff\<close>

text \<open>
  \<open>run_connect\<close> is a loop over session outcomes; \<open>True\<close> is a session that ended cleanly. The
  \<open>u64\<close> doubling wraps in a release build.
\<close>

definition min_backoff :: "connect_config \<Rightarrow> u64" where
  "min_backoff c = max (reconnect_min_secs c) 1"

definition max_backoff :: "connect_config \<Rightarrow> u64" where
  "max_backoff c = max (reconnect_max_secs c) (min_backoff c)"

definition next_backoff :: "connect_config \<Rightarrow> bool \<Rightarrow> u64 \<Rightarrow> u64" where
  "next_backoff c clean b = (if clean then min_backoff c else min (b * 2) (max_backoff c))"

text \<open>The waits, one after each session.\<close>

fun retry_waits :: "connect_config \<Rightarrow> u64 \<Rightarrow> bool list \<Rightarrow> u64 list" where
  "retry_waits c b [] = []"
| "retry_waits c b (clean # outcomes) =
     (let b' = next_backoff c clean b in b' # retry_waits c b' outcomes)"

datatype connect_start = NoConnectTunnel | Waits "u64 list"

definition run_connect :: "connect_config \<Rightarrow> bool list \<Rightarrow> connect_start" where
  "run_connect c outcomes =
     (if cn_tunnel c = [] then NoConnectTunnel else Waits (retry_waits c (min_backoff c) outcomes))"

fun trailing_failures :: "bool list \<Rightarrow> nat \<Rightarrow> nat" where
  "trailing_failures [] k = k"
| "trailing_failures (clean # os) k = trailing_failures os (if clean then 0 else Suc k)"

definition capped :: "connect_config \<Rightarrow> nat \<Rightarrow> nat" where
  "capped c k = min (unat (min_backoff c) * 2 ^ k) (unat (max_backoff c))"

lemma min_backoff_pos: "1 \<le> unat (min_backoff c)" and min_le_max_backoff: "unat (min_backoff c) \<le> unat (max_backoff c)"
proof -
  have "1 \<le> min_backoff c" by (simp add: min_backoff_def)
  then show "1 \<le> unat (min_backoff c)" by (simp add: word_le_nat_alt)
  have "min_backoff c \<le> max_backoff c" by (simp add: max_backoff_def)
  then show "unat (min_backoff c) \<le> unat (max_backoff c)" by (simp add: word_le_nat_alt)
qed

lemma capped_bounds: "unat (min_backoff c) \<le> capped c k" "capped c k \<le> unat (max_backoff c)"
  using min_le_max_backoff [of c] by (simp_all add: capped_def)

lemma unat_min: "unat (min a b) = min (unat a) (unat (b :: u64))"
  by (simp add: min_def word_le_nat_alt)

lemma next_backoff_capped:
  assumes "unat (max_backoff c) < 2 ^ 63" and "unat b = capped c k"
  shows "unat (next_backoff c clean b) = capped c (if clean then 0 else Suc k)"
proof (cases clean)
  case True
  then show ?thesis using min_le_max_backoff [of c] by (simp add: next_backoff_def capped_def)
next
  case False
  have "unat b \<le> unat (max_backoff c)" using assms(2) capped_bounds(2) by simp
  then have "unat (b * 2) = unat b * 2" using assms(1) by (simp add: unat_word_ariths)
  with False assms(2) show ?thesis by (simp add: next_backoff_def unat_min capped_def)
qed

lemma retry_waits_capped:
  assumes "unat (max_backoff c) < 2 ^ 63"
  shows "unat b = capped c k \<Longrightarrow> i < length os \<Longrightarrow>
     unat (retry_waits c b os ! i) = capped c (trailing_failures (take (Suc i) os) k)"
proof (induction os arbitrary: b k i)
  case (Cons o1 os)
  have n: "unat (next_backoff c o1 b) = capped c (if o1 then 0 else Suc k)"
    by (rule next_backoff_capped [OF assms Cons.prems(1)])
  show ?case
  proof (cases i)
    case 0
    then show ?thesis using n by (simp add: Let_def)
  next
    case (Suc j)
    with Cons.IH [OF n, of j] Cons.prems show ?thesis by (simp add: Let_def)
  qed
qed simp

lemma length_retry_waits [simp]: "length (retry_waits c b os) = length os"
  by (induction os arbitrary: b) (simp_all add: Let_def)

section \<open>Starting to serve\<close>

text \<open>
  \<open>run_serve_with_shutdown\<close>: the mode, the key, and one external listener for each tunnel.
\<close>

datatype serve_start_error = ServeConfigError config_error | NoServeTunnel

datatype 'k serve_plan = MultiTenant | SingleTenant 'k "(string \<times> string) list"

definition run_serve :: "(string \<Rightarrow> 'k) \<Rightarrow> serve_config \<Rightarrow> serve_start_error + 'k serve_plan" where
  "run_serve derive c =
     rbind (map_err ServeConfigError (is_multi_tenant c)) (\<lambda>multi.
       if multi then Inr MultiTenant
       else if sv_tunnel c = [] then Inl NoServeTunnel
       else Inr (SingleTenant (derive (sv_token c)) (map (\<lambda>t. (st_name t, st_external t)) (sv_tunnel c))))"

text \<open>
  \<open>run_tenant_serve\<close> takes the settings of a multi-tenant server out of the configuration, with the
  file its tenants are in; the reload interval is in seconds.
\<close>

record tenant_serve_config =
  ts_listen :: string
  ts_sni_listen :: string
  ts_reload_interval :: nat

datatype tenant_config_error = TenantsFileNotSet | SniListenNotSet

definition DEFAULT_RELOAD_INTERVAL :: nat where "DEFAULT_RELOAD_INTERVAL = 1"

definition run_tenant_serve :: "serve_config \<Rightarrow> tenant_config_error + string \<times> tenant_serve_config" where
  "run_tenant_serve c =
     rbind (ok_or (sv_tenants_file c) TenantsFileNotSet) (\<lambda>path.
       rbind (ok_or (sv_sni_listen c) SniListenNotSet) (\<lambda>sni.
         Inr (path, \<lparr>ts_listen = sv_listen c, ts_sni_listen = sni, ts_reload_interval = DEFAULT_RELOAD_INTERVAL\<rparr>)))"

text \<open>The check of the mode rules both errors out.\<close>

lemma multi_tenant_configured:
  assumes "run_serve derive c = Inr MultiTenant"
  shows "\<exists>path sni. sv_tenants_file c = Some path \<and> sv_sni_listen c = Some sni
    \<and> run_tenant_serve c = Inr (path, \<lparr>ts_listen = sv_listen c, ts_sni_listen = sni,
         ts_reload_interval = DEFAULT_RELOAD_INTERVAL\<rparr>)"
  using assms
  by (auto simp: run_serve_def is_multi_tenant_def run_tenant_serve_def rbind_eq_Inr_iff map_err_def ok_or_def
      split: option.splits if_splits sum.splits)

section \<open>The control slot of a single-tenant serve\<close>

text \<open>
  Each control connection is a task. \<open>handle_control_conn\<close> looks at the slot once, before the
  handshake, and writes it after; the phases are the points where another task can run. The
  handle in the slot is named by its connection.
\<close>

datatype conn_phase = Unseen | Shaking | Linked | LinkDown | Finished

record control_state =
  current :: "nat option"
  phase :: "nat \<Rightarrow> conn_phase"

definition control_start :: control_state where
  "control_start = \<lparr>current = None, phase = (\<lambda>_. Unseen)\<rparr>"

definition set_phase :: "nat \<Rightarrow> conn_phase \<Rightarrow> control_state \<Rightarrow> control_state" where
  "set_phase i p s = s\<lparr>phase := (phase s)(i := p)\<rparr>"

definition begin_control :: "nat \<Rightarrow> control_state \<Rightarrow> control_state" where
  "begin_control i s = set_phase i (if current s \<noteq> None then Finished else Shaking) s"

definition finish_handshake :: "nat \<Rightarrow> bool \<Rightarrow> control_state \<Rightarrow> control_state" where
  "finish_handshake i verified s =
     (if verified then (set_phase i Linked s)\<lparr>current := Some i\<rparr> else set_phase i Finished s)"

definition end_control :: "nat \<Rightarrow> control_state \<Rightarrow> control_state" where
  "end_control i s = (set_phase i Finished s)\<lparr>current := None\<rparr>"

text \<open>\<open>serial\<close> restricts the runs to those where a handshake is over before the next look at the slot.\<close>

inductive cstep :: "bool \<Rightarrow> (nat \<Rightarrow> bool) \<Rightarrow> control_state \<Rightarrow> control_state \<Rightarrow> bool"
  for serial :: bool and holds_psk :: "nat \<Rightarrow> bool"
where
  Look: "phase s i = Unseen \<Longrightarrow> (serial \<Longrightarrow> \<forall>j. phase s j \<noteq> Shaking) \<Longrightarrow>
    cstep serial holds_psk s (begin_control i s)"
| Shake: "phase s i = Shaking \<Longrightarrow> ok \<le> holds_psk i \<Longrightarrow>
    cstep serial holds_psk s (finish_handshake i ok s)"
| Down: "phase s i = Linked \<Longrightarrow> cstep serial holds_psk s (set_phase i LinkDown s)"
| Clear: "phase s i = LinkDown \<Longrightarrow> cstep serial holds_psk s (end_control i s)"

inductive_cases cstepE: "cstep serial holds_psk s s'"

abbreviation creach :: "bool \<Rightarrow> (nat \<Rightarrow> bool) \<Rightarrow> control_state \<Rightarrow> bool" where
  "creach serial holds_psk \<equiv> (cstep serial holds_psk)\<^sup>*\<^sup>* control_start"

lemmas control_defs = begin_control_def finish_handshake_def end_control_def set_phase_def

text \<open>
  \<open>handle_external_client\<close>: the values of the slot it sees, until one is a handle; \<open>None\<close> when the
  slot's sender is gone (an error), which a list that ends stands for.
\<close>

fun wait_for_control :: "nat option list \<Rightarrow> nat option" where
  "wait_for_control [] = None"
| "wait_for_control (None # seen) = wait_for_control seen"
| "wait_for_control (Some i # seen) = Some i"

definition slot_inv :: "(nat \<Rightarrow> bool) \<Rightarrow> control_state \<Rightarrow> bool" where
  "slot_inv holds_psk s \<longleftrightarrow>
     (\<forall>i. current s = Some i \<longrightarrow> phase s i = Linked \<or> phase s i = LinkDown) \<and>
     (\<forall>i. phase s i = Linked \<or> phase s i = LinkDown \<longrightarrow> holds_psk i)"

lemma slot_inv_step [invariants]: "cstep serial hp s s' \<Longrightarrow> slot_inv hp s \<Longrightarrow> slot_inv hp s'"
  by (erule cstepE) (auto simp: slot_inv_def control_defs split: if_splits)

lemma slot_inv_reach: "creach serial hp s \<Longrightarrow> slot_inv hp s"
proof (induction rule: rtranclp_induct)
  case base
  show ?case by (simp add: slot_inv_def control_start_def)
next
  case (step y z)
  show ?case by (rule slot_inv_step [OF step.hyps(2) step.IH])
qed

text \<open>
  Without overlapping handshakes, at most one connection, the holder, is past its look at the
  slot and not finished; the slot names it once its handshake is over.
\<close>

abbreviation busy :: "conn_phase \<Rightarrow> bool" where
  "busy p \<equiv> p = Shaking \<or> p = Linked \<or> p = LinkDown"

definition held_by :: "nat option \<Rightarrow> control_state \<Rightarrow> bool" where
  "held_by a s \<longleftrightarrow> (\<forall>i. busy (phase s i) \<longleftrightarrow> a = Some i) \<and>
     current s = (case a of None \<Rightarrow> None | Some i \<Rightarrow> if phase s i = Shaking then None else Some i)"

lemma held_by_step:
  assumes "cstep True hp s s'" and h: "held_by a s"
  shows "\<exists>a'. held_by a' s'"
  using assms(1)
proof (cases rule: cstep.cases)
  case (Look i)
  show ?thesis
  proof (cases a)
    case None
    with h Look have "held_by (Some i) s'" by (auto simp: held_by_def control_defs)
    then show ?thesis by blast
  next
    case (Some k)
    with h have "busy (phase s k)" "current s = (if phase s k = Shaking then None else Some k)"
      by (auto simp: held_by_def)
    with Look(2,3) have "current s = Some k" "k \<noteq> i" by auto
    with h Some Look have "held_by (Some k) s'" by (auto simp: held_by_def control_defs)
    then show ?thesis by blast
  qed
next
  case (Shake i ok)
  then have "a = Some i" using h by (auto simp: held_by_def)
  with h Shake have "held_by (if ok then Some i else None) s'" by (auto simp: held_by_def control_defs)
  then show ?thesis by blast
next
  case (Down i)
  then have "a = Some i" using h by (auto simp: held_by_def)
  with h Down have "held_by (Some i) s'" by (auto simp: held_by_def control_defs)
  then show ?thesis by blast
next
  case (Clear i)
  then have "a = Some i" using h by (auto simp: held_by_def)
  with h Clear have "held_by None s'" by (auto simp: held_by_def control_defs)
  then show ?thesis by blast
qed

lemma held_by_reach: "creach True hp s \<Longrightarrow> \<exists>a. held_by a s"
proof (induction rule: rtranclp_induct)
  case base
  have "held_by None control_start" by (simp add: held_by_def control_start_def)
  then show ?case by blast
next
  case (step y z)
  then show ?case using held_by_step by blast
qed

lemma serial_slot:
  assumes "creach True hp s"
  shows "current s = Some i \<longleftrightarrow> phase s i = Linked \<or> phase s i = LinkDown"
proof -
  obtain a where a: "held_by a s" using held_by_reach [OF assms] by blast
  then have b: "busy (phase s i) \<longleftrightarrow> a = Some i" by (simp add: held_by_def)
  show ?thesis
  proof (cases "a = Some i")
    case True
    with a have "current s = (if phase s i = Shaking then None else Some i)" by (simp add: held_by_def)
    with b True show ?thesis by (cases "phase s i") simp_all
  next
    case False
    then have "current s \<noteq> Some i" using a by (cases a) (simp_all add: held_by_def)
    with b False show ?thesis by blast
  qed
qed

section \<open>Properties of the link\<close>


definition sample_connect :: connect_config where
  "sample_connect = \<lparr>cn_server = ''h:1'', cn_token = ''t'', cn_tunnel = [\<lparr>ct_name = ''w'', ct_target = ''x:1''\<rparr>],
     reconnect_min_secs = 1, reconnect_max_secs = 30\<rparr>"


text \<open>
  C23: The handle that external clients are given always belongs to a control connection that has
  completed the handshake with the pre-shared key and that \<open>handle_control_conn\<close> has not yet
  cleaned up; and when no two handshakes overlap, the slot names the linked connection exactly
  while there is one, and there is at most one.
\<close>

theorem published_handle_authentic:
  "(creach serial hp s \<longrightarrow> (\<forall>i. current s = Some i \<longrightarrow> (phase s i = Linked \<or> phase s i = LinkDown) \<and> hp i))
   \<and> (creach True hp s \<longrightarrow> (\<forall>i. current s = Some i \<longleftrightarrow> phase s i = Linked \<or> phase s i = LinkDown))"
proof (intro conjI impI allI)
  fix i assume "creach serial hp s" and "current s = Some i"
  then show "phase s i = Linked \<or> phase s i = LinkDown" and "hp i"
    using slot_inv_reach [of serial hp s] unfolding slot_inv_def by blast+
next
  fix i assume "creach True hp s"
  then show "current s = Some i \<longleftrightarrow> phase s i = Linked \<or> phase s i = LinkDown" by (rule serial_slot)
qed

text \<open>One good connection, and the slot after it is gone.\<close>

lemma one_link:
  "creach True (\<lambda>_. True) \<lparr>current = Some 0, phase = (\<lambda>_. Unseen)(0 := Linked)\<rparr>"
proof -
  let ?s1 = "\<lparr>current = None, phase = (\<lambda>_. Unseen)(0 := Shaking)\<rparr>"
  have "cstep True (\<lambda>_. True) control_start (begin_control 0 control_start)"
    by (rule Look) (simp_all add: control_start_def)
  then have 1: "cstep True (\<lambda>_. True) control_start ?s1"
    by (simp add: control_start_def control_defs)
  have "cstep True (\<lambda>_. True) ?s1 (finish_handshake 0 True ?s1)" by (rule Shake) simp_all
  then have 2: "cstep True (\<lambda>_. True) ?s1 \<lparr>current = Some 0, phase = (\<lambda>_. Unseen)(0 := Linked)\<rparr>"
    by (simp add: control_defs)
  show ?thesis using 1 2 by (meson rtranclp.rtrancl_into_rtrancl rtranclp.rtrancl_refl)
qed

theorem published_handle_authentic_witness:
  "phase \<lparr>current = Some 0, phase = (\<lambda>_. Unseen)(0 := Linked)\<rparr> 0 = Linked
   \<or> phase \<lparr>current = Some 0, phase = (\<lambda>_. Unseen)(0 := Linked)\<rparr> 0 = LinkDown"
  by (rule iffD1 [OF spec [OF mp [OF conjunct2 [OF published_handle_authentic] one_link]]]) simp

text \<open>
  The look at the slot and the write to it are not one step. Two clients with the key whose
  handshakes overlap are both accepted, and when one of them disconnects it empties the slot of
  the other: a state is reachable where a connection is linked, no client can be given its
  handle, and the loop that waits for the slot gets nothing, however often it looks.
\<close>

theorem control_slot_lost:
  "\<exists>s. creach False (\<lambda>_. True) s \<and> phase s 1 = Linked \<and> current s = None
     \<and> wait_for_control (replicate n (current s)) = None"
proof -
  let ?step = "cstep False (\<lambda>_. True)"
  let ?a = "begin_control 0 control_start"
  let ?b = "begin_control 1 ?a"
  let ?c = "finish_handshake 0 True ?b"
  let ?d = "finish_handshake 1 True ?c"
  let ?e = "set_phase 0 LinkDown ?d"
  let ?f = "end_control 0 ?e"
  note defs = control_start_def control_defs
  have "?step control_start ?a" by (rule Look) (simp_all add: defs)
  moreover have "?step ?a ?b" by (rule Look) (simp_all add: defs)
  moreover have "?step ?b ?c" by (rule Shake) (simp_all add: defs)
  moreover have "?step ?c ?d" by (rule Shake) (simp_all add: defs)
  moreover have "?step ?d ?e" by (rule Down) (simp add: defs)
  moreover have "?step ?e ?f" by (rule Clear) (simp add: defs)
  ultimately have r: "creach False (\<lambda>_. True) ?f"
    by (meson rtranclp.rtrancl_into_rtrancl rtranclp.rtrancl_refl)
  have w: "wait_for_control (replicate n None) = None" by (induction n) simp_all
  have "phase ?f 1 = Linked \<and> current ?f = None" by (simp add: defs)
  with r w show ?thesis by (intro exI [of _ ?f]) simp
qed

end
