(* ===== verification/Shutdown.thy ===== *)
theory Shutdown
  imports Config
begin

text \<open>
  Starting, accepting and shutting down (\<open>reverse/serve.rs\<close>: \<open>run_serve_with_shutdown\<close>,
  \<open>run_external_listener\<close>; \<open>reverse/tenant_serve.rs\<close>: \<open>run_tenant_serve_with_store\<close>,
  \<open>accept_loop\<close>, \<open>reload_loop\<close>; \<open>reverse/connect.rs\<close>: \<open>run_connect_with_shutdown\<close>,
  \<open>run_one_session\<close>). A step is one poll of one task by the runtime. What a task computes is in
  the theories of its handler; here it is the answer of the poll, an argument of the step.
\<close>

section \<open>A task under a token\<close>

datatype run_state = Unborn | Fresh | Going | Ended | Dropped

definition running :: "run_state \<Rightarrow> bool" where
  "running t \<longleftrightarrow> t = Fresh \<or> t = Going"

text \<open>
  \<open>shutdown.run_until_cancelled(future)\<close>: a token that is already cancelled at the first poll drops
  the future unpolled; later the future is polled first and the token decides if it is not ready.
\<close>

fun poll_task :: "bool \<Rightarrow> bool \<Rightarrow> run_state \<Rightarrow> run_state" where
  "poll_task cancelled ready Fresh = (if cancelled then Dropped else if ready then Ended else Going)"
| "poll_task cancelled ready Going = (if ready then Ended else if cancelled then Dropped else Going)"
| "poll_task cancelled ready t = t"

definition polls_future :: "bool \<Rightarrow> run_state \<Rightarrow> bool" where
  "polls_future cancelled t \<longleftrightarrow> running t \<and> \<not> (t = Fresh \<and> cancelled)"

fun weight :: "run_state \<Rightarrow> nat" where
  "weight Unborn = 2" | "weight Fresh = 1" | "weight Going = 1" | "weight Ended = 0" | "weight Dropped = 0"

lemma weight_poll: "running t \<Longrightarrow> weight (poll_task True ready t) = 0 \<and> weight t = 1"
  by (auto simp: running_def)

lemma weight_0: "weight t = 0 \<longleftrightarrow> t = Ended \<or> t = Dropped"
  by (cases t) simp_all

lemma poll_task_cases:
  "running t \<Longrightarrow> poll_task c ready t = Ended \<longrightarrow> ready"
  "running t \<Longrightarrow> poll_task c ready t = Dropped \<longrightarrow> c"
  "running t \<Longrightarrow> poll_task c ready t \<noteq> Unborn"
  by (cases t; simp add: running_def)+

lemma sum_list_decreases:
  "i < length ts \<Longrightarrow> f x < f (ts ! i) \<Longrightarrow>
     sum_list (map f (ts[i := x])) < (sum_list (map f ts) :: nat)"
proof (induction ts arbitrary: i)
  case (Cons t ts)
  then show ?case by (cases i) auto
qed simp

section \<open>A server\<close>

text \<open>
  The loops of a server. Single tenant: the control accept loop and one external listener for each
  tunnel, which are spawned before the control address is bound; multi tenant: two accept loops and
  the reload. An external listener ends when it cannot bind or accept; the others never do.
\<close>

datatype loop_kind = ControlLoop | ExternalLoop | SniLoop | ReloadLoop

definition single_tenant :: "serve_tunnel list \<Rightarrow> loop_kind list" where
  "single_tenant ts = ControlLoop # map (\<lambda>_. ExternalLoop) ts"

definition multi_tenant :: "loop_kind list" where
  "multi_tenant = [ControlLoop, SniLoop, ReloadLoop]"

definition may_end :: "loop_kind \<Rightarrow> bool" where
  "may_end k \<longleftrightarrow> k = ExternalLoop"

definition accepts :: "loop_kind \<Rightarrow> bool" where
  "accepts k \<longleftrightarrow> k \<noteq> ReloadLoop"

datatype start_error = CannotStart

record server_run =
  token :: bool
  loops :: "run_state list"
  conns :: "run_state list"
  outcome :: "(start_error + unit) option"

definition server_start :: "loop_kind list \<Rightarrow> server_run" where
  "server_start ks = \<lparr>token = False, loops = map (\<lambda>k. if k = ExternalLoop then Fresh else Unborn) ks,
     conns = [], outcome = None\<rparr>"

definition server_bind :: "bool \<Rightarrow> server_run \<Rightarrow> server_run" where
  "server_bind ok s =
     (if ok then s\<lparr>loops := map (\<lambda>t. if t = Unborn then Fresh else t) (loops s)\<rparr>
      else s\<lparr>outcome := Some (Inl CannotStart)\<rparr>)"

text \<open>One poll of a loop accepts \<open>n\<close> connections and spawns a task for each.\<close>

definition poll_loop :: "nat \<Rightarrow> nat \<Rightarrow> bool \<Rightarrow> server_run \<Rightarrow> server_run" where
  "poll_loop i n ready s =
     s\<lparr>loops := (loops s)[i := poll_task (token s) ready (loops s ! i)],
       conns := conns s @ (if polls_future (token s) (loops s ! i) then replicate n Fresh else [])\<rparr>"

definition poll_conn :: "nat \<Rightarrow> bool \<Rightarrow> server_run \<Rightarrow> server_run" where
  "poll_conn j ready s = s\<lparr>conns := (conns s)[j := poll_task (token s) ready (conns s ! j)]\<rparr>"

inductive srv_step :: "loop_kind list \<Rightarrow> server_run \<Rightarrow> server_run \<Rightarrow> bool" for ks :: "loop_kind list" where
  Cancel: "\<not> token s \<Longrightarrow> srv_step ks s (s\<lparr>token := True\<rparr>)"
| Bind: "outcome s = None \<Longrightarrow> loops s ! 0 = Unborn \<Longrightarrow> srv_step ks s (server_bind ok s)"
| PollLoop: "i < length ks \<Longrightarrow> running (loops s ! i) \<Longrightarrow> (ready \<Longrightarrow> may_end (ks ! i)) \<Longrightarrow>
    (0 < n \<Longrightarrow> accepts (ks ! i)) \<Longrightarrow> srv_step ks s (poll_loop i n ready s)"
| PollConn: "j < length (conns s) \<Longrightarrow> running (conns s ! j) \<Longrightarrow> srv_step ks s (poll_conn j ready s)"
| Finish: "outcome s = None \<Longrightarrow> \<forall>t \<in> set (loops s). t = Ended \<or> t = Dropped \<Longrightarrow>
    srv_step ks s (s\<lparr>outcome := Some (Inr ())\<rparr>)"

inductive_cases srv_stepE: "srv_step ks s s'"

abbreviation srv_reach :: "loop_kind list \<Rightarrow> server_run \<Rightarrow> bool" where
  "srv_reach ks \<equiv> (srv_step ks)\<^sup>*\<^sup>* (server_start ks)"

definition loop_ok :: "bool \<Rightarrow> loop_kind \<Rightarrow> run_state \<Rightarrow> bool" where
  "loop_ok c k t \<longleftrightarrow> (t = Ended \<longrightarrow> may_end k) \<and> (t = Dropped \<longrightarrow> c)"

definition srv_inv :: "loop_kind list \<Rightarrow> server_run \<Rightarrow> bool" where
  "srv_inv ks s \<longleftrightarrow> list_all2 (loop_ok (token s)) ks (loops s)
     \<and> (loops s ! 0 \<noteq> Unborn \<longrightarrow> Unborn \<notin> set (loops s))
     \<and> Unborn \<notin> set (conns s) \<and> (Dropped \<in> set (conns s) \<longrightarrow> token s)
     \<and> (outcome s = Some (Inr ()) \<longrightarrow> (\<forall>t \<in> set (loops s). t = Ended \<or> t = Dropped))"

lemma srv_inv_start: "ks \<noteq> [] \<Longrightarrow> hd ks = ControlLoop \<Longrightarrow> srv_inv ks (server_start ks)"
  by (cases ks) (auto simp: srv_inv_def server_start_def loop_ok_def list_all2_map2 intro!: list.rel_refl)

lemma inv_length: "srv_inv ks s \<Longrightarrow> length (loops s) = length ks"
  by (auto simp: srv_inv_def dest: list_all2_lengthD)

lemma poll_loop_inv:
  assumes "srv_inv ks s" and i: "i < length ks" "running (loops s ! i)" and "ready \<Longrightarrow> may_end (ks ! i)"
  shows "srv_inv ks (poll_loop i n ready s)"
proof -
  let ?t = "poll_task (token s) ready (loops s ! i)"
  note len = inv_length [OF assms(1)]
  have t: "loop_ok (token s) (ks ! i) ?t" "?t \<noteq> Unborn"
    using poll_task_cases [OF i(2), of "token s" ready] assms(4) by (auto simp: loop_ok_def)
  have "list_all2 (loop_ok (token s)) (ks[i := ks ! i]) ((loops s)[i := ?t])"
    by (rule list_all2_update_cong) (use assms(1) t in \<open>auto simp: srv_inv_def\<close>)
  then have a: "list_all2 (loop_ok (token s)) ks ((loops s)[i := ?t])" by simp
  have "loops s ! i \<noteq> Unborn" using i(2) by (auto simp: running_def)
  then have b: "(loops s)[i := ?t] ! 0 \<noteq> Unborn \<longrightarrow> Unborn \<notin> set ((loops s)[i := ?t])"
    using assms(1) t(2) set_update_subset_insert [of "loops s" i ?t]
    by (cases "i = 0") (auto simp: srv_inv_def)
  have "loops s ! i \<in> set (loops s)" using i(1) len by simp
  then have o: "outcome s \<noteq> Some (Inr ())"
    using assms(1) i(2) by (auto simp: srv_inv_def running_def)
  show ?thesis using assms(1) a b o unfolding srv_inv_def poll_loop_def by (simp add: polls_future_def)
qed

lemma token_loop_ok: "list_all2 (loop_ok c) ks ts \<Longrightarrow> list_all2 (loop_ok True) ks ts"
  by (erule list_all2_mono) (simp add: loop_ok_def)

lemma born_loop_ok:
  "list_all2 (loop_ok c) ks ts \<Longrightarrow>
     list_all2 (loop_ok c) ks (map (\<lambda>t. if t = Unborn then Fresh else t) ts)"
  by (simp add: list_all2_map2) (erule list_all2_mono, simp add: loop_ok_def)

lemma srv_inv_step [invariants]:
  assumes "srv_step ks s s'" and inv: "srv_inv ks s"
  shows "srv_inv ks s'"
  using assms(1)
proof (cases rule: srv_step.cases)
  case (Bind ok)
  then show ?thesis using inv by (auto simp: srv_inv_def server_bind_def intro: born_loop_ok)
next
  case (PollLoop i ready n)
  then show ?thesis using poll_loop_inv [OF inv] by blast
next
  case (PollConn j ready)
  then have "poll_task (token s) ready (conns s ! j) \<noteq> Unborn"
    "poll_task (token s) ready (conns s ! j) = Dropped \<longrightarrow> token s"
    using poll_task_cases by blast+
  then show ?thesis
    using PollConn inv set_update_subset_insert [of "conns s" j "poll_task (token s) ready (conns s ! j)"]
    by (auto simp: srv_inv_def poll_conn_def)
next
  case Cancel
  then show ?thesis using inv by (auto simp: srv_inv_def intro: token_loop_ok)
qed (use inv in \<open>simp add: srv_inv_def\<close>)

lemma srv_inv_reach: "srv_reach ks s \<Longrightarrow> ks \<noteq> [] \<Longrightarrow> hd ks = ControlLoop \<Longrightarrow> srv_inv ks s"
proof (induction rule: rtranclp_induct)
  case base
  then show ?case by (rule srv_inv_start)
next
  case (step y z)
  then show ?case using srv_inv_step by blast
qed

subsection \<open>After the cancellation\<close>

text \<open>
  A poll after the cancellation is the last one of its task. A loop may still spawn connections in
  its last poll, so the measure is lexicographic.
\<close>

definition left_over :: "server_run \<Rightarrow> nat \<times> nat" where
  "left_over s = (sum_list (map weight (loops s)) + (if outcome s = None then 1 else 0),
     sum_list (map weight (conns s)))"

lemma left_over_decreases:
  assumes "srv_step ks s s'" and "token s" and inv: "srv_inv ks s" and "ks \<noteq> []"
  shows "(left_over s', left_over s) \<in> less_than <*lex*> less_than" and "token s'"
proof -
  note len = inv_length [OF inv]
  from assms(1) have "((left_over s', left_over s) \<in> less_than <*lex*> less_than) \<and> token s'"
  proof (cases rule: srv_step.cases)
    case (Bind ok)
    show ?thesis
    proof (cases ok)
      case True
      obtain ts where ts: "loops s = Unborn # ts" using Bind(3) len assms(4) by (cases "loops s") auto
      have "sum_list (map (\<lambda>t. weight (if t = Unborn then Fresh else t)) ts) \<le> sum_list (map weight ts)"
        by (rule sum_list_mono) auto
      then have "sum_list (map weight (loops s')) < sum_list (map weight (loops s))"
        using True Bind(1) ts by (simp add: server_bind_def comp_def)
      then show ?thesis using True Bind(1,2) assms(2) by (simp add: left_over_def server_bind_def)
    next
      case False
      then show ?thesis using Bind assms(2) by (simp add: left_over_def server_bind_def)
    qed
  next
    case (PollLoop i ready n)
    then have "weight (poll_task True ready (loops s ! i)) < weight (loops s ! i)"
      using weight_poll by simp
    then show ?thesis using PollLoop assms(2) len
      by (simp add: left_over_def poll_loop_def sum_list_decreases)
  next
    case (PollConn j ready)
    then have "weight (poll_task True ready (conns s ! j)) < weight (conns s ! j)"
      using weight_poll by simp
    then show ?thesis using PollConn assms(2)
      by (simp add: left_over_def poll_conn_def sum_list_decreases)
  qed (use assms(2) in \<open>auto simp: left_over_def\<close>)
  then show "(left_over s', left_over s) \<in> less_than <*lex*> less_than" and "token s'" by blast+
qed

lemma no_endless_run:
  assumes "wf r" and "P (f 0)" and step: "\<And>k. R (f k) (f (Suc k))"
    and dec: "\<And>x y. R x y \<Longrightarrow> P x \<Longrightarrow> (m y, m x) \<in> r \<and> P y"
  shows False
proof -
  have "P (f k)" for k by (induction k) (use assms(2) dec [OF step] in auto)
  then have "(m (f (Suc k)), m (f k)) \<in> r" for k using dec [OF step] by blast
  with wf_no_infinite_down_chainE [OF assms(1), of "\<lambda>k. m (f k)"] show False by blast
qed

lemma stopped_iff: "\<not> running t \<Longrightarrow> t \<noteq> Unborn \<Longrightarrow> t = Ended \<or> t = Dropped"
  by (cases t) (simp_all add: running_def)

lemma running_index: "t \<in> set ts \<Longrightarrow> running t \<Longrightarrow> \<exists>i < length ts. running (ts ! i)"
  by (auto simp: in_set_conv_nth)

lemma quiet_server:
  assumes inv: "srv_inv ks s" and "token s" and "ks \<noteq> []" and quiet: "\<nexists>s'. srv_step ks s s'"
  shows "outcome s \<noteq> None \<and> (\<forall>t \<in> set (loops s). \<not> running t)
    \<and> (\<forall>t \<in> set (conns s). t = Ended \<or> t = Dropped)"
proof -
  note len = inv_length [OF inv]
  have l: "\<not> running t" if "t \<in> set (loops s)" for t
  proof
    assume "running t"
    then obtain i where "i < length ks" "running (loops s ! i)"
      using running_index [OF \<open>t \<in> set (loops s)\<close>] len by auto
    then have "srv_step ks s (poll_loop i 0 False s)" by (rule srv_step.PollLoop) simp_all
    with quiet show False by blast
  qed
  have c: "\<not> running t" if "t \<in> set (conns s)" for t
  proof
    assume "running t"
    then obtain j where "j < length (conns s)" "running (conns s ! j)"
      using running_index [OF \<open>t \<in> set (conns s)\<close>] by blast
    then have "srv_step ks s (poll_conn j False s)" by (rule srv_step.PollConn)
    with quiet show False by blast
  qed
  have "outcome s \<noteq> None"
  proof
    assume o: "outcome s = None"
    then have "loops s ! 0 \<noteq> Unborn" using quiet Bind by blast
    then have "Unborn \<notin> set (loops s)" using inv by (simp add: srv_inv_def)
    then have "\<forall>t \<in> set (loops s). t = Ended \<or> t = Dropped" using l stopped_iff by blast
    with o quiet Finish show False by blast
  qed
  moreover have "Unborn \<notin> set (conns s)" using inv by (simp add: srv_inv_def)
  ultimately show ?thesis using l c stopped_iff by blast
qed

lemma srv_inv_steps: "(srv_step ks)\<^sup>*\<^sup>* s t \<Longrightarrow> srv_inv ks s \<Longrightarrow> srv_inv ks t"
  by (induction rule: rtranclp_induct) (auto intro: srv_inv_step)

lemma token_steps: "(srv_step ks)\<^sup>*\<^sup>* s t \<Longrightarrow> token s \<Longrightarrow> token t"
proof (induction rule: rtranclp_induct)
  case (step y z)
  from step.hyps(2) have "token y \<Longrightarrow> token z"
    by cases (auto simp: server_bind_def poll_loop_def poll_conn_def)
  with step show ?case by blast
qed

lemma server_shape: "ks = single_tenant ts \<or> ks = multi_tenant \<Longrightarrow> ks \<noteq> [] \<and> hd ks = ControlLoop"
  by (auto simp: single_tenant_def multi_tenant_def)

lemmas srv_first = converse_rtranclp_into_rtranclp [where r = "srv_step ks" for ks]

section \<open>Properties of a server's shutdown\<close>

text \<open>
  C30: A server stops when it is told to, and only then. It returns without an error only after the
  token was cancelled and every one of its loops has stopped. Once the token is cancelled, the
  runtime cannot poll for ever: every run is finite, and where it ends the server has returned, no
  loop is running and every connection task has ended or was dropped.
\<close>

theorem server_shutdown:
  assumes "ks = single_tenant ts \<or> ks = multi_tenant" and "srv_reach ks s"
  shows "(outcome s = Some (Inr ()) \<longrightarrow> token s \<and> (\<forall>t \<in> set (loops s). t = Ended \<or> t = Dropped))
    \<and> (token s \<longrightarrow> (\<nexists>f. f 0 = s \<and> (\<forall>k. srv_step ks (f k) (f (Suc k))))
      \<and> (\<forall>t. (srv_step ks)\<^sup>*\<^sup>* s t \<and> (\<nexists>u. srv_step ks t u) \<longrightarrow>
           outcome t \<noteq> None \<and> (\<forall>l \<in> set (loops t). \<not> running l)
           \<and> (\<forall>c \<in> set (conns t). c = Ended \<or> c = Dropped)))"
proof -
  note sh = server_shape [OF assms(1)]
  have inv: "srv_inv ks s" using srv_inv_reach [OF assms(2)] sh by blast
  have "loop_ok (token s) (ks ! 0) (loops s ! 0)" "ks ! 0 = ControlLoop" "0 < length (loops s)"
    using inv sh by (auto simp: srv_inv_def list_all2_conv_all_nth hd_conv_nth)
  then have "loops s ! 0 \<noteq> Ended" "loops s ! 0 = Dropped \<longrightarrow> token s" "loops s ! 0 \<in> set (loops s)"
    by (auto simp: loop_ok_def may_end_def)
  then have a: "outcome s = Some (Inr ()) \<longrightarrow> token s \<and> (\<forall>t \<in> set (loops s). t = Ended \<or> t = Dropped)"
    using inv unfolding srv_inv_def by blast
  have no: False if f: "f 0 = s" "\<And>k. srv_step ks (f k) (f (Suc k))" and "token s" for f
  proof (rule no_endless_run [where r = "less_than <*lex*> less_than" and m = left_over
        and P = "\<lambda>x. srv_inv ks x \<and> token x" and R = "srv_step ks" and f = f])
    show "(left_over y, left_over x) \<in> less_than <*lex*> less_than \<and> srv_inv ks y \<and> token y"
      if "srv_step ks x y" "srv_inv ks x \<and> token x" for x y
      using left_over_decreases [OF that(1)] srv_inv_step [OF that(1)] that(2) sh by blast
  qed (use f inv that(3) in auto)
  have "outcome t \<noteq> None \<and> (\<forall>l \<in> set (loops t). \<not> running l) \<and> (\<forall>c \<in> set (conns t). c = Ended \<or> c = Dropped)"
    if "token s" "(srv_step ks)\<^sup>*\<^sup>* s t" "\<nexists>u. srv_step ks t u" for t
    using quiet_server [OF srv_inv_steps [OF that(2) inv] token_steps [OF that(2,1)]] sh that(3) by blast
  with no a show ?thesis by blast
qed

theorem server_shutdown_witness:
  "\<nexists>f. f 0 = (server_start multi_tenant)\<lparr>token := True\<rparr> \<and> (\<forall>k. srv_step multi_tenant (f k) (f (Suc k)))"
proof -
  have "srv_step multi_tenant (server_start multi_tenant) ((server_start multi_tenant)\<lparr>token := True\<rparr>)"
    by (rule srv_step.Cancel) (simp add: server_start_def)
  then have "srv_reach multi_tenant ((server_start multi_tenant)\<lparr>token := True\<rparr>)" by blast
  from server_shutdown [OF disjI2 [OF refl] this] show ?thesis by simp
qed

text \<open>
  The connection tasks are not awaited: the server may have returned while a control session or a
  relayed connection has not been polled since the cancellation.
\<close>

theorem server_returns_early:
  "\<exists>s. srv_reach (single_tenant [t]) s \<and> outcome s = Some (Inr ()) \<and> Going \<in> set (conns s)"
proof -
  let ?ks = "single_tenant [t]"
  let ?s = "\<lambda>c l m cs q. \<lparr>token = c, loops = [l, m], conns = cs, outcome = q\<rparr>"
  have 1: "srv_step ?ks (?s False Unborn Fresh [] None) (?s False Fresh Fresh [] None)"
    using srv_step.Bind [of "?s False Unborn Fresh [] None" ?ks True] by (simp add: server_bind_def)
  have 2: "srv_step ?ks (?s False Fresh Fresh [] None) (?s False Going Fresh [Fresh] None)"
    using srv_step.PollLoop [of 0 ?ks "?s False Fresh Fresh [] None" False 1]
    by (simp add: poll_loop_def polls_future_def running_def single_tenant_def accepts_def)
  have 3: "srv_step ?ks (?s False Going Fresh [Fresh] None) (?s False Going Fresh [Going] None)"
    using srv_step.PollConn [of 0 "?s False Going Fresh [Fresh] None" ?ks False]
    by (simp add: poll_conn_def running_def)
  have 4: "srv_step ?ks (?s False Going Fresh [Going] None) (?s True Going Fresh [Going] None)"
    using srv_step.Cancel [of "?s False Going Fresh [Going] None" ?ks] by simp
  have 5: "srv_step ?ks (?s True Going Fresh [Going] None) (?s True Dropped Fresh [Going] None)"
    using srv_step.PollLoop [of 0 ?ks "?s True Going Fresh [Going] None" False 0]
    by (simp add: poll_loop_def polls_future_def running_def single_tenant_def)
  have 6: "srv_step ?ks (?s True Dropped Fresh [Going] None) (?s True Dropped Dropped [Going] None)"
    using srv_step.PollLoop [of 1 ?ks "?s True Dropped Fresh [Going] None" False 0]
    by (simp add: poll_loop_def polls_future_def running_def single_tenant_def)
  have 7: "srv_step ?ks (?s True Dropped Dropped [Going] None) (?s True Dropped Dropped [Going] (Some (Inr ())))"
    using srv_step.Finish [of "?s True Dropped Dropped [Going] None" ?ks] by simp
  have st: "server_start ?ks = ?s False Unborn Fresh [] None"
    by (simp add: server_start_def single_tenant_def)
  have "srv_reach ?ks (?s True Dropped Dropped [Going] (Some (Inr ())))"
    unfolding st by (rule srv_first [OF 1], rule srv_first [OF 2], rule srv_first [OF 3], rule srv_first [OF 4], rule srv_first [OF 5], rule srv_first [OF 6], rule srv_first [OF 7], rule rtranclp.rtrancl_refl)
  then show ?thesis by (intro exI conjI) auto
qed

text \<open>
  A single-tenant server whose control address cannot be bound returns the error with its external
  listeners still running.
\<close>

theorem failed_start_leaves_listeners:
  "\<exists>s. srv_reach (single_tenant [t]) s \<and> outcome s = Some (Inl CannotStart) \<and> \<not> token s
     \<and> loops s = [Unborn, Going]"
proof -
  let ?ks = "single_tenant [t]"
  let ?s = "\<lambda>m q. \<lparr>token = False, loops = [Unborn, m], conns = [], outcome = q\<rparr>"
  have 1: "srv_step ?ks (?s Fresh None) (?s Going None)"
    using srv_step.PollLoop [of 1 ?ks "?s Fresh None" False 0]
    by (simp add: poll_loop_def polls_future_def running_def single_tenant_def)
  have 2: "srv_step ?ks (?s Going None) (?s Going (Some (Inl CannotStart)))"
    using srv_step.Bind [of "?s Going None" ?ks False] by (simp add: server_bind_def)
  have st: "server_start ?ks = ?s Fresh None" by (simp add: server_start_def single_tenant_def)
  have "srv_reach ?ks (?s Going (Some (Inl CannotStart)))"
    unfolding st by (rule srv_first [OF 1], rule srv_first [OF 2], rule rtranclp.rtrancl_refl)
  then show ?thesis by (intro exI conjI) auto
qed

section \<open>The client\<close>

text \<open>
  \<open>run_connect_with_shutdown\<close> is one future: a session under the token, then the retry wait under
  the token. Each inbound stream is a task under the token; the two copy tasks of its pipe are
  spawned without it, and the pipe waits for them.
\<close>

datatype client_at = InSession run_state | Sleeping run_state | Returned

record inbound_run =
  whole :: run_state
  pumps :: "run_state list"

record client_run =
  stopping :: bool
  at :: client_at
  streams :: "inbound_run list"

definition client_start :: client_run where
  "client_start = \<lparr>stopping = False, at = InSession Fresh, streams = []\<rparr>"

definition after_session :: "run_state \<Rightarrow> client_at" where
  "after_session t = (case t of Ended \<Rightarrow> Sleeping Fresh | Dropped \<Rightarrow> Returned | _ \<Rightarrow> InSession t)"

definition after_sleep :: "run_state \<Rightarrow> client_at" where
  "after_sleep t = (case t of Ended \<Rightarrow> InSession Fresh | Dropped \<Rightarrow> Returned | _ \<Rightarrow> Sleeping t)"

definition poll_session :: "run_state \<Rightarrow> nat \<Rightarrow> bool \<Rightarrow> client_run \<Rightarrow> client_run" where
  "poll_session t n ready s =
     s\<lparr>at := after_session (poll_task (stopping s) ready t),
       streams := streams s @
         (if polls_future (stopping s) t then replicate n \<lparr>whole = Fresh, pumps = []\<rparr> else [])\<rparr>"

definition poll_sleep :: "run_state \<Rightarrow> bool \<Rightarrow> client_run \<Rightarrow> client_run" where
  "poll_sleep t ready s = s\<lparr>at := after_sleep (poll_task (stopping s) ready t)\<rparr>"

definition poll_inbound :: "bool \<Rightarrow> bool \<Rightarrow> bool \<Rightarrow> inbound_run \<Rightarrow> inbound_run" where
  "poll_inbound c starts ready x =
     x\<lparr>whole := poll_task c ready (whole x),
       pumps := (if polls_future c (whole x) \<and> starts \<and> pumps x = [] then [Going, Going] else pumps x)\<rparr>"

inductive cli_step :: "client_run \<Rightarrow> client_run \<Rightarrow> bool" where
  Stop: "\<not> stopping s \<Longrightarrow> cli_step s (s\<lparr>stopping := True\<rparr>)"
| PollSession: "at s = InSession t \<Longrightarrow> cli_step s (poll_session t n ready s)"
| PollSleep: "at s = Sleeping t \<Longrightarrow> cli_step s (poll_sleep t ready s)"
| PollInbound: "j < length (streams s) \<Longrightarrow> running (whole (streams s ! j)) \<Longrightarrow>
    (ready \<Longrightarrow> \<not> starts \<and> (\<forall>p \<in> set (pumps (streams s ! j)). p = Ended)) \<Longrightarrow>
    cli_step s (s\<lparr>streams := (streams s)[j := poll_inbound (stopping s) starts ready (streams s ! j)]\<rparr>)"

text \<open>A copy task ends when its own streams let it.\<close>

inductive pump_step :: "client_run \<Rightarrow> client_run \<Rightarrow> bool" where
  PumpEnds: "j < length (streams s) \<Longrightarrow> i < length (pumps (streams s ! j)) \<Longrightarrow>
    pumps (streams s ! j) ! i = Going \<Longrightarrow>
    pump_step s (s\<lparr>streams := (streams s)[j := (streams s ! j)\<lparr>pumps := (pumps (streams s ! j))[i := Ended]\<rparr>]\<rparr>)"

abbreviation any_step :: "client_run \<Rightarrow> client_run \<Rightarrow> bool" where
  "any_step \<equiv> sup cli_step pump_step"

abbreviation cli_reach :: "client_run \<Rightarrow> bool" where
  "cli_reach \<equiv> any_step\<^sup>*\<^sup>* client_start"

definition cli_inv :: "client_run \<Rightarrow> bool" where
  "cli_inv s \<longleftrightarrow> (\<forall>t. at s = InSession t \<or> at s = Sleeping t \<longrightarrow> running t)
     \<and> (at s = Returned \<longrightarrow> stopping s) \<and> (\<forall>x \<in> set (streams s). whole x \<noteq> Unborn)"

lemma after_running:
  "running t \<Longrightarrow> after_session (poll_task c r t) = InSession u \<or> after_session (poll_task c r t) = Sleeping u \<Longrightarrow> running u"
  "running t \<Longrightarrow> after_sleep (poll_task c r t) = InSession u \<or> after_sleep (poll_task c r t) = Sleeping u \<Longrightarrow> running u"
  "running t \<Longrightarrow> after_session (poll_task c r t) = Returned \<Longrightarrow> c"
  "running t \<Longrightarrow> after_sleep (poll_task c r t) = Returned \<Longrightarrow> c"
  by (cases t; auto simp: after_session_def after_sleep_def running_def split: if_splits)+

lemma set_update_all: "\<forall>y \<in> set xs. P y \<Longrightarrow> P x \<Longrightarrow> \<forall>y \<in> set (xs[i := x]). P y"
  using set_update_subset_insert [of xs i x] by blast

lemma cli_inv_step [invariants]: "cli_step s s' \<Longrightarrow> cli_inv s \<Longrightarrow> cli_inv s'"
proof (induction rule: cli_step.induct)
  case (PollSession s t n ready)
  then have "running t" by (simp add: cli_inv_def)
  then show ?case using PollSession after_running(1,3) [of t "stopping s" ready]
    by (auto simp: cli_inv_def poll_session_def)
next
  case (PollSleep s t ready)
  then have "running t" by (simp add: cli_inv_def)
  then show ?case using PollSleep after_running(2,4) [of t "stopping s" ready]
    by (auto simp: cli_inv_def poll_sleep_def)
next
  case (PollInbound j s ready starts)
  let ?x = "poll_inbound (stopping s) starts ready (streams s ! j)"
  have "whole ?x \<noteq> Unborn" using poll_task_cases(3) [OF PollInbound(2)] by (simp add: poll_inbound_def)
  with PollInbound(4) set_update_all [of "streams s" "\<lambda>x. whole x \<noteq> Unborn" ?x j] show ?case
    by (simp add: cli_inv_def)
qed (simp add: cli_inv_def)

lemma pump_inv [invariants]: "pump_step s s' \<Longrightarrow> cli_inv s \<Longrightarrow> cli_inv s'"
proof (induction rule: pump_step.induct)
  case (PumpEnds j s i)
  let ?x = "(streams s ! j)\<lparr>pumps := (pumps (streams s ! j))[i := Ended]\<rparr>"
  have "whole ?x \<noteq> Unborn" using PumpEnds by (simp add: cli_inv_def)
  with PumpEnds(4) set_update_all [of "streams s" "\<lambda>x. whole x \<noteq> Unborn" ?x j] show ?case
    by (simp add: cli_inv_def)
qed

lemma any_step_inv: "any_step s s' \<Longrightarrow> cli_inv s \<Longrightarrow> cli_inv s'"
  using cli_inv_step pump_inv by auto

lemma any_steps_inv: "any_step\<^sup>*\<^sup>* s t \<Longrightarrow> cli_inv s \<Longrightarrow> cli_inv t"
  by (induction rule: rtranclp_induct) (auto intro: any_step_inv)

lemma cli_inv_start: "cli_inv client_start"
  by (simp add: cli_inv_def client_start_def running_def)

subsection \<open>After the cancellation\<close>

fun at_weight :: "client_at \<Rightarrow> nat" where
  "at_weight Returned = 0"
| "at_weight (InSession t) = (if t = Fresh then 1 else 2)"
| "at_weight (Sleeping t) = (if t = Fresh then 1 else 2)"

definition going_pumps :: "inbound_run \<Rightarrow> nat" where
  "going_pumps x = sum_list (map weight (pumps x))"

definition client_left :: "client_run \<Rightarrow> nat \<times> nat \<times> nat" where
  "client_left s = (at_weight (at s), sum_list (map (\<lambda>x. weight (whole x)) (streams s)),
     sum_list (map going_pumps (streams s)))"

lemma after_weight:
  "running t \<Longrightarrow> at_weight (after_session (poll_task True r t)) < at_weight (InSession t)"
  "running t \<Longrightarrow> at_weight (after_sleep (poll_task True r t)) < at_weight (Sleeping t)"
  by (cases t; simp add: after_session_def after_sleep_def running_def)+

lemma sum_list_same:
  "i < length xs \<Longrightarrow> f x = f (xs ! i) \<Longrightarrow> sum_list (map f (xs[i := x])) = (sum_list (map f xs) :: nat)"
  by (metis list_update_id map_update)

abbreviation by_left :: "((nat \<times> nat \<times> nat) \<times> (nat \<times> nat \<times> nat)) set" where
  "by_left \<equiv> less_than <*lex*> less_than <*lex*> less_than"

lemma client_left_decreases:
  "cli_step s s' \<Longrightarrow> stopping s \<Longrightarrow> cli_inv s \<Longrightarrow> (client_left s', client_left s) \<in> by_left \<and> stopping s'"
proof (induction rule: cli_step.induct)
  case (PollSession s t n ready)
  then have "running t" by (simp add: cli_inv_def)
  with PollSession after_weight(1) [of t ready] show ?case
    by (simp add: client_left_def poll_session_def)
next
  case (PollSleep s t ready)
  then have "running t" by (simp add: cli_inv_def)
  with PollSleep after_weight(2) [of t ready] show ?case
    by (simp add: client_left_def poll_sleep_def)
next
  case (PollInbound j s ready starts)
  have "weight (whole (poll_inbound True starts ready (streams s ! j))) < weight (whole (streams s ! j))"
    using weight_poll [OF PollInbound(2)] by (simp add: poll_inbound_def)
  with PollInbound(1,4) show ?case
    by (simp add: client_left_def sum_list_decreases [where f = "\<lambda>x. weight (whole x)"])
qed simp

lemma pump_left_decreases:
  "pump_step s s' \<Longrightarrow> (client_left s', client_left s) \<in> by_left \<and> stopping s' = stopping s \<and> at s' = at s"
proof (induction rule: pump_step.induct)
  case (PumpEnds j s i)
  let ?x = "(streams s ! j)\<lparr>pumps := (pumps (streams s ! j))[i := Ended]\<rparr>"
  have "going_pumps ?x < going_pumps (streams s ! j)"
    using PumpEnds sum_list_decreases [of i "pumps (streams s ! j)" weight Ended] by (simp add: going_pumps_def)
  then have "sum_list (map going_pumps ((streams s)[j := ?x])) < sum_list (map going_pumps (streams s))"
    by (rule sum_list_decreases [OF PumpEnds(1)])
  moreover have "sum_list (map (\<lambda>x. weight (whole x)) ((streams s)[j := ?x]))
      = sum_list (map (\<lambda>x. weight (whole x)) (streams s))"
    by (rule sum_list_same [OF PumpEnds(1)]) simp
  ultimately show ?case by (simp add: client_left_def)
qed

lemma any_left_decreases:
  "any_step s s' \<Longrightarrow> stopping s \<Longrightarrow> cli_inv s \<Longrightarrow> (client_left s', client_left s) \<in> by_left \<and> stopping s'"
  using client_left_decreases pump_left_decreases by (auto simp del: in_lex_prod)

lemma stopping_steps: "any_step\<^sup>*\<^sup>* s t \<Longrightarrow> stopping s \<Longrightarrow> cli_inv s \<Longrightarrow> stopping t \<and> cli_inv t"
proof (induction rule: rtranclp_induct)
  case (step y z)
  then show ?case using any_left_decreases any_step_inv by blast
qed simp

lemma quiet_client:
  assumes inv: "cli_inv s" and quiet: "\<nexists>s'. cli_step s s'"
  shows "at s = Returned \<and> (\<forall>x \<in> set (streams s). whole x = Ended \<or> whole x = Dropped)"
proof -
  have "at s = Returned"
    by (cases "at s") (use quiet cli_step.PollSession cli_step.PollSleep in blast)+
  moreover have "\<not> running (whole x)" if x: "x \<in> set (streams s)" for x
  proof
    assume "running (whole x)"
    then obtain j where "j < length (streams s)" "running (whole (streams s ! j))"
      using x by (auto simp: in_set_conv_nth)
    then have "cli_step s (s\<lparr>streams := (streams s)[j := poll_inbound (stopping s) False False (streams s ! j)]\<rparr>)"
      by (rule cli_step.PollInbound) simp
    with quiet show False by blast
  qed
  moreover have "\<forall>x \<in> set (streams s). whole x \<noteq> Unborn" using inv by (simp add: cli_inv_def)
  ultimately show ?thesis using stopped_iff by blast
qed

text \<open>
  C31: The client of a tunnel stops when it is told to, and only then. It returns only after the
  token was cancelled. Once the token is cancelled no run is endless, and where only copy tasks can
  still move the client has returned and every inbound connection has ended or was dropped.
\<close>

theorem client_shutdown:
  assumes "cli_reach s"
  shows "(at s = Returned \<longrightarrow> stopping s)
    \<and> (stopping s \<longrightarrow> (\<nexists>f. f 0 = s \<and> (\<forall>k. any_step (f k) (f (Suc k))))
      \<and> (\<forall>t. any_step\<^sup>*\<^sup>* s t \<and> (\<nexists>u. cli_step t u) \<longrightarrow>
           at t = Returned \<and> (\<forall>x \<in> set (streams t). whole x = Ended \<or> whole x = Dropped)))"
proof -
  have inv: "cli_inv s" by (rule any_steps_inv [OF assms cli_inv_start])
  have no: False if f: "f 0 = s" "\<And>k. any_step (f k) (f (Suc k))" and "stopping s" for f
  proof (rule no_endless_run [where r = by_left and m = client_left and R = any_step and f = f
        and P = "\<lambda>x. cli_inv x \<and> stopping x"])
    show "(client_left y, client_left x) \<in> by_left \<and> cli_inv y \<and> stopping y"
      if "any_step x y" "cli_inv x \<and> stopping x" for x y
      using any_left_decreases [OF that(1)] any_step_inv [OF that(1)] that(2) by blast
    show "any_step (f k) (f (Suc k))" for k by (rule f(2))
  qed (use f(1) inv that(3) in auto)
  have "at t = Returned \<and> (\<forall>x \<in> set (streams t). whole x = Ended \<or> whole x = Dropped)"
    if "any_step\<^sup>*\<^sup>* s t" "\<nexists>u. cli_step t u" for t
    using quiet_client [OF any_steps_inv [OF that(1) inv] that(2)] .
  moreover have "at s = Returned \<longrightarrow> stopping s" using inv by (simp add: cli_inv_def)
  ultimately show ?thesis using no by blast
qed

theorem client_shutdown_witness:
  "\<nexists>f. f 0 = client_start\<lparr>stopping := True\<rparr> \<and> (\<forall>k. any_step (f k) (f (Suc k)))"
proof -
  have "cli_step client_start (client_start\<lparr>stopping := True\<rparr>)"
    by (rule cli_step.Stop) (simp add: client_start_def)
  then have "cli_reach (client_start\<lparr>stopping := True\<rparr>)" by (intro r_into_rtranclp) simp
  from client_shutdown [OF this] show ?thesis by simp
qed

text \<open>
  The copy tasks of an inbound connection do not stop with it: the client may have returned while
  both of them still hold the sockets of a connection that was dropped.
\<close>

lemmas cli_first = converse_rtranclp_into_rtranclp [where r = any_step]

theorem client_leaves_pumps:
  "\<exists>s. cli_reach s \<and> at s = Returned \<and> streams s = [\<lparr>whole = Dropped, pumps = [Going, Going]\<rparr>]"
proof -
  let ?s = "\<lambda>c a xs. \<lparr>stopping = c, at = a, streams = xs\<rparr>"
  let ?x = "\<lambda>w ps. \<lparr>whole = w, pumps = ps\<rparr>"
  have 1: "any_step (?s False (InSession Fresh) []) (?s False (InSession Going) [?x Fresh []])"
    using cli_step.PollSession [of "?s False (InSession Fresh) []" Fresh 1 False]
    by (simp add: poll_session_def after_session_def polls_future_def running_def)
  have 2: "any_step (?s False (InSession Going) [?x Fresh []]) (?s False (InSession Going) [?x Going [Going, Going]])"
    using cli_step.PollInbound [of 0 "?s False (InSession Going) [?x Fresh []]" False True]
    by (simp add: poll_inbound_def polls_future_def running_def)
  have 3: "any_step (?s False (InSession Going) [?x Going [Going, Going]]) (?s True (InSession Going) [?x Going [Going, Going]])"
    using cli_step.Stop [of "?s False (InSession Going) [?x Going [Going, Going]]"] by simp
  have 4: "any_step (?s True (InSession Going) [?x Going [Going, Going]]) (?s True (InSession Going) [?x Dropped [Going, Going]])"
    using cli_step.PollInbound [of 0 "?s True (InSession Going) [?x Going [Going, Going]]" False False]
    by (simp add: poll_inbound_def running_def)
  have 5: "any_step (?s True (InSession Going) [?x Dropped [Going, Going]]) (?s True Returned [?x Dropped [Going, Going]])"
    using cli_step.PollSession [of "?s True (InSession Going) [?x Dropped [Going, Going]]" Going 0 False]
    by (simp add: poll_session_def after_session_def polls_future_def running_def)
  have "cli_reach (?s True Returned [?x Dropped [Going, Going]])"
    unfolding client_start_def
    by (rule cli_first [OF 1], rule cli_first [OF 2], rule cli_first [OF 3], rule cli_first [OF 4],
        rule cli_first [OF 5], rule rtranclp.rtrancl_refl)
  then show ?thesis by (intro exI conjI) auto
qed

end
