(* ===== verification/Mux.thy ===== *)
theory Mux
  imports Prelude
begin

text \<open>
  The multiplexer driver (\<open>mux.rs\<close>). yamux is behind two polls: \<open>poll_new_outbound\<close>, asked only
  while a request is pending, and \<open>poll_next_inbound\<close>; one pass of the driver gets their answers
  as an argument. A request to open a stream is a number; its answer is what its oneshot channel
  receives.
\<close>

section \<open>Configuration\<close>

definition MAX_STREAMS :: nat where "MAX_STREAMS = 4096"
definition MAX_CONNECTION_RECEIVE_WINDOW :: nat where
  "MAX_CONNECTION_RECEIVE_WINDOW = MAX_STREAMS * 256 * 1024"

record yamux_config =
  max_connection_receive_window :: "nat option"
  max_num_streams :: nat

definition mux_config :: "yamux_config \<Rightarrow> yamux_config" where
  "mux_config base = base\<lparr>max_connection_receive_window := Some MAX_CONNECTION_RECEIVE_WINDOW,
     max_num_streams := MAX_STREAMS\<rparr>"

text \<open>What yamux asserts of a configuration, and the 1 GiB the comment speaks of.\<close>

lemma mux_config_valid:
  "max_connection_receive_window (mux_config d) = Some (2 ^ 30)
   \<and> 256 * 1024 * max_num_streams (mux_config d) \<le> 2 ^ 30"
  by (simp add: mux_config_def MAX_CONNECTION_RECEIVE_WINDOW_def MAX_STREAMS_def)

section \<open>The driver\<close>

datatype open_answer = Opened nat | OpenFailed | ConnectionClosed | Refused

datatype inbound_poll = InStream nat | InEnd | InPending

record conn_poll =
  new_outbound :: "open_answer option"
  next_inbound :: inbound_poll

record mux_state =
  waiting :: "nat list"
  requests :: "nat list"
  answers :: "(nat \<times> open_answer) list"
  inbound_streams :: "nat list"
  halted :: bool

datatype action = Continue | Stop | Park

definition mux_start :: mux_state where
  "mux_start = \<lparr>waiting = [], requests = [], answers = [], inbound_streams = [], halted = False\<rparr>"

text \<open>
  \<open>open_stream\<close> sends on a fresh clone of the channel, which always has a slot of its own, so it
  fails only when the driver has dropped the receiver.
\<close>

definition open_stream :: "nat \<Rightarrow> mux_state \<Rightarrow> mux_state" where
  "open_stream w m =
     (if halted m then m\<lparr>answers := answers m @ [(w, Refused)]\<rparr> else m\<lparr>requests := requests m @ [w]\<rparr>)"

definition driver_poll :: "conn_poll \<Rightarrow> mux_state \<Rightarrow> action \<times> mux_state" where
  "driver_poll c m = (case (waiting m, new_outbound c) of
     (w # ws, Some result) \<Rightarrow> (Continue, m\<lparr>waiting := ws, answers := answers m @ [(w, result)]\<rparr>)
   | _ \<Rightarrow> (case requests m of
       w # ws \<Rightarrow> (Continue, m\<lparr>requests := ws, waiting := waiting m @ [w]\<rparr>)
     | [] \<Rightarrow> (case next_inbound c of
         InStream st \<Rightarrow> (Continue, m\<lparr>inbound_streams := inbound_streams m @ [st]\<rparr>)
       | InEnd \<Rightarrow> (Stop, m)
       | InPending \<Rightarrow> (Park, m))))"

definition driver_stop :: "mux_state \<Rightarrow> mux_state" where
  "driver_stop m = m\<lparr>answers := answers m @ map (\<lambda>w. (w, ConnectionClosed)) (waiting m @ requests m),
     waiting := [], requests := [], halted := True\<rparr>"

definition driver_pass :: "conn_poll \<Rightarrow> mux_state \<Rightarrow> mux_state" where
  "driver_pass c m =
     (if halted m then m else case driver_poll c m of (Stop, m') \<Rightarrow> driver_stop m' | (_, m') \<Rightarrow> m')"

datatype mux_event = Ask nat | Pass conn_poll | Cancelled

fun mux_step :: "mux_event \<Rightarrow> mux_state \<Rightarrow> mux_state" where
  "mux_step (Ask w) m = open_stream w m"
| "mux_step (Pass c) m = driver_pass c m"
| "mux_step Cancelled m = (if halted m then m else driver_stop m)"

definition run_mux :: "mux_event list \<Rightarrow> mux_state \<Rightarrow> mux_state" where
  "run_mux es m = fold mux_step es m"

definition asked :: "mux_event list \<Rightarrow> nat list" where
  "asked es = concat (map (\<lambda>e. case e of Ask w \<Rightarrow> [w] | _ \<Rightarrow> []) es)"

section \<open>Order and liveness\<close>

lemma driver_poll_order:
  "driver_poll c m = (a, m') \<Longrightarrow>
     map fst (answers m') @ waiting m' @ requests m' = map fst (answers m) @ waiting m @ requests m
     \<and> halted m' = halted m"
  by (auto simp: driver_poll_def split: list.splits option.splits inbound_poll.splits)

definition queue_inv :: "nat list \<Rightarrow> mux_state \<Rightarrow> bool" where
  "queue_inv ws m \<longleftrightarrow> map fst (answers m) @ waiting m @ requests m = ws
     \<and> (halted m \<longrightarrow> waiting m = [] \<and> requests m = [])"

lemma queue_inv_step [invariants]:
  assumes "queue_inv ws m"
  shows "queue_inv (ws @ asked [e]) (mux_step e m)"
proof (cases e)
  case (Pass c)
  obtain a m1 where p: "driver_poll c m = (a, m1)" by force
  from driver_poll_order [OF this] assms Pass p show ?thesis
    by (cases a) (auto simp: queue_inv_def asked_def driver_pass_def driver_stop_def comp_def)
qed (use assms in \<open>auto simp: queue_inv_def asked_def open_stream_def driver_stop_def comp_def\<close>)

lemma asked_append: "asked (es @ fs) = asked es @ asked fs"
  by (simp add: asked_def)

lemma queue_inv_run: "queue_inv (asked es) (run_mux es mux_start)"
proof (induction es rule: rev_induct)
  case Nil
  show ?case by (simp add: queue_inv_def asked_def run_mux_def mux_start_def)
next
  case (snoc e es)
  from queue_inv_step [OF this, of e] show ?case by (simp add: asked_append run_mux_def)
qed

text \<open>Each pass that can open a stream brings the queue closer to empty.\<close>

definition work :: "mux_state \<Rightarrow> nat" where
  "work m = length (waiting m) + 2 * length (requests m)"

lemma pass_works:
  assumes "new_outbound c \<noteq> None" and "0 < work m" and "\<not> halted m"
  shows "work (driver_pass c m) < work m \<and> \<not> halted (driver_pass c m)"
  using assms by (auto simp: driver_pass_def driver_poll_def work_def split: list.splits option.splits)

lemma idle_passes:
  assumes "work m = 0"
  shows "work (driver_pass c m) = 0"
  using assms by (auto simp: driver_pass_def driver_poll_def work_def driver_stop_def
      split: list.splits option.splits inbound_poll.splits)

lemma idle_run: "work m = 0 \<Longrightarrow> work (fold driver_pass cs m) = 0"
  by (induction cs arbitrary: m) (simp_all add: idle_passes)

lemma passes_finish:
  assumes "\<And>c. c \<in> set cs \<Longrightarrow> new_outbound c \<noteq> None" and "work m \<le> length cs" and "\<not> halted m"
  shows "work (fold driver_pass cs m) = 0"
  using assms
proof (induction cs arbitrary: m)
  case (Cons c cs)
  show ?case
  proof (cases "work m = 0")
    case True
    then show ?thesis using idle_run [of m "c # cs"] by simp
  next
    case False
    then have "work (driver_pass c m) < work m \<and> \<not> halted (driver_pass c m)"
      using pass_works [of c m] Cons.prems by simp
    with Cons show ?thesis by simp
  qed
qed simp

section \<open>Properties\<close>

text \<open>
  C26: Every request to open a stream is answered at most once and in the order of the requests,
  whatever yamux answers and whenever the driver stops: the requests answered so far, followed by
  those the driver still holds, are exactly the requests made. After the driver has stopped none
  is left without an answer.
\<close>

theorem open_requests_fifo:
  "map fst (answers (run_mux es mux_start)) @ waiting (run_mux es mux_start) @ requests (run_mux es mux_start)
     = asked es
   \<and> (Cancelled \<in> set es \<longrightarrow> map fst (answers (run_mux es mux_start)) = asked es)"
proof -
  have inv: "queue_inv (asked es) (run_mux es mux_start)" by (rule queue_inv_run)
  have stay: "halted m \<Longrightarrow> halted (mux_step e m)" for e m
    by (cases e) (auto simp: open_stream_def driver_pass_def)
  then have stays: "halted m \<Longrightarrow> halted (fold mux_step fs m)" for fs m
    by (induction fs arbitrary: m) simp_all
  have "halted (run_mux es mux_start)" if c: "Cancelled \<in> set es"
  proof -
    obtain as bs where "es = as @ Cancelled # bs" using split_list [OF c] by blast
    then have "run_mux es mux_start = fold mux_step bs (mux_step Cancelled (fold mux_step as mux_start))"
      by (simp add: run_mux_def)
    moreover have "halted (mux_step Cancelled m)" for m by (simp add: driver_stop_def)
    ultimately show ?thesis using stays by simp
  qed
  with inv show ?thesis by (auto simp: queue_inv_def)
qed

theorem open_requests_fifo_witness:
  "map fst (answers (run_mux [Ask 1, Ask 2, Pass \<lparr>new_outbound = None, next_inbound = InPending\<rparr>, Cancelled] mux_start)) = [1, 2]"
proof -
  let ?es = "[Ask 1, Ask 2, Pass \<lparr>new_outbound = None, next_inbound = InPending\<rparr>, Cancelled]"
  have "map fst (answers (run_mux ?es mux_start)) = asked ?es"
    by (rule mp [OF conjunct2 [OF open_requests_fifo]]) simp
  then show ?thesis by (simp add: asked_def)
qed

text \<open>
  No request waits for ever on a link that can open streams: from any running state, as many
  passes as there is work (one for each request already waiting, two for each still in the
  channel), each able to open a stream, leave no request unanswered.
\<close>

theorem open_requests_served:
  assumes "\<And>c. c \<in> set cs \<Longrightarrow> new_outbound c \<noteq> None"
    and "length (waiting m) + 2 * length (requests m) \<le> length cs" and "\<not> halted m"
  shows "waiting (fold driver_pass cs m) = [] \<and> requests (fold driver_pass cs m) = []"
  using passes_finish [of cs m] assms by (simp add: work_def)

theorem open_requests_served_witness:
  "requests (fold driver_pass (replicate 4 \<lparr>new_outbound = Some (Opened 0), next_inbound = InPending\<rparr>)
     (mux_start\<lparr>requests := [1, 2]\<rparr>)) = []"
  by (rule conjunct2 [OF open_requests_served]) (auto simp: mux_start_def)

end
