(* ===== verification/Serve_System.thy ===== *)
theory Serve_System
  imports Link_Control Mux
begin

text \<open>
  A single-tenant \<open>serve\<close> as one system (\<open>reverse/serve.rs\<close> with \<open>mux.rs\<close>): the control
  connections and the slot they fill, the multiplexer driver of each link, and the external clients,
  which take the handle from the slot, ask the driver behind it for a stream and relay over the one
  they get. A step is what one task does between two points where another can run.
\<close>

section \<open>State and steps\<close>

text \<open>
  An external client: waiting for the slot, holding the handle of link \<open>i\<close>, waiting for the answer
  to its request for a stream, relaying over stream \<open>st\<close> of link \<open>i\<close>, or ended with an error.
\<close>

datatype ext_client = Absent | Waiting | Holding nat | Asked nat | Relayed nat nat | Gone

record serve_state =
  ctl :: control_state
  drivers :: "nat \<Rightarrow> mux_state"
  clients :: "nat \<Rightarrow> ext_client"

definition serve_start :: serve_state where
  "serve_start = \<lparr>ctl = control_start, drivers = (\<lambda>_. mux_start), clients = (\<lambda>_. Absent)\<rparr>"

definition take_answer :: "nat \<Rightarrow> open_answer \<Rightarrow> ext_client" where
  "take_answer i a = (case a of Opened st \<Rightarrow> Relayed i st | _ \<Rightarrow> Gone)"

definition drive :: "nat \<Rightarrow> mux_event \<Rightarrow> serve_state \<Rightarrow> serve_state" where
  "drive i e s = s\<lparr>drivers := (drivers s)(i := mux_step e (drivers s i))\<rparr>"

definition set_client :: "nat \<Rightarrow> ext_client \<Rightarrow> serve_state \<Rightarrow> serve_state" where
  "set_client e k s = s\<lparr>clients := (clients s)(e := k)\<rparr>"

text \<open>
  \<open>handle_control_conn\<close> goes on when \<open>inbound_rx\<close> closes, which is when the driver has stopped. A
  driver runs from the end of the handshake on, and stops at its connection's end or the shutdown.
\<close>

inductive sstep :: "(nat \<Rightarrow> bool) \<Rightarrow> serve_state \<Rightarrow> serve_state \<Rightarrow> bool" for hp :: "nat \<Rightarrow> bool" where
  look: "phase (ctl s) i = Unseen \<Longrightarrow> sstep hp s (s\<lparr>ctl := begin_control i (ctl s)\<rparr>)"
| shake: "phase (ctl s) i = Shaking \<Longrightarrow> ok \<le> hp i \<Longrightarrow> sstep hp s (s\<lparr>ctl := finish_handshake i ok (ctl s)\<rparr>)"
| down: "phase (ctl s) i = Linked \<Longrightarrow> halted (drivers s i) \<Longrightarrow>
    sstep hp s (s\<lparr>ctl := set_phase i LinkDown (ctl s)\<rparr>)"
| clear: "phase (ctl s) i = LinkDown \<Longrightarrow> sstep hp s (s\<lparr>ctl := end_control i (ctl s)\<rparr>)"
| driver: "phase (ctl s) i = Linked \<Longrightarrow> e = Pass c \<or> e = Cancelled \<Longrightarrow> sstep hp s (drive i e s)"
| arrives: "clients s e = Absent \<Longrightarrow> sstep hp s (set_client e Waiting s)"
| takes: "clients s e = Waiting \<Longrightarrow> current (ctl s) = Some i \<Longrightarrow> sstep hp s (set_client e (Holding i) s)"
| asks: "clients s e = Holding i \<Longrightarrow> sstep hp s (set_client e (Asked i) (drive i (Ask e) s))"
| answered: "clients s e = Asked i \<Longrightarrow> (e, a) \<in> set (answers (drivers s i)) \<Longrightarrow>
    sstep hp s (set_client e (take_answer i a) s)"
| leaves: "clients s e \<noteq> Absent \<Longrightarrow> sstep hp s (set_client e Gone s)"

inductive_cases sstepE: "sstep hp s s'"

abbreviation sreach :: "(nat \<Rightarrow> bool) \<Rightarrow> serve_state \<Rightarrow> bool" where
  "sreach hp \<equiv> (sstep hp)\<^sup>*\<^sup>* serve_start"

lemmas sreach_first = converse_rtranclp_into_rtranclp [where r = "sstep hp" for hp]

section \<open>The parts keep their promises\<close>

text \<open>Every step is a step of the control slot or leaves it alone.\<close>

lemma ctl_simps [simp]:
  "ctl (drive i ev s) = ctl s" "ctl (set_client e k s) = ctl s"
  "clients (drive i ev s) = clients s" "drivers (set_client e k s) = drivers s"
  "clients (set_client e k s) = (clients s)(e := k)"
  "drivers (drive i ev s) = (drivers s)(i := mux_step ev (drivers s i))"
  by (simp_all add: drive_def set_client_def)

lemma sstep_control: "sstep hp s s' \<Longrightarrow> cstep False hp (ctl s) (ctl s') \<or> ctl s' = ctl s"
  by (erule sstepE) (auto intro: Look Shake Down Clear)

lemma sreach_control: "sreach hp s \<Longrightarrow> creach False hp (ctl s)"
proof (induction rule: rtranclp_induct)
  case base
  show ?case by (simp add: serve_start_def)
next
  case (step y z)
  from sstep_control [OF step.hyps(2)] step.IH show ?case
    by (auto intro: rtranclp.rtrancl_into_rtrancl)
qed

text \<open>The requests a driver has seen, in order.\<close>

definition seen :: "mux_state \<Rightarrow> nat list" where
  "seen m = map fst (answers m) @ waiting m @ requests m"

definition drained :: "mux_state \<Rightarrow> bool" where
  "drained m \<longleftrightarrow> (halted m \<longrightarrow> waiting m = [] \<and> requests m = [])"

lemma queue_inv_seen: "queue_inv (seen m) m \<longleftrightarrow> drained m"
  by (simp add: queue_inv_def seen_def drained_def)

lemma mux_step_seen:
  assumes "drained m"
  shows "seen (mux_step e m) = seen m @ asked [e] \<and> drained (mux_step e m)"
  using queue_inv_step [of "seen m" m e] assms by (simp add: queue_inv_seen) (simp add: queue_inv_def seen_def drained_def)

lemma mux_step_answers: "set (answers m) \<subseteq> set (answers (mux_step e m))"
  by (cases e) (auto simp: open_stream_def driver_pass_def driver_poll_def driver_stop_def
      split: list.splits option.splits inbound_poll.splits)

section \<open>The invariant\<close>

text \<open>The link a client has its handle from, and whether it has asked.\<close>

fun handle_of :: "ext_client \<Rightarrow> nat option" where
  "handle_of (Holding i) = Some i"
| "handle_of (Asked i) = Some i"
| "handle_of (Relayed i st) = Some i"
| "handle_of k = None"

definition was_linked :: "conn_phase \<Rightarrow> bool" where
  "was_linked p \<longleftrightarrow> p = Linked \<or> p = LinkDown \<or> p = Finished"

definition links_ok :: "(nat \<Rightarrow> bool) \<Rightarrow> serve_state \<Rightarrow> bool" where
  "links_ok hp s \<longleftrightarrow> (\<forall>i. phase (ctl s) i = LinkDown \<longrightarrow> halted (drivers s i))
     \<and> (\<forall>e i. handle_of (clients s e) = Some i \<longrightarrow> hp i \<and> was_linked (phase (ctl s) i)
          \<and> (phase (ctl s) i = Finished \<longrightarrow> halted (drivers s i)))"

definition requests_ok :: "serve_state \<Rightarrow> bool" where
  "requests_ok s \<longleftrightarrow> (\<forall>i. drained (drivers s i) \<and> distinct (seen (drivers s i)))
     \<and> (\<forall>e i. e \<in> set (seen (drivers s i)) \<longrightarrow> clients s e = Asked i \<or> (\<exists>st. clients s e = Relayed i st) \<or> clients s e = Gone)
     \<and> (\<forall>e i. clients s e = Asked i \<longrightarrow> e \<in> set (seen (drivers s i)))
     \<and> (\<forall>e i st. clients s e = Relayed i st \<longrightarrow> (e, Opened st) \<in> set (answers (drivers s i)))"

lemma halted_stays: "halted m \<Longrightarrow> halted (mux_step e m)"
  by (cases e) (auto simp: open_stream_def driver_pass_def)

lemma halted_open [simp]: "halted (open_stream e m) = halted m"
  by (simp add: open_stream_def)

lemma handle_of_answer: "handle_of (take_answer i a) = Some j \<Longrightarrow> j = i"
  by (cases a) (simp_all add: take_answer_def)

lemma links_ok_step [invariants]:
  assumes "sstep hp s s'" and "links_ok hp s" and "slot_inv hp (ctl s)"
  shows "links_ok hp s'"
proof -
  have a: "phase (ctl s) i = LinkDown \<Longrightarrow> halted (drivers s i)" for i
    using assms(2) unfolding links_ok_def by blast
  have b: "hp i \<and> was_linked (phase (ctl s) i) \<and> (phase (ctl s) i = Finished \<longrightarrow> halted (drivers s i))"
    if "handle_of (clients s e) = Some i" for e i
    using assms(2) that unfolding links_ok_def by blast
  from assms(1) show ?thesis
  proof cases
    case (look i)
    have "handle_of (clients s e) \<noteq> Some i" for e using b [of e i] look(2) by (auto simp: was_linked_def)
    with look a b show ?thesis by (auto simp: links_ok_def was_linked_def control_defs)
  next
    case (shake i ok)
    with a b show ?thesis by (fastforce simp: links_ok_def was_linked_def control_defs split: if_splits)
  next
    case (down i)
    with a b show ?thesis by (auto simp: links_ok_def was_linked_def control_defs)
  next
    case (clear i)
    with a b show ?thesis by (auto simp: links_ok_def was_linked_def control_defs)
  next
    case (driver i ev c)
    with a b show ?thesis by (auto simp: links_ok_def intro: halted_stays)
  next
    case (takes e i)
    with assms(3) have "phase (ctl s) i = Linked \<or> phase (ctl s) i = LinkDown" "hp i"
      unfolding slot_inv_def by blast+
    with takes a b show ?thesis by (auto simp: links_ok_def was_linked_def)
  next
    case (asks e i)
    with b [of e i] a b show ?thesis by (auto simp: links_ok_def intro: halted_stays)
  next
    case (answered e i x)
    with b [of e i] a b show ?thesis by (auto simp: links_ok_def dest!: handle_of_answer)
  next
    case (arrives e)
    with a b show ?thesis by (auto simp: links_ok_def)
  next
    case (leaves e)
    with a b show ?thesis by (auto simp: links_ok_def)
  qed
qed

lemma requests_ok_step [invariants]:
  assumes "sstep hp s s'" and "requests_ok s"
  shows "requests_ok s'"
proof -
  have d: "drained (drivers s i)" "distinct (seen (drivers s i))" for i
    using assms(2) unfolding requests_ok_def by blast+
  have f: "clients s e = Asked i \<or> (\<exists>st. clients s e = Relayed i st) \<or> clients s e = Gone"
    if "e \<in> set (seen (drivers s i))" for e i
    using assms(2) that unfolding requests_ok_def by blast
  have g: "e \<in> set (seen (drivers s i))" if "clients s e = Asked i" for e i
    using assms(2) that unfolding requests_ok_def by blast
  have r: "(e, Opened st) \<in> set (answers (drivers s i))" if "clients s e = Relayed i st" for e i st
    using assms(2) that unfolding requests_ok_def by blast
  note ms = mux_step_seen [OF d(1)]
  from assms(1) show ?thesis
  proof cases
    case (driver i ev c)
    have "seen (mux_step ev (drivers s i)) = seen (drivers s i)" "drained (mux_step ev (drivers s i))"
      using ms [of ev i] driver(3) by (auto simp: asked_def)
    with driver(1) d f g r mux_step_answers [of "drivers s i" ev] show ?thesis
      by (auto simp: requests_ok_def)
  next
    case (asks e i)
    have no: "e \<notin> set (seen (drivers s j))" for j using f [of e j] asks(2) by auto
    have "seen (mux_step (Ask e) (drivers s i)) = seen (drivers s i) @ [e]" "drained (mux_step (Ask e) (drivers s i))"
      using ms [of "Ask e" i] by (auto simp: asked_def)
    with asks d f g r no mux_step_answers [of "drivers s i" "Ask e"] show ?thesis
      by (auto simp: requests_ok_def simp del: mux_step.simps)
  next
    case (answered e i x)
    have "e \<in> set (seen (drivers s i))" by (rule g [OF answered(2)])
    moreover have only: "e \<in> set (seen (drivers s j)) \<Longrightarrow> j = i" for j using f [of e j] answered(2) by auto
    ultimately show ?thesis using answered d f g r
      by (cases x) (auto simp: requests_ok_def take_answer_def)
  next
    case (takes e i)
    with d f g r show ?thesis by (fastforce simp: requests_ok_def)
  next
    case (arrives e)
    with d f g r show ?thesis by (fastforce simp: requests_ok_def)
  next
    case (leaves e)
    with d f g r show ?thesis by (auto simp: requests_ok_def)
  qed (use d f g r in \<open>auto simp: requests_ok_def\<close>)
qed

lemma sreach_inv: "sreach hp s \<Longrightarrow> links_ok hp s \<and> requests_ok s"
proof (induction rule: rtranclp_induct)
  case base
  show ?case
    by (simp add: links_ok_def requests_ok_def serve_start_def control_start_def seen_def drained_def mux_start_def)
next
  case (step y z)
  have "slot_inv hp (ctl y)" by (rule slot_inv_reach [OF sreach_control [OF step.hyps(1)]])
  with step links_ok_step requests_ok_step show ?case by blast
qed

section \<open>Properties\<close>

text \<open>
  C24: An external client of a single-tenant \<open>serve\<close> is served through a link that proved the key, or
  fails; it does not hang on a dead one. In every state the tasks reach, the link a client holds,
  asks or relays over completed its handshake with the pre-shared key; one that relays does so over
  a stream its link opened for it alone, its single request; and one that has asked is still in the
  link's queue while the driver runs, and has an answer it can take once the driver has stopped,
  which it has when the control connection was cleaned up.
\<close>

theorem client_served_or_fails:
  assumes "sreach hp s"
  shows "(\<forall>i. handle_of (clients s e) = Some i \<longrightarrow> hp i)
    \<and> (\<forall>i st. clients s e = Relayed i st \<longrightarrow> (\<forall>a. (e, a) \<in> set (answers (drivers s i)) \<longleftrightarrow> a = Opened st))
    \<and> (\<forall>i. clients s e = Asked i \<longrightarrow>
         (\<exists>a. (e, a) \<in> set (answers (drivers s i)))
         \<or> (e \<in> set (waiting (drivers s i)) \<union> set (requests (drivers s i)) \<and> \<not> halted (drivers s i)
             \<and> phase (ctl s) i = Linked))"
proof (intro conjI allI impI)
  note inv = sreach_inv [OF assms]
  fix i
  show "hp i" if "handle_of (clients s e) = Some i" using inv that unfolding links_ok_def by blast
  show "(e, a) \<in> set (answers (drivers s i)) \<longleftrightarrow> a = Opened st" if c: "clients s e = Relayed i st" for st a
  proof
    have o: "(e, Opened st) \<in> set (answers (drivers s i))" using inv c unfolding requests_ok_def by blast
    then show "a = Opened st \<Longrightarrow> (e, a) \<in> set (answers (drivers s i))" by simp
    have "distinct (map fst (answers (drivers s i)))"
      using inv unfolding requests_ok_def seen_def by (metis distinct_append)
    from eq_key_imp_eq_value [OF this _ o] show "(e, a) \<in> set (answers (drivers s i)) \<Longrightarrow> a = Opened st" by blast
  qed
  assume c: "clients s e = Asked i"
  then have m: "e \<in> set (seen (drivers s i))" and d: "drained (drivers s i)"
    using inv unfolding requests_ok_def by blast+
  show "(\<exists>a. (e, a) \<in> set (answers (drivers s i)))
      \<or> (e \<in> set (waiting (drivers s i)) \<union> set (requests (drivers s i)) \<and> \<not> halted (drivers s i) \<and> phase (ctl s) i = Linked)"
  proof (cases "\<exists>a. (e, a) \<in> set (answers (drivers s i))")
    case False
    with m have w: "e \<in> set (waiting (drivers s i)) \<union> set (requests (drivers s i))"
      by (force simp: seen_def)
    with d have h: "\<not> halted (drivers s i)" unfolding drained_def by auto
    have "handle_of (clients s e) = Some i" using c by simp
    with inv h have "phase (ctl s) i = Linked" unfolding links_ok_def was_linked_def by blast
    with w h show ?thesis by blast
  qed blast
qed

lemma passes_seen: "drained m \<Longrightarrow> seen (fold driver_pass cs m) = seen m \<and> drained (fold driver_pass cs m)"
proof (induction cs arbitrary: m)
  case (Cons c cs)
  from mux_step_seen [OF Cons.prems, of "Pass c"] Cons.IH show ?case by (simp add: asked_def)
qed simp

lemma halted_passes: "halted m \<Longrightarrow> fold driver_pass cs m = m"
  by (induction cs) (simp_all add: driver_pass_def)

text \<open>
  C25: A client that has asked for a stream gets its answer. In every state the tasks of a
  single-tenant \<open>serve\<close> reach, whatever else waits before it and however the link fares: after as
  many passes of the link's driver as its queue needs, each able to open a stream, the client's
  request has been answered; at once if the driver has stopped.
\<close>

theorem asked_client_answered:
  assumes "sreach hp s" and "clients s e = Asked i" and "\<And>c. c \<in> set cs \<Longrightarrow> new_outbound c \<noteq> None"
    and "length (waiting (drivers s i)) + 2 * length (requests (drivers s i)) \<le> length cs"
  shows "\<exists>a. (e, a) \<in> set (answers (fold driver_pass cs (drivers s i)))"
proof -
  let ?m = "drivers s i"
  have m: "e \<in> set (seen ?m)" and d: "drained ?m"
    using sreach_inv [OF assms(1)] assms(2) unfolding requests_ok_def by blast+
  have "waiting (fold driver_pass cs ?m) = [] \<and> requests (fold driver_pass cs ?m) = []"
  proof (cases "halted ?m")
    case True
    with d show ?thesis by (simp add: halted_passes drained_def)
  next
    case False
    have "work (fold driver_pass cs ?m) = 0"
      by (rule passes_finish) (use assms(3,4) False in \<open>auto simp: work_def\<close>)
    then show ?thesis by (simp add: work_def)
  qed
  moreover have "e \<in> set (seen (fold driver_pass cs ?m))" using passes_seen [OF d] m by simp
  ultimately show ?thesis by (force simp: seen_def)
qed

section \<open>A run\<close>

text \<open>One link, and a client that has asked it for a stream.\<close>

lemma one_client:
  "\<exists>s. sreach (\<lambda>_. True) s \<and> clients s 7 = Asked 0 \<and> drivers s 0 = mux_start\<lparr>requests := [7]\<rparr>"
proof -
  let ?hp = "\<lambda>_::nat. True"
  define s1 where "s1 = serve_start\<lparr>ctl := begin_control 0 (ctl serve_start)\<rparr>"
  define s2 where "s2 = s1\<lparr>ctl := finish_handshake 0 True (ctl s1)\<rparr>"
  define s3 where "s3 = set_client 7 Waiting s2"
  define s4 where "s4 = set_client 7 (Holding 0) s3"
  define s5 where "s5 = set_client 7 (Asked 0) (drive 0 (Ask 7) s4)"
  note d = s1_def s2_def s3_def s4_def s5_def serve_start_def control_start_def control_defs set_client_def drive_def
  have 1: "sstep ?hp serve_start s1" unfolding s1_def by (rule look) (simp add: d)
  have 2: "sstep ?hp s1 s2" unfolding s2_def by (rule shake) (simp_all add: s1_def serve_start_def control_start_def control_defs)
  have 3: "sstep ?hp s2 s3" unfolding s3_def by (rule arrives) (simp add: s2_def s1_def serve_start_def)
  have 4: "sstep ?hp s3 s4" unfolding s4_def
    by (rule takes) (simp_all add: s3_def s2_def s1_def finish_handshake_def)
  have 5: "sstep ?hp s4 s5" unfolding s5_def by (rule asks) (simp add: s4_def)
  have "sreach ?hp s5"
    by (rule sreach_first [OF 1], rule sreach_first [OF 2], rule sreach_first [OF 3],
        rule sreach_first [OF 4], rule sreach_first [OF 5]) simp
  moreover have "clients s5 7 = Asked 0" by (simp add: s5_def)
  moreover have "drivers s5 0 = mux_start\<lparr>requests := [7]\<rparr>"
    by (simp add: s5_def s4_def s3_def s2_def s1_def serve_start_def open_stream_def mux_start_def)
  ultimately show ?thesis by blast
qed

theorem client_served_or_fails_witness:
  "\<exists>s :: serve_state. clients s 7 = Asked 0 \<and> 7 \<in> set (waiting (drivers s 0)) \<union> set (requests (drivers s 0))"
proof -
  obtain s where s: "sreach (\<lambda>_. True) s" "clients s 7 = Asked 0" "drivers s 0 = mux_start\<lparr>requests := [7]\<rparr>"
    using one_client by blast
  with client_served_or_fails [OF s(1), of 7] show ?thesis by (auto simp: mux_start_def)
qed

theorem asked_client_answered_witness:
  "\<exists>(s :: serve_state) a. clients s 7 = Asked 0
     \<and> (7, a) \<in> set (answers (fold driver_pass (replicate 2 \<lparr>new_outbound = Some (Opened 3), next_inbound = InPending\<rparr>) (drivers s 0)))"
proof -
  obtain s where s: "sreach (\<lambda>_. True) s" "clients s 7 = Asked 0" "drivers s 0 = mux_start\<lparr>requests := [7]\<rparr>"
    using one_client by blast
  have "\<exists>a. (7, a) \<in> set (answers (fold driver_pass (replicate 2 \<lparr>new_outbound = Some (Opened 3), next_inbound = InPending\<rparr>) (drivers s 0)))"
    by (rule asked_client_answered [OF s(1,2)]) (auto simp: s(3) mux_start_def)
  with s(2) show ?thesis by blast
qed

end
