(* ===== verification/Tenant_System.thy ===== *)
theory Tenant_System
  imports Hub_System Serve_System
begin

text \<open>
  A multi-tenant \<open>serve\<close> with the multiplexer drivers of its sessions
  (\<open>reverse/tenant_serve.rs\<close>, \<open>reverse/serve.rs\<close>, \<open>mux.rs\<close>): the tasks of \<open>Hub_System\<close>, one driver
  for each session, and the TLS connections that relay, which ask the driver behind their handle for
  a stream, as the external clients of \<open>Serve_System\<close> do. A session's token cancels its driver.
\<close>

section \<open>State and steps\<close>

record tenant_state =
  core :: system
  links :: "nat \<Rightarrow> mux_state"
  users :: "nat \<Rightarrow> ext_client"

definition tenant_start :: "tenant_set \<Rightarrow> tenant_state" where
  "tenant_start initial = \<lparr>core = system_start initial, links = (\<lambda>_. mux_start), users = (\<lambda>_. Absent)\<rparr>"

text \<open>A connection that starts to relay holds its session's handle, and drops it when it ends.\<close>

definition follow :: "task \<Rightarrow> task \<Rightarrow> ext_client \<Rightarrow> ext_client" where
  "follow old new u = (if new = old then u else case new of Relaying t c sem \<Rightarrow> Holding c | Done \<Rightarrow> Gone | _ \<Rightarrow> u)"

definition step_link :: "nat \<Rightarrow> mux_event \<Rightarrow> tenant_state \<Rightarrow> tenant_state" where
  "step_link i e s = s\<lparr>links := (links s)(i := mux_step e (links s i))\<rparr>"

text \<open>\<open>run_session\<close> goes on to its end when \<open>inbound_rx\<close> closes, which is when the driver has stopped.\<close>

inductive tenant_step :: "tenant_state \<Rightarrow> tenant_state \<Rightarrow> bool" where
  moves: "hstep (core s) k \<Longrightarrow>
    (\<And>i t n. tasks (core s) i = Running t n \<Longrightarrow> tasks k i = Done \<Longrightarrow> halted (links s i)) \<Longrightarrow>
    tenant_step s (s\<lparr>core := k, users := (\<lambda>j. follow (tasks (core s) j) (tasks k j) (users s j))\<rparr>)"
| drives: "acts_for (tasks (core s) i) \<noteq> None \<Longrightarrow> tenant_step s (step_link i (Pass c) s)"
| stops: "session_of (tasks (core s) i) \<noteq> None \<Longrightarrow> i \<in> cancelled (hub_of (core s)) \<Longrightarrow>
    tenant_step s (step_link i Cancelled s)"
| requests_one: "users s j = Holding c \<Longrightarrow>
    tenant_step s ((step_link c (Ask j) s)\<lparr>users := (users s)(j := Asked c)\<rparr>)"
| gets_answer: "users s j = Asked c \<Longrightarrow> (j, a) \<in> set (answers (links s c)) \<Longrightarrow>
    tenant_step s (s\<lparr>users := (users s)(j := take_answer c a)\<rparr>)"

inductive_cases tenant_stepE: "tenant_step s s'"

abbreviation tenant_reach :: "tenant_set \<Rightarrow> tenant_state \<Rightarrow> bool" where
  "tenant_reach initial \<equiv> tenant_step\<^sup>*\<^sup>* (tenant_start initial)"

section \<open>The parts keep their promises\<close>

lemma core_link [simp]: "core (step_link i e s) = core s" "users (step_link i e s) = users s"
  "links (step_link i e s) = (links s)(i := mux_step e (links s i))"
  by (simp_all add: step_link_def)

lemma tenant_core_step: "tenant_step s s' \<Longrightarrow> hstep (core s) (core s') \<or> core s' = core s"
  by (erule tenant_stepE) auto

lemma tenant_core: "tenant_reach initial s \<Longrightarrow> hreach initial (core s)"
proof (induction rule: rtranclp_induct)
  case base
  show ?case by (simp add: tenant_start_def)
next
  case (step y z)
  from tenant_core_step [OF step.hyps(2)] step.IH show ?case by (auto intro: rtranclp.rtrancl_into_rtrancl)
qed

text \<open>The requests are those of \<open>Serve_System\<close>, whatever the control slot there is.\<close>

definition requests_view :: "control_state \<Rightarrow> tenant_state \<Rightarrow> serve_state" where
  "requests_view ct s = \<lparr>ctl = ct, drivers = links s, clients = users s\<rparr>"

lemma view_simps [simp]: "drivers (requests_view ct s) = links s" "clients (requests_view ct s) = users s"
  by (simp_all add: requests_view_def)

definition any_control :: control_state where
  "any_control = \<lparr>current = None, phase = (\<lambda>_. conn_phase.Linked)\<rparr>"

text \<open>A relaying connection is the only kind that holds a handle, the one of its session.\<close>

definition users_ok :: "tenant_state \<Rightarrow> bool" where
  "users_ok s \<longleftrightarrow> (\<forall>j c. handle_of (users s j) = Some c \<longrightarrow> (\<exists>t sem. tasks (core s) j = Relaying t c sem))
     \<and> (\<forall>j. users s j \<noteq> Absent \<longrightarrow> tasks (core s) j = Done \<or> (\<exists>t c sem. tasks (core s) j = Relaying t c sem))"

lemma hstep_relays:
  assumes "hstep s k" and "tasks s j = Done \<or> (\<exists>t c sem. tasks s j = Relaying t c sem)" and "tasks k j \<noteq> tasks s j"
  shows "tasks k j = Done"
  using assms by (auto elim!: hstepE simp: set_task_def split: if_splits)


lemma users_ok_step [invariants]:
  assumes "tenant_step s s'" and "users_ok s"
  shows "users_ok s'"
proof -
  have h: "\<exists>t sem. tasks (core s) j = Relaying t c sem" if "handle_of (users s j) = Some c" for j c
    using assms(2) that unfolding users_ok_def by blast
  have u: "tasks (core s) j = Done \<or> (\<exists>t c sem. tasks (core s) j = Relaying t c sem)" if "users s j \<noteq> Absent" for j
    using assms(2) that unfolding users_ok_def by blast
  from assms(1) show ?thesis
  proof cases
    case (moves k)
    have "(handle_of (follow (tasks (core s) j) (tasks k j) (users s j)) = Some c \<longrightarrow> (\<exists>t sem. tasks k j = Relaying t c sem))
        \<and> (follow (tasks (core s) j) (tasks k j) (users s j) \<noteq> Absent \<longrightarrow>
             tasks k j = Done \<or> (\<exists>t c sem. tasks k j = Relaying t c sem))" for j c
    proof (cases "tasks k j = tasks (core s) j")
      case True
      with h [of j c] u [of j] show ?thesis by (simp add: follow_def)
    next
      case False
      then have "users s j \<noteq> Absent \<Longrightarrow> tasks k j = Done" using hstep_relays [OF moves(2) u [of j]] by blast
      with False show ?thesis by (cases "tasks k j"; cases "users s j") (auto simp: follow_def)
    qed
    with moves(1) show ?thesis by (simp add: users_ok_def)
  next
    case (requests_one j c)
    with h u show ?thesis by (auto simp: users_ok_def)
  next
    case (gets_answer j c a)
    with h u show ?thesis by (auto simp: users_ok_def dest!: handle_of_answer)
  qed (use h u in \<open>auto simp: users_ok_def\<close>)
qed

lemma view_updates:
  "requests_view ct (step_link i e s) = drive i e (requests_view ct s)"
  "requests_view ct (s\<lparr>users := (users s)(j := k)\<rparr>) = set_client j k (requests_view ct s)"
  "requests_view ct ((step_link i e s)\<lparr>users := (users s)(j := k)\<rparr>) = set_client j k (drive i e (requests_view ct s))"
  by (simp_all add: requests_view_def drive_def set_client_def step_link_def)

lemma requests_follow:
  assumes "requests_ok (requests_view ct s)" and "users_ok s" and "hstep (core s) k"
  shows "requests_ok (requests_view ct (s\<lparr>core := k, users := (\<lambda>j. follow (tasks (core s) j) (tasks k j) (users s j))\<rparr>))"
proof -
  let ?u = "\<lambda>j. follow (tasks (core s) j) (tasks k j) (users s j)"
  have u: "?u j = users s j \<or> ?u j = Gone \<or> (users s j = Absent \<and> (\<exists>c. ?u j = Holding c))" for j
  proof (cases "users s j = Absent \<or> tasks k j = tasks (core s) j")
    case True
    then show ?thesis by (cases "tasks k j") (auto simp: follow_def)
  next
    case False
    then have "tasks k j = Done"
      using hstep_relays [OF assms(3), of j] assms(2) unfolding users_ok_def by blast
    with False show ?thesis by (simp add: follow_def)
  qed
  have seen: "users s j = Asked i \<or> (\<exists>st. users s j = Relayed i st) \<or> users s j = Gone" if "j \<in> set (seen (links s i))" for i j
    using assms(1) that unfolding requests_ok_def by simp
  have "?u j = Asked i \<or> (\<exists>st. ?u j = Relayed i st) \<or> ?u j = Gone" if "j \<in> set (seen (links s i))" for i j
    using u [of j] seen [OF that] by auto
  moreover have "users s j = Asked i" if "?u j = Asked i" for i j using u [of j] that by auto
  moreover have "users s j = Relayed i st" if "?u j = Relayed i st" for i j st using u [of j] that by auto
  ultimately show ?thesis using assms(1) unfolding requests_ok_def by (simp add: requests_view_def)
qed

lemma requests_step:
  assumes "tenant_step s s'" and "users_ok s" and "requests_ok (requests_view any_control s)"
  shows "requests_ok (requests_view any_control s')"
  using assms(1)
proof cases
  case (moves k)
  then show ?thesis using requests_follow [OF assms(3,2)] by simp
next
  case (drives i c)
  have "sstep (\<lambda>_. True) (requests_view any_control s) (drive i (Pass c) (requests_view any_control s))"
    by (rule driver) (simp_all add: requests_view_def any_control_def)
  from requests_ok_step [OF this assms(3)] show ?thesis by (simp add: drives(1) view_updates)
next
  case (stops i)
  have "sstep (\<lambda>_. True) (requests_view any_control s) (drive i Cancelled (requests_view any_control s))"
    by (rule driver) (simp_all add: requests_view_def any_control_def)
  from requests_ok_step [OF this assms(3)] show ?thesis by (simp add: stops(1) view_updates)
next
  case (requests_one j c)
  have "sstep (\<lambda>_. True) (requests_view any_control s) (set_client j (Asked c) (drive c (Ask j) (requests_view any_control s)))"
    by (rule asks) (simp add: requests_one(2))
  from requests_ok_step [OF this assms(3)] show ?thesis by (simp add: requests_one(1) view_updates)
next
  case (gets_answer j c a)
  have "sstep (\<lambda>_. True) (requests_view any_control s) (set_client j (take_answer c a) (requests_view any_control s))"
    by (rule answered) (simp_all add: gets_answer(2,3))
  from requests_ok_step [OF this assms(3)] show ?thesis by (simp add: gets_answer(1) view_updates)
qed

lemma tenant_inv: "tenant_reach initial s \<Longrightarrow> users_ok s \<and> requests_ok (requests_view any_control s)"
proof (induction rule: rtranclp_induct)
  case base
  show ?case by (simp add: tenant_start_def users_ok_def requests_ok_def requests_view_def seen_def drained_def mux_start_def)
qed (use users_ok_step requests_step in blast)

text \<open>A driver that has stopped opens no more streams.\<close>

lemma stopped_opens_none:
  assumes "halted m" and "(j, Opened st) \<in> set (answers (mux_step e m))"
  shows "(j, Opened st) \<in> set (answers m)"
  using assms by (cases e) (auto simp: open_stream_def driver_pass_def)

lemma cancel_opens_none: "(j, Opened st) \<in> set (answers (mux_step Cancelled m)) \<Longrightarrow> (j, Opened st) \<in> set (answers m)"
  by (auto simp: driver_stop_def split: if_splits)

lemma link_changes: "tenant_step y z \<Longrightarrow> links z i = links y i \<or> (\<exists>e. links z i = mux_step e (links y i))"
  by (erule tenant_stepE) (simp_all del: mux_step.simps, blast+)

lemma stopped_link_steps:
  assumes "tenant_step\<^sup>*\<^sup>* s s'" and "halted (links s i)"
  shows "halted (links s' i) \<and> (\<forall>j st. (j, Opened st) \<in> set (answers (links s' i)) \<longrightarrow> (j, Opened st) \<in> set (answers (links s i)))"
  using assms(1)
proof (induction rule: rtranclp_induct)
  case base
  show ?case using assms(2) by blast
next
  case (step y z)
  from step.hyps(2) have "links z i = links y i \<or> (\<exists>e. links z i = mux_step e (links y i))"
    by (rule link_changes)
  with step.IH show ?case using halted_stays stopped_opens_none by metis
qed

section \<open>Properties\<close>



text \<open>A run of the hub's tasks that ended none is a run of the whole server.\<close>

lemma hub_run_lifts:
  assumes "hstep\<^sup>*\<^sup>* k k'" and "\<forall>j. tasks k' j \<noteq> Done" and "core s = k"
  shows "\<exists>s'. tenant_step\<^sup>*\<^sup>* s s' \<and> core s' = k'"
  using assms(1,2)
proof (induction rule: rtranclp_induct)
  case base
  show ?case using assms(3) by blast
next
  case (step y z)
  have "tasks y j \<noteq> Done" for j using hstep_relays [OF step.hyps(2), of j] step.prems by metis
  with step.IH obtain s' where s': "tenant_step\<^sup>*\<^sup>* s s'" "core s' = y" by blast
  have "tenant_step s' (s'\<lparr>core := z, users := (\<lambda>j. follow (tasks (core s') j) (tasks z j) (users s' j))\<rparr>)"
    using step.hyps(2) step.prems by (intro moves) (simp_all add: s'(2))
  with s'(1) show ?case by (intro exI conjI) (erule rtranclp.rtrancl_into_rtrancl, assumption, simp)
qed

lemma revoked_run:
  "\<exists>s :: tenant_state. tenant_reach set_old s \<and> started (core s) = 1 \<and> (\<forall>a next. appliers (core s) a \<noteq> Sweeping next)
     \<and> (\<forall>j. evicting (tasks (core s) j) = None) \<and> tasks (core s) 1 = Running new_a 1
     \<and> \<not> still_allowed (published (hub_of (core s))) (tname new_a) (tpsk new_a)"
proof -
  let ?h = "publish empty_set (hub_of rotated_state)"
  let ?k1 = "rotated_state\<lparr>hub_of := ?h, appliers := (appliers rotated_state)(0 := Sweeping empty_set)\<rparr>"
  let ?k = "?k1\<lparr>hub_of := sweep empty_set ?h, appliers := (appliers ?k1)(0 := Pruning empty_set)\<rparr>"
  have "hstep rotated_state ?k1" by (rule publishes [OF _ empty_set_wf]) (simp add: rotated_state_def)
  moreover have "hstep ?k1 ?k" using sweeps [of ?k1 0 empty_set] by simp
  ultimately have reach: "hstep\<^sup>*\<^sup>* (core (tenant_start set_old)) ?k"
    using rotated_reach by (auto simp: tenant_start_def intro: rtranclp.rtrancl_into_rtrancl)
  have "\<forall>j. tasks ?k j \<noteq> Done" by (simp add: rotated_state_def)
  then obtain s where "tenant_reach set_old s" "core s = ?k" using hub_run_lifts [OF reach _ refl] by blast
  then show ?thesis
    by (intro exI [of _ s])
      (auto simp: rotated_state_def publish_def sweep_def still_allowed_def find_tenant_def empty_set_def split: if_splits)
qed


end
