(* ===== verification/Store_Watch.thy ===== *)
theory Store_Watch
  imports Hub_System
begin

text \<open>
  A multi-tenant \<open>serve\<close> and the store it watches (\<open>reverse/tenant_serve.rs\<close>: \<open>reload_loop\<close>, the
  snapshots that \<open>run_enrollment\<close> applies). The store changes under the server at any time; the reload
  loop and each enrollment read it, and apply what they read some time later. Everything else the
  server does is \<open>Hub_System\<close>. Reader 0 is the reload loop, the others are enrollments.
\<close>

section \<open>Readers of the store\<close>

datatype reader_point = Resting | Holding tenant_set | Chosen tenant_set | Finishing

record watch_state =
  store :: tenant_set
  server :: system
  readers :: "nat \<Rightarrow> reader_point"
  ticks :: nat

definition watch_start :: "tenant_set \<Rightarrow> watch_state" where
  "watch_start initial = \<lparr>store = initial, server = system_start initial, readers = (\<lambda>_. Resting), ticks = 0\<rparr>"

definition set_reader :: "nat \<Rightarrow> reader_point \<Rightarrow> watch_state \<Rightarrow> watch_state" where
  "set_reader i p w = w\<lparr>readers := (readers w)(i := p)\<rparr>"

text \<open>The end of a round of the reload loop in which the store was read.\<close>

definition round_done :: "nat \<Rightarrow> watch_state \<Rightarrow> watch_state" where
  "round_done i w = (set_reader i Resting w)\<lparr>ticks := (if i = 0 then ticks w + 1 else ticks w)\<rparr>"

text \<open>\<open>apply\<close> by a reader: it publishes here, and sweeps and prunes as an applier of \<open>Hub_System\<close>.\<close>

definition start_apply :: "nat \<Rightarrow> tenant_set \<Rightarrow> system \<Rightarrow> system" where
  "start_apply i next s = s\<lparr>hub_of := publish next (hub_of s), appliers := (appliers s)(i := Sweeping next)\<rparr>"

text \<open>A read that fails leaves everything as it was (\<open>reload_tick\<close> in \<open>Hub\<close> has its log line).\<close>

inductive wstep :: "watch_state \<Rightarrow> watch_state \<Rightarrow> bool" where
  stored: "wf_set next \<Longrightarrow> wstep w (w\<lparr>store := next\<rparr>)"
| reads_store: "readers w i = Resting \<Longrightarrow> wstep w (set_reader i (Holding (store w)) w)"
| unchanged: "readers w 0 = Holding next \<Longrightarrow> published (hub_of (server w)) = next \<Longrightarrow> wstep w (round_done 0 w)"
| changed: "readers w 0 = Holding next \<Longrightarrow> published (hub_of (server w)) \<noteq> next \<Longrightarrow>
    wstep w (set_reader 0 (Chosen next) w)"
| enrolled: "readers w i = Holding next \<Longrightarrow> i \<noteq> 0 \<Longrightarrow> wstep w (set_reader i (Chosen next) w)"
| applies: "readers w i = Chosen next \<Longrightarrow> appliers (server w) i = Ready_To_Apply \<Longrightarrow>
    wstep w ((set_reader i Finishing w)\<lparr>server := start_apply i next (server w)\<rparr>)"
| applied: "readers w i = Finishing \<Longrightarrow> appliers (server w) i = Ready_To_Apply \<Longrightarrow> wstep w (round_done i w)"
| serves: "hstep (server w) s \<Longrightarrow> published (hub_of s) = published (hub_of (server w)) \<Longrightarrow>
    \<forall>a. appliers (server w) a = Ready_To_Apply \<longrightarrow> appliers s a = Ready_To_Apply \<Longrightarrow>
    wstep w (w\<lparr>server := s\<rparr>)"

abbreviation wreach :: "tenant_set \<Rightarrow> watch_state \<Rightarrow> bool" where
  "wreach initial \<equiv> wstep\<^sup>*\<^sup>* (watch_start initial)"

text \<open>The steps while nobody writes to the store.\<close>

definition calm_step :: "watch_state \<Rightarrow> watch_state \<Rightarrow> bool" where
  "calm_step w w' \<longleftrightarrow> wstep w w' \<and> store w' = store w"

inductive_cases wstepE: "wstep w w'"

lemma watch_simps [simp]:
  "store (set_reader i p w) = store w" "server (set_reader i p w) = server w" "ticks (set_reader i p w) = ticks w"
  "readers (set_reader i p w) = (readers w)(i := p)"
  "store (round_done i w) = store w" "server (round_done i w) = server w"
  "readers (round_done i w) = (readers w)(i := Resting)"
  "ticks (round_done i w) = (if i = 0 then ticks w + 1 else ticks w)"
  by (simp_all add: set_reader_def round_done_def)

lemma start_apply_published [simp]: "published (hub_of (start_apply i next s)) = next"
  by (simp add: start_apply_def publish_def)

section \<open>The server under its store\<close>

definition sets_ok :: "watch_state \<Rightarrow> bool" where
  "sets_ok w \<longleftrightarrow> wf_set (store w) \<and> (\<forall>i next. readers w i \<in> {Holding next, Chosen next} \<longrightarrow> wf_set next)"

lemma sets_ok_step: "wstep w w' \<Longrightarrow> sets_ok w \<Longrightarrow> sets_ok w'"
  by (induction rule: wstep.induct) (auto simp: sets_ok_def split: if_splits)

lemma wstep_server: "wstep w w' \<Longrightarrow> sets_ok w \<Longrightarrow> hstep\<^sup>*\<^sup>* (server w) (server w')"
proof (induction rule: wstep.induct)
  case (applies w i q)
  then have "wf_set q" by (auto simp: sets_ok_def)
  from publishes [OF applies(2) this] show ?case by (auto simp: start_apply_def)
qed auto

lemma wreach_ok: "wreach initial w \<Longrightarrow> wf_set initial \<Longrightarrow> sets_ok w \<and> hreach initial (server w)"
proof (induction rule: rtranclp_induct)
  case base
  then show ?case by (simp add: sets_ok_def watch_start_def)
next
  case (step w w')
  then show ?case using sets_ok_step [OF step(2)] wstep_server [OF step(2)] by (auto intro: rtranclp_trans)
qed

section \<open>Following the store\<close>

text \<open>An enrollment that holds a snapshot older than the store.\<close>

definition outdated :: "watch_state \<Rightarrow> nat \<Rightarrow> bool" where
  "outdated w i \<longleftrightarrow> (\<exists>next. readers w i \<in> {Holding next, Chosen next} \<and> next \<noteq> store w)"

definition up_to_date :: "watch_state \<Rightarrow> bool" where
  "up_to_date w \<longleftrightarrow> (\<forall>i. \<not> outdated w i) \<and> published (hub_of (server w)) = store w"

definition one_round :: "watch_state \<Rightarrow> bool" where
  "one_round w \<longleftrightarrow> (\<forall>i. \<not> outdated w i) \<and> (readers w 0 = Finishing \<longrightarrow> published (hub_of (server w)) = store w)"

lemma calm_step_fresh:
  assumes "calm_step w w'" and "\<not> outdated w i"
  shows "\<not> outdated w' i"
proof -
  have "wstep w w'" "store w' = store w" using assms(1) by (simp_all add: calm_step_def)
  then show ?thesis using assms(2) by cases (auto simp: outdated_def split: if_splits)
qed

lemma calm_step_up_to_date:
  assumes "calm_step w w'" and "up_to_date w"
  shows "up_to_date w'"
proof -
  have "wstep w w'" "store w' = store w" using assms(1) by (simp_all add: calm_step_def)
  then have "published (hub_of (server w')) = store w'"
    using assms(2) by cases (auto simp: up_to_date_def outdated_def)
  then show ?thesis using assms calm_step_fresh by (simp add: up_to_date_def)
qed

text \<open>What one round of the loop leaves, and a second one.\<close>

definition followed :: "nat \<Rightarrow> watch_state \<Rightarrow> bool" where
  "followed n w \<longleftrightarrow> (\<forall>i. i \<noteq> 0 \<longrightarrow> \<not> outdated w i)
     \<and> (ticks w = n \<or> ticks w = n + 1 \<and> one_round w \<or> n + 2 \<le> ticks w \<and> up_to_date w)"

lemma followed_step:
  assumes "calm_step w w'" and "followed n w"
  shows "followed n w'"
proof -
  have st: "wstep w w'" "store w' = store w" using assms(1) by (simp_all add: calm_step_def)
  have fresh: "\<forall>i. i \<noteq> 0 \<longrightarrow> \<not> outdated w' i"
    using assms calm_step_fresh by (simp add: followed_def)
  from assms(2) consider "ticks w = n" | "ticks w = n + 1" "one_round w" | "n + 2 \<le> ticks w" "up_to_date w"
    by (auto simp: followed_def)
  then show ?thesis
  proof cases
    case 1
    from st show ?thesis
    proof cases
      case (unchanged q)
      then have "one_round w'" using fresh by (auto simp: one_round_def outdated_def split: if_splits)
      with unchanged 1 fresh show ?thesis by (simp add: followed_def)
    next
      case (applied i)
      then have "i = 0 \<Longrightarrow> one_round w'" using fresh by (auto simp: one_round_def outdated_def split: if_splits)
      with applied 1 fresh show ?thesis by (auto simp: followed_def)
    qed (use 1 fresh in \<open>auto simp: followed_def\<close>)
  next
    case 2
    have all: "\<forall>i. \<not> outdated w' i" using 2(2) assms(1) calm_step_fresh by (simp add: one_round_def)
    from st show ?thesis
    proof cases
      case (unchanged q)
      then have "up_to_date w'" using all 2 by (auto simp: up_to_date_def one_round_def outdated_def)
      with unchanged 2 fresh show ?thesis by (simp add: followed_def)
    next
      case (applied i)
      then have "i = 0 \<Longrightarrow> up_to_date w'" "i \<noteq> 0 \<Longrightarrow> one_round w'"
        using all 2 by (auto simp: up_to_date_def one_round_def)
      with applied 2 fresh show ?thesis by (cases "i = 0") (simp_all add: followed_def)
    next
      case (applies i q)
      then have "q = store w" using 2(2) by (auto simp: one_round_def outdated_def)
      with applies all have "one_round w'" by (simp add: one_round_def)
      with applies 2 fresh show ?thesis by (simp add: followed_def)
    next
      case (serves s)
      then have "one_round w'" using all 2 by (simp add: one_round_def)
      with serves 2 fresh show ?thesis by (simp add: followed_def)
    qed (use 2 fresh all in \<open>auto simp: followed_def one_round_def\<close>)
  next
    case 3
    have "ticks w \<le> ticks w'" using st(1) by cases auto
    then show ?thesis using 3 fresh calm_step_up_to_date [OF assms(1)] by (simp add: followed_def)
  qed
qed

lemma calm_store: "calm_step\<^sup>*\<^sup>* w w' \<Longrightarrow> store w' = store w"
  by (induction rule: rtranclp_induct) (simp_all add: calm_step_def)

lemma followed_steps:
  assumes "calm_step\<^sup>*\<^sup>* w w'" and "\<forall>i. i \<noteq> 0 \<longrightarrow> \<not> outdated w i" and "ticks w + 2 \<le> ticks w'"
  shows "up_to_date w'"
proof -
  have "followed (ticks w) w'"
    using assms(1)
  proof (induction rule: rtranclp_induct)
    case base
    show ?case using assms(2) by (simp add: followed_def)
  qed (rule followed_step)
  with assms(3) show ?thesis by (simp add: followed_def)
qed

lemma quiet_reach: "wreach initial w \<Longrightarrow> calm_step\<^sup>*\<^sup>* w w' \<Longrightarrow> wreach initial w'"
  by (rotate_tac, induction rule: rtranclp_induct) (auto simp: calm_step_def intro: rtranclp.rtrancl_into_rtrancl)


section \<open>The loop can always finish a round\<close>

definition appliers_ok :: "watch_state \<Rightarrow> bool" where
  "appliers_ok w \<longleftrightarrow> (\<forall>i. appliers (server w) i \<noteq> Ready_To_Apply \<longrightarrow> readers w i = Finishing)"

lemma appliers_ok_step: "wstep w w' \<Longrightarrow> appliers_ok w \<Longrightarrow> appliers_ok w'"
  by (induction rule: wstep.induct) (auto simp: appliers_ok_def start_apply_def)

lemma appliers_ok_reach: "wreach initial w \<Longrightarrow> appliers_ok w"
  by (induction rule: rtranclp_induct)
    (simp add: appliers_ok_def watch_start_def system_start_def, blast intro: appliers_ok_step)

text \<open>An \<open>apply\<close> that has published runs to its end.\<close>

lemma apply_finishes:
  assumes "readers w i = Finishing"
  shows "\<exists>w'. calm_step\<^sup>*\<^sup>* w w' \<and> ticks w' = ticks w \<and> readers w' = readers w \<and> appliers (server w') i = Ready_To_Apply
    \<and> published (hub_of (server w')) = published (hub_of (server w))"
proof -
  have prune: "\<exists>w'. calm_step\<^sup>*\<^sup>* v w' \<and> ticks w' = ticks v \<and> readers w' = readers v \<and> appliers (server w') i = Ready_To_Apply
    \<and> published (hub_of (server w')) = published (hub_of (server v))"
    if "appliers (server v) i = Pruning q" for v q
  proof -
    let ?s = "(server v)\<lparr>hub_of := prune_budgets q (hub_of (server v)), appliers := (appliers (server v))(i := Ready_To_Apply)\<rparr>"
    have "wstep v (v\<lparr>server := ?s\<rparr>)"
      by (rule serves) (use prunes [OF that] in \<open>simp_all add: prune_budgets_def\<close>)
    then have "calm_step v (v\<lparr>server := ?s\<rparr>)" by (simp add: calm_step_def)
    then show ?thesis by (intro exI [of _ "v\<lparr>server := ?s\<rparr>"]) (simp add: prune_budgets_def)
  qed
  show ?thesis
  proof (cases "appliers (server w) i")
    case Ready_To_Apply
    then show ?thesis by blast
  next
    case (Pruning q)
    then show ?thesis using prune by blast
  next
    case (Sweeping q)
    let ?s = "(server w)\<lparr>hub_of := sweep q (hub_of (server w)), appliers := (appliers (server w))(i := Pruning q)\<rparr>"
    have "wstep w (w\<lparr>server := ?s\<rparr>)"
      by (rule serves) (use sweeps [OF Sweeping] Sweeping in \<open>simp_all add: sweep_def\<close>)
    then have st: "calm_step w (w\<lparr>server := ?s\<rparr>)" by (simp add: calm_step_def)
    from prune [of "w\<lparr>server := ?s\<rparr>" q] obtain w' where
      "calm_step\<^sup>*\<^sup>* (w\<lparr>server := ?s\<rparr>) w'" "ticks w' = ticks w" "readers w' = readers w" "appliers (server w') i = Ready_To_Apply"
      "published (hub_of (server w')) = published (hub_of (server w))"
      by (auto simp: sweep_def)
    with st show ?thesis by (blast intro: converse_rtranclp_into_rtranclp)
  qed
qed

lemma round_possible:
  assumes "appliers_ok w"
  shows "\<exists>w'. calm_step\<^sup>*\<^sup>* w w' \<and> ticks w' = ticks w + 1"
proof -
  have finishing: "\<exists>w'. calm_step\<^sup>*\<^sup>* v w' \<and> ticks w' = ticks v + 1" if f: "readers v 0 = Finishing" for v
  proof -
    obtain u where u: "calm_step\<^sup>*\<^sup>* v u" "ticks u = ticks v" "readers u = readers v" "appliers (server u) 0 = Ready_To_Apply"
      using apply_finishes [OF f] by blast
    have "calm_step u (round_done 0 u)" using applied [of u 0] u f by (simp add: calm_step_def)
    with u show ?thesis by (intro exI [of _ "round_done 0 u"]) auto
  qed
  have chosen: "\<exists>w'. calm_step\<^sup>*\<^sup>* v w' \<and> ticks w' = ticks v + 1" if c: "readers v 0 = Chosen q" "appliers_ok v" for v q
  proof -
    let ?u = "(set_reader 0 Finishing v)\<lparr>server := start_apply 0 q (server v)\<rparr>"
    have "appliers (server v) 0 = Ready_To_Apply" using c by (auto simp: appliers_ok_def)
    from applies [OF c(1) this] have "calm_step v ?u" by (simp add: calm_step_def)
    moreover obtain w' where "calm_step\<^sup>*\<^sup>* ?u w'" "ticks w' = ticks ?u + 1" using finishing [of ?u] by auto
    ultimately show ?thesis by (intro exI [of _ w']) (auto intro: converse_rtranclp_into_rtranclp)
  qed
  have holding: "\<exists>w'. calm_step\<^sup>*\<^sup>* v w' \<and> ticks w' = ticks v + 1" if h: "readers v 0 = Holding q" "appliers_ok v" for v q
  proof (cases "published (hub_of (server v)) = q")
    case True
    from unchanged [OF h(1) this] have "calm_step v (round_done 0 v)" by (simp add: calm_step_def)
    then show ?thesis by (intro exI [of _ "round_done 0 v"]) auto
  next
    case False
    let ?u = "set_reader 0 (Chosen q) v"
    from changed [OF h(1) False] have st: "wstep v ?u" .
    then have "calm_step v ?u" by (simp add: calm_step_def)
    moreover obtain w' where "calm_step\<^sup>*\<^sup>* ?u w'" "ticks w' = ticks v + 1"
      using chosen [of ?u q] appliers_ok_step [OF st h(2)] by auto
    ultimately show ?thesis by (intro exI [of _ w']) (auto intro: converse_rtranclp_into_rtranclp)
  qed
  show ?thesis
  proof (cases "readers w 0")
    case Resting
    let ?u = "set_reader 0 (Holding (store w)) w"
    from reads_store [OF Resting] have st: "wstep w ?u" .
    then have "calm_step w ?u" by (simp add: calm_step_def)
    moreover obtain w' where "calm_step\<^sup>*\<^sup>* ?u w'" "ticks w' = ticks w + 1"
      using holding [of ?u] appliers_ok_step [OF st assms] by auto
    ultimately show ?thesis by (intro exI [of _ w']) (auto intro: converse_rtranclp_into_rtranclp)
  qed (use assms finishing chosen holding in blast)+
qed

lemma two_rounds:
  assumes "wreach initial w"
  shows "\<exists>w'. calm_step\<^sup>*\<^sup>* w w' \<and> ticks w' = ticks w + 2"
proof -
  obtain u where u: "calm_step\<^sup>*\<^sup>* w u" "ticks u = ticks w + 1" using round_possible appliers_ok_reach assms by blast
  have "wreach initial u" using quiet_reach assms u(1) by blast
  then obtain w' where "calm_step\<^sup>*\<^sup>* u w'" "ticks w' = ticks u + 1" using round_possible appliers_ok_reach by blast
  with u show ?thesis by (intro exI [of _ w']) (auto intro: rtranclp_trans)
qed

section \<open>Properties\<close>

text \<open>
  C10: What the store says is put into force. Take any state of a server whose store is then left
  alone, in which no enrollment still holds an older snapshot. The reload loop can always get through
  two rounds, and once it has, whatever all tasks did meanwhile, the published tenants are those of
  the store and remain so; and when no sweep is under way and no session is being replaced, every
  session that is not cancelled belongs to a tenant that the store has, enabled, with that key.
\<close>

theorem store_enforced:
  assumes "wf_set initial" and "wreach initial w" and "\<forall>i. i \<noteq> 0 \<longrightarrow> \<not> outdated w i"
  shows "(\<exists>w'. calm_step\<^sup>*\<^sup>* w w' \<and> ticks w' = ticks w + 2)
    \<and> (\<forall>w'. calm_step\<^sup>*\<^sup>* w w' \<and> ticks w + 2 \<le> ticks w' \<longrightarrow>
         published (hub_of (server w')) = store w
         \<and> (started (server w') < 2 ^ 64 - 1 \<and> (\<forall>a next. appliers (server w') a \<noteq> Sweeping next)
              \<and> (\<forall>j. evicting (tasks (server w') j) = None) \<longrightarrow>
            (\<forall>i t n. tasks (server w') i = Running t n \<and> i \<notin> cancelled (hub_of (server w')) \<longrightarrow>
               still_allowed (store w) (tname t) (tpsk t))))"
proof (intro conjI allI impI)
  show "\<exists>w'. calm_step\<^sup>*\<^sup>* w w' \<and> ticks w' = ticks w + 2" by (rule two_rounds [OF assms(2)])
next
  fix w'
  assume "calm_step\<^sup>*\<^sup>* w w' \<and> ticks w + 2 \<le> ticks w'"
  with followed_steps [OF _ assms(3)] calm_store show "published (hub_of (server w')) = store w"
    by (auto simp: up_to_date_def)
next
  fix w' i t n
  assume w': "calm_step\<^sup>*\<^sup>* w w' \<and> ticks w + 2 \<le> ticks w'"
    and quiet: "started (server w') < 2 ^ 64 - 1 \<and> (\<forall>a next. appliers (server w') a \<noteq> Sweeping next)
              \<and> (\<forall>j. evicting (tasks (server w') j) = None)"
    and run: "tasks (server w') i = Running t n \<and> i \<notin> cancelled (hub_of (server w'))"
  have "hreach initial (server w')" using wreach_ok assms(1,2) quiet_reach w' by blast
  then have "allowed_ok (server w')" using hreach_inv quiet by (simp add: system_inv_def)
  moreover have "session_of (tasks (server w') i) = Some (t, n) \<and> is_checked (tasks (server w') i)" using run by simp
  ultimately have "still_allowed (published (hub_of (server w'))) (tname t) (tpsk t)"
    using quiet run unfolding allowed_ok_def by fastforce
  moreover have "published (hub_of (server w')) = store w"
    using followed_steps [OF _ assms(3)] calm_store w' by (auto simp: up_to_date_def)
  ultimately show "still_allowed (store w) (tname t) (tpsk t)" by simp
qed

section \<open>A key that is rotated in the store\<close>

lemma old_wf: "wf_set set_old"
  by (simp add: wf_set_def set_old_def old_a_def sample_tenant_def wf_tenant_def sample_hosts)

lemma old_allowed: "still_allowed set_old (tname old_a) (tpsk old_a)"
  by (simp add: still_allowed_def find_tenant_def set_old_def old_a_def sample_tenant_def)

theorem store_enforced_witness:
  "\<exists>w w' :: watch_state. wreach set_old w \<and> published (hub_of (server w)) = set_old \<and> calm_step\<^sup>*\<^sup>* w w'
     \<and> published (hub_of (server w')) = set_new"
proof -
  let ?w = "(watch_start set_old)\<lparr>store := set_new\<rparr>"
  have w: "wreach set_old ?w" using stored [OF rotated_wf] by auto
  have "\<forall>i. i \<noteq> 0 \<longrightarrow> \<not> outdated ?w i" by (simp add: outdated_def watch_start_def)
  note e = store_enforced [OF old_wf w this]
  then obtain w' where "calm_step\<^sup>*\<^sup>* ?w w'" "ticks w' = ticks ?w + 2" by blast
  with e w show ?thesis
    by (intro exI [of _ ?w] exI [of _ w']) (auto simp: watch_start_def system_start_def hub_new_def)
qed

text \<open>
  Reading the store and applying what was read are two steps, and nothing orders the readers: an
  enrollment that read the store before a key was rotated can apply what it read after the reload
  loop has published the rotation. The old key is then accepted again, and the new one is not, until
  the next round of the loop.
\<close>

theorem stale_snapshot_restored:
  "\<exists>w w'. wreach set_old w \<and> calm_step w w' \<and> published (hub_of (server w)) = store w
     \<and> \<not> still_allowed (store w) (tname old_a) (tpsk old_a)
     \<and> still_allowed (published (hub_of (server w'))) (tname old_a) (tpsk old_a)"
proof -
  let ?w0 = "watch_start set_old"
  let ?w1 = "set_reader 1 (Holding set_old) ?w0"
  let ?w2 = "set_reader 1 (Chosen set_old) ?w1"
  let ?w3 = "?w2\<lparr>store := set_new\<rparr>"
  let ?w4 = "set_reader 0 (Holding set_new) ?w3"
  let ?w5 = "set_reader 0 (Chosen set_new) ?w4"
  let ?w6 = "(set_reader 0 Finishing ?w5)\<lparr>server := start_apply 0 set_new (server ?w5)\<rparr>"
  have start: "published (hub_of (server ?w0)) = set_old" "appliers (server ?w0) a = Ready_To_Apply" "readers ?w0 i = Resting"
    "store ?w0 = set_old" for a i
    by (simp_all add: watch_start_def system_start_def hub_new_def)
  have diff: "set_old \<noteq> set_new" using old_allowed rotated_allowed(2) by metis
  have "wstep ?w0 ?w1" using reads_store [of ?w0 1] start by simp
  moreover have "wstep ?w1 ?w2" by (rule enrolled) simp_all
  moreover have "wstep ?w2 ?w3" by (rule stored [OF rotated_wf])
  moreover have "wstep ?w3 ?w4" using reads_store [of ?w3 0] start by simp
  moreover have "wstep ?w4 ?w5" by (rule changed) (use start diff in simp_all)
  moreover have "wstep ?w5 ?w6" by (rule applies) (use start in simp_all)
  ultimately have r6: "wreach set_old ?w6" by (meson rtranclp.rtrancl_refl rtranclp.rtrancl_into_rtrancl)
  have "readers ?w6 0 = Finishing" by simp
  from apply_finishes [OF this] obtain w where w: "calm_step\<^sup>*\<^sup>* ?w6 w" "readers w = readers ?w6"
    "published (hub_of (server w)) = set_new" by auto
  have reach: "wreach set_old w" using quiet_reach [OF r6 w(1)] .
  have st: "store w = set_new" using calm_store [OF w(1)] by simp
  have r1: "readers w 1 = Chosen set_old" using w(2) by simp
  then have "appliers (server w) 1 = Ready_To_Apply" using appliers_ok_reach [OF reach] by (auto simp: appliers_ok_def)
  from applies [OF r1 this] have
    "calm_step w ((set_reader 1 Finishing w)\<lparr>server := start_apply 1 set_old (server w)\<rparr>)" by (simp add: calm_step_def)
  with reach st w(3) rotated_allowed(2) old_allowed show ?thesis
    by (intro exI [of _ w] exI [of _ "(set_reader 1 Finishing w)\<lparr>server := start_apply 1 set_old (server w)\<rparr>"]) simp
qed

end
