(* ===== verification/Live_Pipe.thy ===== *)
theory Live_Pipe
  imports Pump "HOL-Library.Sublist"
begin

text \<open>
  The copy tasks of \<open>proxy.rs\<close> while both sides talk: \<open>Pump\<close> computes what a task does with a
  stream that is known beforehand, here a side may send, wait for an answer and send again. A task
  moves between two points where it waits for a socket; a connection is a route of tasks in each
  direction, one task for a forwarder, two for the reverse tunnel, where what a task wrote arrives
  at the next one in pieces (a TCP connection or a stream of the multiplexer). The routes refine a
  pair of plain links, and everything sent arrives whatever the other direction is doing.
\<close>

section \<open>A copy task\<close>

text \<open>Where the loop of \<open>pump\<close> is: at its read, in \<open>write_all\<close> with the bytes left of a chunk of
  \<open>n\<close>, at the shutdown of its writer, or returned.\<close>

datatype copy_point = Reading | Writing "byte list" nat | Closing | Ended "io_error + unit"

record copy_task =
  arrived :: "byte list"
  unread :: "byte list"
  over :: bool
  doing :: copy_point
  delivered :: "byte list"
  closed :: bool
  counted :: u64

definition copy_start :: copy_task where
  "copy_start = \<lparr>arrived = [], unread = [], over = False, doing = Reading, delivered = [],
     closed = False, counted = 0\<rparr>"

text \<open>The environment of a task: bytes arrive at its reader, or the end of the stream.\<close>

definition take_in :: "byte list \<Rightarrow> copy_task \<Rightarrow> copy_task" where
  "take_in bs d = d\<lparr>arrived := arrived d @ bs, unread := unread d @ bs\<rparr>"

definition take_end :: "copy_task \<Rightarrow> copy_task" where
  "take_end d = d\<lparr>over := True\<rparr>"

lemma take_in_simps [simp]:
  "arrived (take_in bs d) = arrived d @ bs" "unread (take_in bs d) = unread d @ bs" "over (take_in bs d) = over d"
  "doing (take_in bs d) = doing d" "delivered (take_in bs d) = delivered d" "closed (take_in bs d) = closed d"
  by (simp_all add: take_in_def)

lemma take_end_simps [simp]:
  "arrived (take_end d) = arrived d" "unread (take_end d) = unread d" "over (take_end d)"
  "doing (take_end d) = doing d" "delivered (take_end d) = delivered d" "closed (take_end d) = closed d"
  by (simp_all add: take_end_def)

inductive copy_step :: "copy_task \<Rightarrow> copy_task \<Rightarrow> bool" where
  reads: "doing d = Reading \<Longrightarrow> 0 < k \<Longrightarrow> k \<le> length (unread d) \<Longrightarrow> k \<le> BUF_SIZE \<Longrightarrow>
    copy_step d (d\<lparr>doing := Writing (take k (unread d)) k, unread := drop k (unread d)\<rparr>)"
| reads_end: "doing d = Reading \<Longrightarrow> unread d = [] \<Longrightarrow> over d \<Longrightarrow> copy_step d (d\<lparr>doing := Closing\<rparr>)"
| writes: "doing d = Writing rest n \<Longrightarrow> 0 < k \<Longrightarrow> k \<le> length rest \<Longrightarrow>
    copy_step d (d\<lparr>doing := Writing (drop k rest) n, delivered := delivered d @ take k rest\<rparr>)"
| counts: "doing d = Writing [] n \<Longrightarrow>
    copy_step d (d\<lparr>doing := Reading, counted := counted d + word_of_nat n\<rparr>)"
| closes: "doing d = Closing \<Longrightarrow> copy_step d (d\<lparr>doing := Ended (Inr ()), closed := True\<rparr>)"

text \<open>What a socket may do to it instead. The error of a shutdown is ignored.\<close>

inductive copy_fail :: "copy_task \<Rightarrow> copy_task \<Rightarrow> bool" where
  read_fails: "doing d = Reading \<Longrightarrow> copy_fail d (d\<lparr>doing := Ended (Inl e)\<rparr>)"
| write_fails: "doing d = Writing rest n \<Longrightarrow> rest \<noteq> [] \<Longrightarrow> copy_fail d (d\<lparr>doing := Ended (Inl e)\<rparr>)"
| close_fails: "doing d = Closing \<Longrightarrow> copy_fail d (d\<lparr>doing := Ended (Inr ())\<rparr>)"

inductive_cases copy_stepE: "copy_step d d'"
inductive_cases copy_failE: "copy_fail d d'"

text \<open>\<open>pipe_bidirectional_tracked\<close> on its two tasks: \<open>join!\<close> waits for both.\<close>

definition pipe_result :: "copy_task \<Rightarrow> copy_task \<Rightarrow> (io_error + unit) option" where
  "pipe_result t1 t2 = (case (doing t1, doing t2) of
     (Ended r1, Ended r2) \<Rightarrow> Some (rbind r1 (\<lambda>_. r2)) | _ \<Rightarrow> None)"

section \<open>Routes\<close>

text \<open>
  The tasks of one direction, from the sender on. A step is one of a task, or between two tasks:
  bytes that the first has written arrive, in order, or the end of the stream after all of them.
\<close>

inductive route_step :: "copy_task list \<Rightarrow> copy_task list \<Rightarrow> bool" where
  works: "copy_step d d' \<Longrightarrow> route_step (d # r) (d' # r)"
| carries_on: "bs \<noteq> [] \<Longrightarrow> prefix (arrived e @ bs) (delivered d) \<Longrightarrow> \<not> over e \<Longrightarrow>
    route_step (d # e # r) (d # take_in bs e # r)"
| carries_end: "closed d \<Longrightarrow> arrived e = delivered d \<Longrightarrow> \<not> over e \<Longrightarrow>
    route_step (d # e # r) (d # take_end e # r)"
| later: "route_step r r' \<Longrightarrow> route_step (d # r) (d # r')"

inductive route_fail :: "copy_task list \<Rightarrow> copy_task list \<Rightarrow> bool" where
  fails: "copy_fail d d' \<Longrightarrow> route_fail (d # r) (d' # r)"
| fails_later: "route_fail r r' \<Longrightarrow> route_fail (d # r) (d # r')"

text \<open>A connection: the route there, the route back, and two sides that send at any time.\<close>

record connection =
  outward :: "copy_task list"
  inward :: "copy_task list"

inductive inner_step :: "connection \<Rightarrow> connection \<Rightarrow> bool" where
  step_there: "route_step (outward c) r \<Longrightarrow> inner_step c (c\<lparr>outward := r\<rparr>)"
| step_back: "route_step (inward c) r \<Longrightarrow> inner_step c (c\<lparr>inward := r\<rparr>)"

inductive side_sends :: "copy_task list \<Rightarrow> copy_task list \<Rightarrow> bool" where
  says: "bs \<noteq> [] \<Longrightarrow> \<not> over d \<Longrightarrow> side_sends (d # r) (take_in bs d # r)"
| finishes: "\<not> over d \<Longrightarrow> side_sends (d # r) (take_end d # r)"

inductive outer_step :: "connection \<Rightarrow> connection \<Rightarrow> bool" where
  sends_there: "side_sends (outward c) r \<Longrightarrow> outer_step c (c\<lparr>outward := r\<rparr>)"
| sends_back: "side_sends (inward c) r \<Longrightarrow> outer_step c (c\<lparr>inward := r\<rparr>)"

inductive fail_step :: "connection \<Rightarrow> connection \<Rightarrow> bool" where
  fails_there: "route_fail (outward c) r \<Longrightarrow> fail_step c (c\<lparr>outward := r\<rparr>)"
| fails_back: "route_fail (inward c) r \<Longrightarrow> fail_step c (c\<lparr>inward := r\<rparr>)"

definition connection_start :: "nat \<Rightarrow> connection" where
  "connection_start n = \<lparr>outward = replicate n copy_start, inward = replicate n copy_start\<rparr>"

abbreviation talks :: "nat \<Rightarrow> connection \<Rightarrow> bool" where
  "talks n \<equiv> (sup inner_step outer_step)\<^sup>*\<^sup>* (connection_start n)"

abbreviation talks_or_fails :: "nat \<Rightarrow> connection \<Rightarrow> bool" where
  "talks_or_fails n \<equiv> (sup (sup inner_step outer_step) fail_step)\<^sup>*\<^sup>* (connection_start n)"

section \<open>The specification: a pair of links\<close>

text \<open>What a program sees of a direct connection, in one direction.\<close>

record link =
  put :: "byte list"
  put_end :: bool
  got :: "byte list"
  got_end :: bool

inductive link_step :: "link \<Rightarrow> link \<Rightarrow> bool" where
  puts: "\<not> put_end l \<Longrightarrow> link_step l (l\<lparr>put := put l @ bs\<rparr>)"
| puts_end: "link_step l (l\<lparr>put_end := True\<rparr>)"
| gets: "prefix (got l @ bs) (put l) \<Longrightarrow> \<not> got_end l \<Longrightarrow> link_step l (l\<lparr>got := got l @ bs\<rparr>)"
| gets_end: "put_end l \<Longrightarrow> got l = put l \<Longrightarrow> link_step l (l\<lparr>got_end := True\<rparr>)"

inductive links_step :: "link \<times> link \<Rightarrow> link \<times> link \<Rightarrow> bool" where
  first: "link_step l l' \<Longrightarrow> links_step (l, m) (l', m)"
| second: "link_step m m' \<Longrightarrow> links_step (l, m) (l, m')"

definition link_start :: link where
  "link_start = \<lparr>put = [], put_end = False, got = [], got_end = False\<rparr>"

definition link_of :: "copy_task list \<Rightarrow> link" where
  "link_of r = \<lparr>put = arrived (hd r), put_end = over (hd r),
     got = delivered (last r), got_end = closed (last r)\<rparr>"

definition links_of :: "connection \<Rightarrow> link \<times> link" where
  "links_of c = (link_of (outward c), link_of (inward c))"

section \<open>Invariants\<close>

fun in_hand :: "copy_point \<Rightarrow> byte list" where
  "in_hand (Writing rest n) = rest"
| "in_hand p = []"

text \<open>The bytes of the chunk being written that are out but not counted yet.\<close>

fun uncounted :: "copy_point \<Rightarrow> nat" where
  "uncounted (Writing rest n) = n - length rest"
| "uncounted p = 0"

definition bytes_ok :: "copy_task \<Rightarrow> bool" where
  "bytes_ok d \<longleftrightarrow> prefix (delivered d) (arrived d)
     \<and> ((\<forall>e. doing d \<noteq> Ended (Inl e)) \<longrightarrow> delivered d @ in_hand (doing d) @ unread d = arrived d)"

definition end_ok :: "copy_task \<Rightarrow> bool" where
  "end_ok d \<longleftrightarrow> (doing d = Closing \<or> doing d = Ended (Inr ()) \<longrightarrow> over d \<and> unread d = [])
     \<and> (closed d \<longrightarrow> doing d = Ended (Inr ()))"

text \<open>What is written at once is at most \<open>m\<close> bytes, and the counter lags behind by no more.\<close>

definition count_ok :: "nat \<Rightarrow> copy_task \<Rightarrow> bool" where
  "count_ok m d \<longleftrightarrow> (\<forall>rest n. doing d = Writing rest n \<longrightarrow> length rest \<le> n \<and> n \<le> m)
     \<and> (\<exists>c. counted d = word_of_nat c \<and> c \<le> length (delivered d) \<and> length (delivered d) \<le> c + m
          \<and> ((\<forall>e. doing d \<noteq> Ended (Inl e)) \<longrightarrow> c + uncounted (doing d) = length (delivered d)))"

definition copy_ok :: "copy_task \<Rightarrow> bool" where
  "copy_ok d \<longleftrightarrow> bytes_ok d \<and> end_ok d"

fun route_ok :: "copy_task list \<Rightarrow> bool" where
  "route_ok [] = True"
| "route_ok [d] = copy_ok d"
| "route_ok (d # e # r) = (copy_ok d \<and> prefix (arrived e) (delivered d)
     \<and> (over e \<longrightarrow> closed d \<and> arrived e = delivered d) \<and> route_ok (e # r))"


lemmas copy_defs = copy_ok_def bytes_ok_def end_ok_def

lemma copy_ok_start: "copy_ok copy_start"
  by (simp add: copy_defs copy_start_def)

lemma count_ok_start: "count_ok m copy_start"
  by (auto simp: count_ok_def copy_start_def intro!: exI [of _ 0])

lemma bytes_ok_running:
  "\<forall>e. doing d \<noteq> Ended (Inl e) \<Longrightarrow> bytes_ok d \<longleftrightarrow> delivered d @ in_hand (doing d) @ unread d = arrived d"
  unfolding bytes_ok_def by (metis prefixI)

lemma take_drop_append: "take k xs @ drop k xs @ ys = xs @ ys"
  by (simp flip: append_assoc)

lemma bytes_ok_step: "copy_step d d' \<Longrightarrow> bytes_ok d \<Longrightarrow> bytes_ok d'"
  by (erule copy_stepE) (simp_all add: bytes_ok_running take_drop_append)

lemma end_ok_step: "copy_step d d' \<Longrightarrow> end_ok d \<Longrightarrow> end_ok d'"
  by (erule copy_stepE) (auto simp: end_ok_def)

lemma count_ok_step:
  assumes "copy_step d d'" and ok: "count_ok m d" and "BUF_SIZE \<le> m"
  shows "count_ok m d'"
  using assms(1)
proof (rule copy_stepE)
  fix rest n k
  assume w: "d' = d\<lparr>doing := Writing (drop k rest) n, delivered := delivered d @ take k rest\<rparr>"
    "doing d = Writing rest n" "k \<le> length rest"
  then obtain c where "counted d = word_of_nat c" "c + (n - length rest) = length (delivered d)"
    "length rest \<le> n" "n \<le> m"
    using ok by (auto simp: count_ok_def)
  with w show "count_ok m d'" by (auto simp: count_ok_def intro!: exI [of _ c])
next
  fix n
  assume w: "d' = d\<lparr>doing := Reading, counted := counted d + word_of_nat n\<rparr>" "doing d = Writing [] n"
  then obtain c where "counted d = word_of_nat c" "c + n = length (delivered d)"
    using ok by (auto simp: count_ok_def)
  moreover from this have "counted d + word_of_nat n = word_of_nat (length (delivered d))" by (metis of_nat_add)
  ultimately show "count_ok m d'" using w ok unfolding count_ok_def by (intro conjI exI [of _ "c + n"]) simp_all
qed (use assms(2,3) in \<open>auto simp: count_ok_def\<close>)

lemma copy_ok_step [invariants]: "copy_step d d' \<Longrightarrow> copy_ok d \<Longrightarrow> copy_ok d'"
  by (simp add: copy_ok_def bytes_ok_step end_ok_step)

lemma copy_ok_fail [invariants]: "copy_fail d d' \<Longrightarrow> copy_ok d \<Longrightarrow> copy_ok d'"
  by (erule copy_failE) (fastforce simp: copy_defs)+

lemma copy_ok_take_in: "copy_ok d \<Longrightarrow> \<not> over d \<Longrightarrow> copy_ok (take_in bs d)"
  by (auto simp: copy_defs take_in_def prefix_def)

lemma copy_ok_take_end: "copy_ok d \<Longrightarrow> copy_ok (take_end d)"
  by (auto simp: copy_defs take_end_def)

lemma count_ok_fail: "copy_fail d d' \<Longrightarrow> count_ok m d \<Longrightarrow> count_ok m d'"
  by (erule copy_failE) (fastforce simp: count_ok_def)+

lemma count_ok_environment: "count_ok m d \<Longrightarrow> count_ok m (take_in bs d) \<and> count_ok m (take_end d)"
  by (simp add: count_ok_def take_in_def take_end_def)

text \<open>A task does not touch what has arrived, and only adds to what it delivered.\<close>

lemma copy_step_frame:
  "copy_step d d' \<Longrightarrow> arrived d' = arrived d \<and> over d' = over d \<and> prefix (delivered d) (delivered d')"
  by (erule copy_stepE) (auto simp: prefix_def)

lemma copy_fail_frame:
  "copy_fail d d' \<Longrightarrow> arrived d' = arrived d \<and> over d' = over d \<and> delivered d' = delivered d \<and> closed d' = closed d"
  by (erule copy_failE) auto

lemma copy_step_closed: "copy_step d d' \<Longrightarrow> end_ok d \<Longrightarrow> \<not> closed d"
  by (erule copy_stepE) (auto simp: end_ok_def)

lemma closed_delivered: "copy_ok d \<Longrightarrow> closed d \<Longrightarrow> over d \<and> delivered d = arrived d"
  by (auto simp: copy_defs)

lemma route_step_ne: "route_step r r' \<Longrightarrow> r \<noteq> [] \<and> length r' = length r"
  by (induction rule: route_step.induct) auto

lemma route_step_head:
  "route_step r r' \<Longrightarrow> arrived (hd r') = arrived (hd r) \<and> over (hd r') = over (hd r)"
  by (induction rule: route_step.induct) (auto dest: copy_step_frame)

lemma route_fail_head:
  "route_fail r r' \<Longrightarrow> arrived (hd r') = arrived (hd r) \<and> over (hd r') = over (hd r) \<and> r' \<noteq> [] \<and> r \<noteq> []"
  by (induction rule: route_fail.induct) (auto dest: copy_fail_frame)

lemma route_fail_length: "route_fail r r' \<Longrightarrow> length r' = length r"
  by (induction rule: route_fail.induct) auto

lemma route_ok_Cons: "route_ok (d # r) \<longleftrightarrow> copy_ok d \<and> route_ok r \<and> (r \<noteq> [] \<longrightarrow>
    prefix (arrived (hd r)) (delivered d) \<and> (over (hd r) \<longrightarrow> closed d \<and> arrived (hd r) = delivered d))"
  by (cases r) auto

lemma route_ok_step [invariants]: "route_step r r' \<Longrightarrow> route_ok r \<Longrightarrow> route_ok r'"
proof (induction rule: route_step.induct)
  case (works d d' r)
  then show ?case
    using copy_step_frame [OF works(1)] copy_step_closed [OF works(1)] copy_ok_step [OF works(1)]
    by (auto simp: route_ok_Cons dest: copy_ok_def [THEN iffD1] intro: prefix_order.trans)
next
  case (carries_on bs e d r)
  then show ?case
    by (auto simp: route_ok_Cons copy_ok_take_in)
next
  case (carries_end d e r)
  then show ?case
    by (auto simp: route_ok_Cons copy_ok_take_end)
next
  case (later r r' d)
  then show ?case
    using route_step_head [OF later(1)] route_step_ne [OF later(1)] by (auto simp: route_ok_Cons)
qed

lemma route_ok_fail [invariants]: "route_fail r r' \<Longrightarrow> route_ok r \<Longrightarrow> route_ok r'"
proof (induction rule: route_fail.induct)
  case (fails d d' r)
  then show ?case
    using copy_fail_frame [OF fails(1)] by (auto simp: route_ok_Cons copy_ok_fail)
next
  case (fails_later r r' d)
  then show ?case using route_fail_head [OF fails_later(1)] by (auto simp: route_ok_Cons)
qed

lemma route_ok_sends [invariants]: "side_sends r r' \<Longrightarrow> route_ok r \<Longrightarrow> route_ok r'"
  by (induction rule: side_sends.induct) (auto simp: route_ok_Cons copy_ok_take_in copy_ok_take_end)

lemma route_ok_start: "route_ok (replicate n copy_start)"
proof (induction n)
  case (Suc n)
  then show ?case by (cases n) (auto simp: route_ok_Cons copy_ok_start, simp_all add: copy_start_def)
qed simp

text \<open>The two ends of a route are the two ends of a link.\<close>

lemma route_ends:
  assumes "route_ok r" and "r \<noteq> []"
  shows "prefix (delivered (last r)) (arrived (hd r))
    \<and> (closed (last r) \<longrightarrow> over (hd r) \<and> delivered (last r) = arrived (hd r))"
  using assms
proof (induction r)
  case (Cons d r)
  then have d: "copy_ok d" "prefix (delivered d) (arrived d)" by (auto simp: route_ok_Cons copy_ok_def bytes_ok_def)
  show ?case
  proof (cases "r = []")
    case True
    with d closed_delivered [OF d(1)] show ?thesis by simp
  next
    case False
    with Cons d closed_delivered [OF d(1)] show ?thesis
      by (auto simp: route_ok_Cons intro: prefix_order.trans)
  qed
qed simp

lemma copy_step_out:
  "copy_step d d' \<Longrightarrow> end_ok d \<Longrightarrow> \<not> closed d \<and>
    (delivered d' = delivered d \<or> \<not> closed d') \<and> (\<exists>bs. delivered d' = delivered d @ bs)"
  by (erule copy_stepE) (auto simp: end_ok_def)

lemma route_step_out:
  "route_step r r' \<Longrightarrow> route_ok r \<Longrightarrow>
    delivered (last r') = delivered (last r) \<and> closed (last r') = closed (last r)
    \<or> \<not> closed (last r) \<and> (delivered (last r') = delivered (last r) \<or> \<not> closed (last r'))
      \<and> (\<exists>bs. delivered (last r') = delivered (last r) @ bs)"
proof (induction rule: route_step.induct)
  case (works d d' r)
  then show ?case using copy_step_out [OF works(1)] by (auto simp: route_ok_Cons copy_ok_def)
next
  case (later r r' d)
  then show ?case using route_step_ne [OF later(1)] by (auto simp: route_ok_Cons)
qed auto

lemma route_refines:
  assumes "route_step r r'" and "route_ok r"
  shows "link_step\<^sup>*\<^sup>* (link_of r) (link_of r')"
proof -
  have ne: "r' \<noteq> []" using route_step_ne [OF assms(1)] by auto
  note ends = route_ends [OF route_ok_step [OF assms] ne]
  let ?l = "link_of r"
  have hd: "put (link_of r') = put ?l" "put_end (link_of r') = put_end ?l"
    using route_step_head [OF assms(1)] by (simp_all add: link_of_def)
  from route_step_out [OF assms] consider
      "link_of r' = ?l"
    | bs where "link_of r' = ?l\<lparr>got := got ?l @ bs\<rparr>" "\<not> got_end ?l"
    | "link_of r' = ?l\<lparr>got_end := True\<rparr>" "\<not> got_end ?l"
    using hd by (auto simp: link_of_def)
  then show ?thesis
  proof cases
    case 1
    then show ?thesis by simp
  next
    case (2 bs)
    with ends have "prefix (got ?l @ bs) (put ?l)" using hd by (simp add: link_of_def)
    then show ?thesis unfolding 2(1) by (intro r_into_rtranclp gets 2(2))
  next
    case 3
    with ends have "put_end ?l" "got ?l = put ?l" using hd by (auto simp: link_of_def)
    then show ?thesis unfolding 3(1) by (intro r_into_rtranclp gets_end)
  qed
qed

section \<open>Draining\<close>

text \<open>A task that met no failure, and the work left in a route: the further a byte has to go the
  more it weighs.\<close>

definition sound :: "copy_task \<Rightarrow> bool" where
  "sound d \<longleftrightarrow> (\<forall>r. doing d = Ended r \<longrightarrow> r = Inr () \<and> closed d)"

fun point_left :: "copy_point \<Rightarrow> nat" where
  "point_left (Writing rest n) = 3"
| "point_left Reading = 2"
| "point_left Closing = 1"
| "point_left (Ended r) = 0"

fun work_left :: "copy_task list \<Rightarrow> nat" where
  "work_left [] = 0"
| "work_left (d # r) = (5 * length r + 4) * length (unread d) + (5 * length r + 1) * length (in_hand (doing d))
     + point_left (doing d) + (if over d then 0 else 1)
     + 5 * length r * (length (delivered d) - length (arrived (hd r))) + work_left r"

lemma sound_step: "copy_step d d' \<Longrightarrow> sound d \<Longrightarrow> sound d'"
  by (erule copy_stepE) (auto simp: sound_def)

lemma sound_route_step: "route_step r r' \<Longrightarrow> \<forall>d \<in> set r. sound d \<Longrightarrow> \<forall>d \<in> set r'. sound d"
  by (induction rule: route_step.induct) (auto dest: sound_step simp: sound_def)

lemma sound_sends: "side_sends r r' \<Longrightarrow> \<forall>d \<in> set r. sound d \<Longrightarrow> \<forall>d \<in> set r'. sound d"
  by (induction rule: side_sends.induct) (auto simp: sound_def)

lemma weight_moved:
  fixes m a b c :: nat
  assumes "a = b + c" and "0 < c"
  shows "(5 * m + 4) * b + (5 * m + 1) * c + 3 < (5 * m + 4) * a + 2"
    and "(5 * m + 1) * b + 5 * m * (i + c - j) < (5 * m + 1) * a + 5 * m * (i - j)"
proof -
  show "(5 * m + 4) * b + (5 * m + 1) * c + 3 < (5 * m + 4) * a + 2"
    using assms by (simp add: algebra_simps)
  have "5 * m * (i + c - j) \<le> 5 * m * (i - j) + 5 * m * c"
    using mult_le_mono2 [of "i + c - j" "i - j + c" "5 * m"] by (simp add: distrib_left)
  then show "(5 * m + 1) * b + 5 * m * (i + c - j) < (5 * m + 1) * a + 5 * m * (i - j)"
    using assms by (simp add: algebra_simps)
qed

lemma copy_step_work:
  assumes "copy_step d d'"
  shows "work_left (d' # r) < work_left (d # r)"
  using assms
proof cases
  case (reads k)
  then have "length (unread d) = length (drop k (unread d)) + k" by simp
  from weight_moved(1) [OF this reads(3), of "length r"] reads show ?thesis by (simp add: min_absorb2)
next
  case (writes rest n k)
  then have "length rest = length (drop k rest) + k" by simp
  from weight_moved(2) [OF this writes(3), of "length r" "length (delivered d)" "length (arrived (hd r))"] writes
  show ?thesis by (simp add: min_absorb2)
qed auto

lemma route_step_work: "route_step r r' \<Longrightarrow> work_left r' < work_left r"
proof (induction rule: route_step.induct)
  case (works d d' r)
  then show ?case by (rule copy_step_work)
next
  case (carries_on bs e d r)
  then have "length (arrived e) + length bs \<le> length (delivered d)" by (auto dest: prefix_length_le)
  then obtain j where "length (delivered d) = length (arrived e) + length bs + j" by (auto simp: le_iff_add)
  moreover have "0 < length bs" using carries_on(1) by simp
  ultimately show ?case by (simp add: algebra_simps)
next
  case (carries_end d e r)
  then show ?case by simp
next
  case (later r r' d)
  then show ?case using route_step_ne [OF later(1)] route_step_head [OF later(1)] by simp
qed

lemma no_copy_step:
  assumes "\<not> (\<exists>d'. copy_step d d')" and "copy_ok d" and "sound d"
  shows "delivered d = arrived d \<and> (over d \<longrightarrow> closed d)"
proof (cases "doing d")
  case Reading
  have "unread d = []"
  proof (rule ccontr)
    assume "unread d \<noteq> []"
    then have "copy_step d (d\<lparr>doing := Writing (take 1 (unread d)) 1, unread := drop 1 (unread d)\<rparr>)"
      using Reading by (intro reads) (simp_all add: BUF_SIZE_def Suc_leI)
    with assms(1) show False by blast
  qed
  moreover have "\<not> over d" using assms(1) reads_end [OF Reading calculation] by blast
  ultimately show ?thesis using assms(2) Reading by (simp add: copy_ok_def bytes_ok_running)
next
  case (Writing rest n)
  then have "rest = []" using assms(1) writes [OF Writing, of "length rest"] by auto
  then show ?thesis using assms(1) counts [of d n] Writing by blast
next
  case Closing
  then show ?thesis using assms(1) closes [of d] by blast
next
  case (Ended r)
  then have "closed d" using assms(3) by (simp add: sound_def)
  with closed_delivered [OF assms(2)] show ?thesis by simp
qed

lemma stuck_delivered:
  assumes "\<not> (\<exists>r'. route_step r r')" and "route_ok r" and "\<forall>d \<in> set r. sound d" and "r \<noteq> []"
  shows "delivered (last r) = arrived (hd r) \<and> (over (hd r) \<longrightarrow> closed (last r))"
  using assms
proof (induction r)
  case (Cons d r)
  have d: "delivered d = arrived d" "over d \<Longrightarrow> closed d"
    using no_copy_step [of d] Cons.prems works [of d] by (auto simp: route_ok_Cons)
  show ?case
  proof (cases r)
    case Nil
    with d show ?thesis by simp
  next
    case (Cons e q)
    have nxt: "delivered (last r) = arrived (hd r) \<and> (over (hd r) \<longrightarrow> closed (last r))"
    proof (rule Cons.IH)
      show "\<not> (\<exists>r'. route_step r r')" using Cons.prems(1) later by blast
    qed (use Cons.prems(2,3) in \<open>simp_all add: route_ok_Cons\<close>, simp add: Cons)
    have "prefix (arrived e) (delivered d)" and oe: "over e \<Longrightarrow> arrived e = delivered d"
      using Cons.prems(2) by (simp_all add: Cons)
    then obtain bs where bs: "delivered d = arrived e @ bs" by (blast elim: prefixE)
    with oe have e: "over e \<Longrightarrow> bs = []" by simp
    have none: "\<not> route_step (d # e # q) r'" for r' using Cons.prems(1) Cons by blast
    have nil: "bs = []"
    proof (rule ccontr)
      assume "bs \<noteq> []"
      with none carries_on [OF this _ , of e d q] e bs show False by (cases "over e") simp_all
    qed
    have "over d \<Longrightarrow> over e" using none carries_end [of d e q] d(2) bs nil by auto
    then show ?thesis using nxt d(1) bs nil unfolding Cons by simp
  qed
qed simp

section \<open>Connections\<close>

definition connection_ok :: "connection \<Rightarrow> bool" where
  "connection_ok c \<longleftrightarrow> route_ok (outward c) \<and> route_ok (inward c) \<and> outward c \<noteq> [] \<and> inward c \<noteq> []"

definition all_sound :: "connection \<Rightarrow> bool" where
  "all_sound c \<longleftrightarrow> (\<forall>d \<in> set (outward c) \<union> set (inward c). sound d)"

abbreviation any_move :: "connection \<Rightarrow> connection \<Rightarrow> bool" where
  "any_move \<equiv> sup (sup inner_step outer_step) fail_step"

lemma side_sends_ne: "side_sends r r' \<Longrightarrow> r' \<noteq> []"
  by (cases rule: side_sends.cases) auto

lemma connection_ok_move [invariants]: "any_move c c' \<Longrightarrow> connection_ok c \<Longrightarrow> connection_ok c'"
  by (auto simp: connection_ok_def elim!: inner_step.cases outer_step.cases fail_step.cases
      dest: route_step_ne route_fail_head side_sends_ne intro: route_ok_step route_ok_fail route_ok_sends)

lemma connection_ok_start: "0 < n \<Longrightarrow> connection_ok (connection_start n)"
  by (simp add: connection_ok_def connection_start_def route_ok_start)

lemma connection_ok_reach: "talks_or_fails n c \<Longrightarrow> 0 < n \<Longrightarrow> connection_ok c"
  by (induction rule: rtranclp_induct) (use connection_ok_start connection_ok_move in blast)+

lemma talks_moves: "talks n c \<Longrightarrow> talks_or_fails n c"
  by (induction rule: rtranclp_induct) (auto intro: rtranclp.rtrancl_into_rtrancl)

lemma all_sound_inner: "inner_step c c' \<Longrightarrow> all_sound c \<Longrightarrow> all_sound c'"
  by (induction rule: inner_step.induct) (auto simp: all_sound_def dest: sound_route_step)

lemma all_sound_talks: "talks n c \<Longrightarrow> all_sound c"
proof (induction rule: rtranclp_induct)
  case base
  show ?case by (auto simp: all_sound_def connection_start_def copy_start_def sound_def)
next
  case (step c c')
  from step(2) consider "inner_step c c'" | "outer_step c c'" by auto
  then show ?case
  proof cases
    case 2
    then show ?thesis using step.IH
      by cases (auto simp: all_sound_def dest: sound_sends)
  qed (use step.IH all_sound_inner in blast)
qed

lemma links_first: "link_step\<^sup>*\<^sup>* l l' \<Longrightarrow> links_step\<^sup>*\<^sup>* (l, m) (l', m)"
  by (induction rule: rtranclp_induct) (auto intro: rtranclp.rtrancl_into_rtrancl first)

lemma links_second: "link_step\<^sup>*\<^sup>* m m' \<Longrightarrow> links_step\<^sup>*\<^sup>* (l, m) (l, m')"
  by (induction rule: rtranclp_induct) (auto intro: rtranclp.rtrancl_into_rtrancl second)

lemma sends_refines: "side_sends r r' \<Longrightarrow> link_step\<^sup>*\<^sup>* (link_of r) (link_of r')"
proof (induction rule: side_sends.induct)
  case (says bs d r)
  then show ?case using puts [of "link_of (d # r)" bs] by (auto simp: link_of_def)
next
  case (finishes d r)
  then show ?case using puts_end [of "link_of (d # r)"] by (auto simp: link_of_def)
qed

lemma route_fail_out:
  "route_fail r r' \<Longrightarrow> delivered (last r') = delivered (last r) \<and> closed (last r') = closed (last r)"
  by (induction rule: route_fail.induct) (auto dest: copy_fail_frame route_fail_head)

lemma fail_refines: "route_fail r r' \<Longrightarrow> link_of r' = link_of r"
  using route_fail_out [of r r'] route_fail_head [of r r'] by (simp add: link_of_def)

lemma move_refines:
  assumes "any_move c c'" and "connection_ok c"
  shows "links_step\<^sup>*\<^sup>* (links_of c) (links_of c')"
proof -
  from assms(1) consider "inner_step c c'" | "outer_step c c'" | "fail_step c c'" by auto
  then show ?thesis
  proof cases
    case 1
    then show ?thesis using assms(2)
      by cases (auto simp: links_of_def connection_ok_def intro: links_first links_second route_refines)
  next
    case 2
    then show ?thesis
      by cases (auto simp: links_of_def intro: links_first links_second sends_refines)
  next
    case 3
    then show ?thesis by cases (simp_all add: links_of_def fail_refines)
  qed
qed

lemma link_of_start: "0 < n \<Longrightarrow> links_of (connection_start n) = (link_start, link_start)"
  by (simp add: links_of_def link_of_def connection_start_def link_start_def last_replicate) (simp add: copy_start_def)

text \<open>The tasks stop, and what was put on a link stays put.\<close>

definition all_work :: "connection \<Rightarrow> nat" where
  "all_work c = work_left (outward c) + work_left (inward c)"

lemma inner_step_work: "inner_step c c' \<Longrightarrow> all_work c' < all_work c"
  by (induction rule: inner_step.induct) (simp_all add: all_work_def route_step_work)

lemma inner_wf: "wf {(c', c). inner_step c c'}"
  by (rule wf_subset [OF wf_measure [of all_work]]) (auto dest: inner_step_work)

lemma inner_ends: "\<not> (\<exists>f. f 0 = c \<and> (\<forall>i. inner_step (f i) (f (Suc i))))"
  using inner_wf unfolding wf_iff_no_infinite_down_chain by blast

lemma inner_stops: "\<exists>c'. inner_step\<^sup>*\<^sup>* c c' \<and> \<not> (\<exists>c''. inner_step c' c'')"
proof (induction c rule: wf_induct_rule [OF inner_wf])
  case (1 c)
  show ?case
  proof (cases "\<exists>c'. inner_step c c'")
    case True
    then obtain d where "inner_step c d" by blast
    with 1 [of d] show ?thesis by (auto intro: converse_rtranclp_into_rtranclp)
  qed auto
qed

lemma inner_puts: "inner_step\<^sup>*\<^sup>* c c' \<Longrightarrow> put (fst (links_of c')) = put (fst (links_of c))
    \<and> put (snd (links_of c')) = put (snd (links_of c))
    \<and> put_end (fst (links_of c')) = put_end (fst (links_of c))
    \<and> put_end (snd (links_of c')) = put_end (snd (links_of c))"
  by (induction rule: rtranclp_induct)
    (auto elim!: inner_step.cases simp: links_of_def link_of_def dest: route_step_head)

lemma talks_inner: "talks n c \<Longrightarrow> inner_step\<^sup>*\<^sup>* c c' \<Longrightarrow> talks n c'"
  by (rotate_tac, induction rule: rtranclp_induct) (auto intro: rtranclp.rtrancl_into_rtrancl)

lemma route_ok_nth: "route_ok r \<Longrightarrow> i < length r \<Longrightarrow> copy_ok (r ! i)"
proof (induction r arbitrary: i)
  case (Cons d r)
  then show ?case by (cases i) (auto simp: route_ok_Cons)
qed simp

lemma lengths_reach: "talks_or_fails n c \<Longrightarrow> length (outward c) = n \<and> length (inward c) = n"
  by (induction rule: rtranclp_induct)
    (auto simp: connection_start_def elim!: inner_step.cases outer_step.cases fail_step.cases side_sends.cases
      dest: route_step_ne route_fail_length)

definition tallies_ok :: "nat \<Rightarrow> connection \<Rightarrow> bool" where
  "tallies_ok m c \<longleftrightarrow> (\<forall>d \<in> set (outward c) \<union> set (inward c). count_ok m d)"

lemma count_route_step: "route_step r r' \<Longrightarrow> BUF_SIZE \<le> m \<Longrightarrow> \<forall>d \<in> set r. count_ok m d \<Longrightarrow> \<forall>d \<in> set r'. count_ok m d"
  by (induction rule: route_step.induct) (auto dest: count_ok_step count_ok_environment)

lemma count_route_fail: "route_fail r r' \<Longrightarrow> \<forall>d \<in> set r. count_ok m d \<Longrightarrow> \<forall>d \<in> set r'. count_ok m d"
  by (induction rule: route_fail.induct) (auto dest: count_ok_fail)

lemma count_sends: "side_sends r r' \<Longrightarrow> \<forall>d \<in> set r. count_ok m d \<Longrightarrow> \<forall>d \<in> set r'. count_ok m d"
  by (induction rule: side_sends.induct) (auto dest: count_ok_environment)

lemma tallies_ok_move [invariants]: "any_move c c' \<Longrightarrow> BUF_SIZE \<le> m \<Longrightarrow> tallies_ok m c \<Longrightarrow> tallies_ok m c'"
  by (auto simp: tallies_ok_def elim!: inner_step.cases outer_step.cases fail_step.cases
      dest: count_route_step count_route_fail count_sends)

lemma tallies_ok_reach: "talks_or_fails n c \<Longrightarrow> tallies_ok BUF_SIZE c"
proof (induction rule: rtranclp_induct)
  case base
  show ?case by (auto simp: tallies_ok_def connection_start_def count_ok_start)
qed (rule tallies_ok_move [OF _ order_refl])

section \<open>Properties\<close>

text \<open>
  C6: Two programs that talk through a splice, or through a reverse tunnel of two, see nothing that a
  direct connection between them could not have shown. Whatever the order in which the tasks read,
  write and fail and either side sends, answers or finishes, every step is a step of one of two
  plain first-in first-out links, or none: bytes come out once, in order and unchanged, and a writer
  is shut down only after all of them. A failure cuts a direction off; how the sockets look when they
  are dropped after it is up to the operating system.
\<close>

theorem splice_refines_links:
  assumes "0 < n" and "talks_or_fails n c"
  shows "links_step\<^sup>*\<^sup>* (link_start, link_start) (links_of c)
    \<and> (\<forall>c'. any_move c c' \<longrightarrow> links_step\<^sup>*\<^sup>* (links_of c) (links_of c'))"
proof
  from assms(2) show "links_step\<^sup>*\<^sup>* (link_start, link_start) (links_of c)"
  proof (induction rule: rtranclp_induct)
    case base
    show ?case by (simp add: link_of_start assms(1))
  next
    case (step c c')
    from step.IH move_refines [OF step(2) connection_ok_reach [OF step(1) assms(1)]] show ?case
      by (rule rtranclp_trans)
  qed
  show "\<forall>c'. any_move c c' \<longrightarrow> links_step\<^sup>*\<^sup>* (links_of c) (links_of c')"
    using move_refines connection_ok_reach [OF assms(2,1)] by blast
qed


text \<open>
  C18: The live counters tell the truth. At any moment, whatever fails, the counter of a direction is
  the number of bytes written in it (modulo \<open>2 ^ 64\<close>), less at most one buffer of 16 KiB that is
  being written; and when the splice has returned without an error, both directions had seen the
  end of their stream, had written every byte that had arrived, and the counters are exact.
\<close>

theorem splice_counters:
  assumes "0 < n" and "talks_or_fails n c" and "k < n"
  defines "d \<equiv> outward c ! k" and "e \<equiv> inward c ! (n - 1 - k)"
  shows "(\<exists>i. counted d = word_of_nat i \<and> i \<le> length (delivered d) \<and> length (delivered d) \<le> i + 16384)
    \<and> (\<exists>i. counted e = word_of_nat i \<and> i \<le> length (delivered e) \<and> length (delivered e) \<le> i + 16384)
    \<and> (pipe_result d e = Some (Inr ()) \<longrightarrow>
         over d \<and> delivered d = arrived d \<and> counted d = word_of_nat (length (arrived d))
         \<and> over e \<and> delivered e = arrived e \<and> counted e = word_of_nat (length (arrived e)))"
proof -
  have "copy_ok d" "copy_ok e"
    using connection_ok_reach [OF assms(2,1)] lengths_reach [OF assms(2)] assms(3)
    by (auto simp: connection_ok_def d_def e_def intro: route_ok_nth)
  moreover have "count_ok BUF_SIZE d" "count_ok BUF_SIZE e"
    using tallies_ok_reach [OF assms(2)] lengths_reach [OF assms(2)] assms(3)
    by (auto simp: tallies_ok_def d_def e_def)
  moreover have "(\<exists>i. counted x = word_of_nat i \<and> i \<le> length (delivered x) \<and> length (delivered x) \<le> i + 16384)
      \<and> (doing x = Ended (Inr ()) \<longrightarrow> over x \<and> delivered x = arrived x \<and> counted x = word_of_nat (length (arrived x)))"
    if "copy_ok x" "count_ok BUF_SIZE x" for x
    using that by (auto simp: copy_defs count_ok_def BUF_SIZE_def)
  moreover have "pipe_result d e = Some (Inr ()) \<Longrightarrow> doing d = Ended (Inr ()) \<and> doing e = Ended (Inr ())"
    by (auto simp: pipe_result_def rbind_eq_Inr_iff split: copy_point.splits)
  ultimately show ?thesis by blast
qed

text \<open>What a task that has returned normally did is what \<open>pump\<close> computes from the same bytes.\<close>

lemma copy_as_pump:
  assumes "copy_ok d" and "count_ok m d" and "closed d" and "concat ss = arrived d"
  shows "pump sink_write sink_shutdown ss EndOfStream new_sink 0 =
    (Inr (), sink_shutdown (sink_put (delivered d) new_sink), counted d)"
proof -
  have "delivered d = arrived d" "counted d = word_of_nat (length (arrived d))"
    using assms(1-3) by (auto simp: copy_defs count_ok_def)
  then show ?thesis using assms(4) by (simp add: pump_open sink_ok_def new_sink_def)
qed

section \<open>A conversation\<close>

text \<open>A tunnel of two splices; one side has said hi and has not finished.\<close>

definition said_hi :: connection where
  "said_hi = \<lparr>outward = [take_in [104, 105] copy_start, copy_start], inward = [copy_start, copy_start]\<rparr>"

lemma talks_said_hi: "talks 2 said_hi"
proof -
  have "outer_step (connection_start 2) (connection_start 2\<lparr>outward := take_in [104, 105] copy_start # [copy_start]\<rparr>)"
    using says [of "[104, 105]" copy_start "[copy_start]"]
    by (intro sends_there) (simp add: connection_start_def numeral_2_eq_2 copy_start_def)
  then show ?thesis by (auto simp: said_hi_def connection_start_def numeral_2_eq_2)
qed

theorem splice_refines_links_witness:
  "\<exists>c :: connection. talks_or_fails 2 c \<and> fst (links_of c) \<noteq> link_start
     \<and> links_step\<^sup>*\<^sup>* (link_start, link_start) (links_of c)"
proof -
  have "fst (links_of said_hi) \<noteq> link_start"
    by (simp add: links_of_def link_of_def said_hi_def link_start_def copy_start_def take_in_def)
  with splice_refines_links [OF _ talks_moves [OF talks_said_hi]] talks_moves [OF talks_said_hi] show ?thesis
    by auto
qed


text \<open>A forwarder, where one side has said hi and both have finished.\<close>

definition said_bye :: connection where
  "said_bye = \<lparr>outward = [take_end (take_in [104, 105] copy_start)], inward = [take_end copy_start]\<rparr>"

lemma talks_said_bye: "talks 1 said_bye"
proof -
  let ?c = "connection_start 1\<lparr>outward := [take_in [104, 105] copy_start]\<rparr>"
  let ?d = "?c\<lparr>outward := [take_end (take_in [104, 105] copy_start)]\<rparr>"
  have "outer_step (connection_start 1) ?c"
    using says [of "[104, 105]" copy_start "[]"]
    by (intro sends_there) (simp add: connection_start_def copy_start_def)
  moreover have "outer_step ?c ?d"
    using finishes [of "take_in [104, 105] copy_start" "[]"] by (intro sends_there) (simp add: copy_start_def)
  moreover have "outer_step ?d (?d\<lparr>inward := [take_end copy_start]\<rparr>)"
    using finishes [of copy_start "[]"] by (intro sends_back) (simp add: connection_start_def copy_start_def)
  ultimately have "(sup inner_step outer_step)\<^sup>*\<^sup>* (connection_start 1) (?d\<lparr>inward := [take_end copy_start]\<rparr>)"
    by (blast intro: sup2I2 r_into_rtranclp rtranclp_trans)
  moreover have "?d\<lparr>inward := [take_end copy_start]\<rparr> = said_bye" by (simp add: said_bye_def)
  ultimately show ?thesis by simp
qed

lemma said_bye_ends:
  "\<exists>c :: connection. talks 1 c \<and> arrived (outward c ! 0) = [104, 105]
     \<and> pipe_result (outward c ! 0) (inward c ! 0) = Some (Inr ())"
proof -
  obtain c where c: "inner_step\<^sup>*\<^sup>* said_bye c" "\<not> (\<exists>c'. inner_step c c')" using inner_stops by blast
  have reach: "talks 1 c" using talks_said_bye c(1) by (rule talks_inner)
  have ok: "connection_ok c" using connection_ok_reach [OF talks_moves [OF reach]] by simp
  obtain d e where de: "outward c = [d]" "inward c = [e]"
    using lengths_reach [OF talks_moves [OF reach]] by (auto simp: length_Suc_conv)
  have "\<not> (\<exists>r. route_step [d] r)" "\<not> (\<exists>r. route_step [e] r)"
    using c(2) step_there step_back unfolding de [symmetric] by blast+
  moreover have "sound d" "sound e" using all_sound_talks [OF reach] by (simp_all add: all_sound_def de)
  moreover have p: "arrived d = [104, 105]" "over d" "over e"
    using inner_puts [OF c(1)] by (simp_all add: links_of_def link_of_def said_bye_def de copy_start_def)
  ultimately have "closed d" "closed e"
    using stuck_delivered [of "[d]"] stuck_delivered [of "[e]"] ok by (simp_all add: connection_ok_def de)
  then have "doing d = Ended (Inr ())" "doing e = Ended (Inr ())"
    using ok by (simp_all add: connection_ok_def de copy_ok_def end_ok_def)
  with reach p(1) de show ?thesis by (intro exI [of _ c]) (simp add: pipe_result_def)
qed

theorem splice_counters_witness:
  "\<exists>c :: connection. talks_or_fails 1 c \<and> pipe_result (outward c ! 0) (inward c ! 0) = Some (Inr ())
     \<and> delivered (outward c ! 0) = [104, 105] \<and> counted (outward c ! 0) = 2"
proof -
  obtain c :: connection where c: "talks 1 c" "arrived (outward c ! 0) = [104, 105]"
    "pipe_result (outward c ! 0) (inward c ! 0) = Some (Inr ())"
    using said_bye_ends by blast
  with splice_counters [OF _ talks_moves [OF c(1)], of 0] talks_moves [OF c(1)] show ?thesis by auto
qed

end
