(* ===== verification/Live_Tunnel.thy ===== *)
theory Live_Tunnel
  imports Live_Pipe Reverse_Tunnel
begin

text \<open>
  One tunnelled connection with both ends at work at the same time: \<open>relay\<close> on A
  (\<open>reverse/serve.rs\<close>) and \<open>handle_inbound_stream\<close> on B (\<open>reverse/connect.rs\<close>), the mux stream
  between them and the two peers, as interleaved steps. \<open>Reverse_Tunnel\<close> computes what each end does
  with a stream that is known beforehand; here A may still be sending the header while the
  client talks, B may answer while A feeds it, and the target may wait for the client or the client
  for the target. The four copy tasks are those of \<open>Live_Pipe\<close>.
\<close>

section \<open>The two ends and the stream between them\<close>

text \<open>Where the future of \<open>relay\<close> is, and that of \<open>handle_inbound_stream\<close>; shutdown may drop either.\<close>

datatype relay_point = SendingHeader "byte list" | AwaitingAnswer | Relaying
  | Relayed "relay_error + unit" | RelayDropped

datatype inbound_point = ReadingFrame | Dialling string | Accepting string | Refusing string
  | Serving string | Served "inbound_error + unit" | InboundDropped

text \<open>
  \<open>feeding\<close>: the task that feeds B has been spawned and not aborted. For each direction of the
  stream there are the bytes a side wrote before its copy task (\<open>header_sent\<close>, \<open>answer_sent\<close>), those
  the other side has read before its own (\<open>header_read\<close>, \<open>answer_read\<close>), those that have arrived
  there and were not read yet, and whether the end has.
\<close>

record live_tunnel =
  at_a :: relay_point
  at_b :: inbound_point
  feeding :: bool
  to_b :: copy_task
  from_a :: copy_task
  from_target :: copy_task
  from_b :: copy_task
  header_sent :: "byte list"
  header_read :: "byte list"
  waiting_b :: "byte list"
  ended_b :: bool
  answer_sent :: "byte list"
  answer_read :: "byte list"
  waiting_a :: "byte list"
  ended_a :: bool

text \<open>
  \<open>relay\<close> just after \<open>open_stream\<close>. The task that will feed B starts with the bytes that were already
  read from the client: it writes them and adds their number to its counter, as it does with a
  chunk, and goes on to \<open>pump\<close>.
\<close>

definition feed_start :: "byte list \<Rightarrow> copy_task" where
  "feed_start pre = copy_start\<lparr>arrived := pre,
     doing := (if pre = [] then Reading else Writing pre (length pre))\<rparr>"

definition tunnel_start :: "string \<Rightarrow> byte list \<Rightarrow> live_tunnel" where
  "tunnel_start name pre = \<lparr>at_a = SendingHeader (frame_bytes (as_bytes name)), at_b = ReadingFrame, feeding = False,
     to_b = feed_start pre, from_a = copy_start, from_target = copy_start, from_b = copy_start,
     header_sent = [], header_read = [], waiting_b = [], ended_b = False,
     answer_sent = [], answer_read = [], waiting_a = [], ended_a = False\<rparr>"

text \<open>The bytes written to the stream, and those that have arrived, in each direction.\<close>

definition sent_to_b :: "live_tunnel \<Rightarrow> byte list" where
  "sent_to_b t = header_sent t @ delivered (to_b t)"

definition seen_by_b :: "live_tunnel \<Rightarrow> byte list" where
  "seen_by_b t = header_read t @ waiting_b t @ arrived (from_a t)"

definition sent_to_a :: "live_tunnel \<Rightarrow> byte list" where
  "sent_to_a t = answer_sent t @ delivered (from_target t)"

definition seen_by_a :: "live_tunnel \<Rightarrow> byte list" where
  "seen_by_a t = answer_read t @ waiting_a t @ arrived (from_b t)"

text \<open>A copy task that starts on a stream of which a part has arrived already.\<close>

definition take_over :: "byte list \<Rightarrow> bool \<Rightarrow> copy_task \<Rightarrow> copy_task" where
  "take_over bs eof d = (if eof then take_end (take_in bs d) else take_in bs d)"

section \<open>A's steps\<close>

inductive a_step :: "string \<Rightarrow> live_tunnel \<Rightarrow> live_tunnel \<Rightarrow> bool" for name where
  sends_header: "at_a t = SendingHeader rest \<Longrightarrow> 0 < k \<Longrightarrow> k \<le> length rest \<Longrightarrow>
    a_step name t (t\<lparr>at_a := SendingHeader (drop k rest), header_sent := header_sent t @ take k rest\<rparr>)"
| starts_feeding: "at_a t = SendingHeader [] \<Longrightarrow> a_step name t (t\<lparr>at_a := AwaitingAnswer, feeding := True\<rparr>)"
| feeds_b: "feeding t \<Longrightarrow> copy_step (to_b t) d \<Longrightarrow> a_step name t (t\<lparr>to_b := d\<rparr>)"
| answered: "at_a t = AwaitingAnswer \<Longrightarrow> waiting_a t = 1 # bs \<Longrightarrow>
    a_step name t (t\<lparr>at_a := Relaying, answer_read := [1], waiting_a := [],
      from_b := take_over bs (ended_a t) (from_b t)\<rparr>)"
| turned_down: "at_a t = AwaitingAnswer \<Longrightarrow> waiting_a t = x # bs \<Longrightarrow> x \<noteq> 1 \<Longrightarrow>
    a_step name t (t\<lparr>at_a := Relayed (Inl (TargetUnreachable name)), answer_read := [x], waiting_a := bs\<rparr>)"
| unanswered: "at_a t = AwaitingAnswer \<Longrightarrow> waiting_a t = [] \<Longrightarrow> ended_a t \<Longrightarrow>
    a_step name t (t\<lparr>at_a := Relayed (Inl (WaitingForB UnexpectedEof))\<rparr>)"
| stops_feeding: "at_a t = Relayed (Inl e) \<Longrightarrow> feeding t \<Longrightarrow> a_step name t (t\<lparr>feeding := False\<rparr>)"
| feeds_client: "at_a t = Relaying \<Longrightarrow> copy_step (from_b t) d \<Longrightarrow> a_step name t (t\<lparr>from_b := d\<rparr>)"
| a_returns: "at_a t = Relaying \<Longrightarrow> doing (to_b t) = Ended r1 \<Longrightarrow> doing (from_b t) = Ended r2 \<Longrightarrow>
    a_step name t (t\<lparr>at_a := Relayed (rbind (map_err CopyToB r1) (\<lambda>_. map_err CopyFromB r2))\<rparr>)"

section \<open>B's steps\<close>

text \<open>\<open>read_frame\<close> as the reads it makes: first the two bytes of the length, then as many as it says.\<close>

definition frame_wants :: "byte list \<Rightarrow> nat" where
  "frame_wants bs = (if length bs < 2 then 2 - length bs else 2 + from_be16 (bs ! 0) (bs ! 1) - length bs)"

definition frame_too_long :: "byte list \<Rightarrow> bool" where
  "frame_too_long bs \<longleftrightarrow> 2 \<le> length bs \<and> MAX_NAME_LEN < from_be16 (bs ! 0) (bs ! 1)"

definition look_up :: "(string \<rightharpoonup> string) \<Rightarrow> byte list \<Rightarrow> inbound_point" where
  "look_up targets name_bytes = (case from_utf8 name_bytes of
     None \<Rightarrow> Served (Inl HeaderNotUtf8)
   | Some name \<Rightarrow> (case targets name of
       None \<Rightarrow> Served (Inl (UnknownTunnel name)) | Some target_addr \<Rightarrow> Dialling target_addr))"

text \<open>\<open>reach\<close>: the addresses where a connection is accepted.\<close>

inductive b_step :: "(string \<rightharpoonup> string) \<Rightarrow> (string \<Rightarrow> bool) \<Rightarrow> live_tunnel \<Rightarrow> live_tunnel \<Rightarrow> bool" for targets reach where
  reads_frame: "at_b t = ReadingFrame \<Longrightarrow> \<not> frame_too_long (header_read t) \<Longrightarrow> 0 < k \<Longrightarrow>
    k \<le> frame_wants (header_read t) \<Longrightarrow> k \<le> length (waiting_b t) \<Longrightarrow>
    b_step targets reach t (t\<lparr>header_read := header_read t @ take k (waiting_b t), waiting_b := drop k (waiting_b t)\<rparr>)"
| too_long: "at_b t = ReadingFrame \<Longrightarrow> frame_too_long (header_read t) \<Longrightarrow>
    b_step targets reach t (t\<lparr>at_b := Served (Inl (ReadingHeader InvalidData))\<rparr>)"
| cut_short: "at_b t = ReadingFrame \<Longrightarrow> \<not> frame_too_long (header_read t) \<Longrightarrow> 0 < frame_wants (header_read t) \<Longrightarrow>
    waiting_b t = [] \<Longrightarrow> ended_b t \<Longrightarrow>
    b_step targets reach t (t\<lparr>at_b := Served (Inl (ReadingHeader UnexpectedEof))\<rparr>)"
| looks_up: "at_b t = ReadingFrame \<Longrightarrow> \<not> frame_too_long (header_read t) \<Longrightarrow> frame_wants (header_read t) = 0 \<Longrightarrow>
    b_step targets reach t (t\<lparr>at_b := look_up targets (drop 2 (header_read t))\<rparr>)"
| dials: "at_b t = Dialling a \<Longrightarrow> b_step targets reach t (t\<lparr>at_b := (if reach a then Accepting a else Refusing a)\<rparr>)"
| refuses: "at_b t = Refusing a \<Longrightarrow>
    b_step targets reach t (t\<lparr>at_b := Served (Inl (DialFailed a)), answer_sent := [0]\<rparr>)"
| accepts: "at_b t = Accepting a \<Longrightarrow>
    b_step targets reach t (t\<lparr>at_b := Serving a, answer_sent := [1], waiting_b := [],
      from_a := take_over (waiting_b t) (ended_b t) (from_a t)\<rparr>)"
| feeds_target: "at_b t = Serving a \<Longrightarrow> copy_step (from_a t) d \<Longrightarrow> b_step targets reach t (t\<lparr>from_a := d\<rparr>)"
| feeds_a: "at_b t = Serving a \<Longrightarrow> copy_step (from_target t) d \<Longrightarrow> b_step targets reach t (t\<lparr>from_target := d\<rparr>)"
| b_returns: "at_b t = Serving a \<Longrightarrow> pipe_result (from_a t) (from_target t) = Some r \<Longrightarrow>
    b_step targets reach t (t\<lparr>at_b := Served (map_err InboundCopy r)\<rparr>)"

section \<open>The mux stream and the peers\<close>

definition before_splice :: "inbound_point \<Rightarrow> bool" where
  "before_splice p \<longleftrightarrow> p = ReadingFrame \<or> (\<exists>a. p \<in> {Dialling a, Accepting a, Refusing a})"

definition before_answer :: "relay_point \<Rightarrow> bool" where
  "before_answer p \<longleftrightarrow> p = AwaitingAnswer \<or> (\<exists>rest. p = SendingHeader rest)"

text \<open>B has returned, or was dropped, without serving the connection, which drops its side of the stream.\<close>

definition turned_away :: "live_tunnel \<Rightarrow> bool" where
  "turned_away t \<longleftrightarrow> (at_b t = InboundDropped \<or> (\<exists>e. at_b t = Served (Inl e))) \<and> answer_sent t \<noteq> [1]"

text \<open>
  The multiplexer: bytes arrive in order and in any pieces, the end of the stream after all of
  them, once the writer has shut it down or B has dropped it.
\<close>

inductive stream_step :: "live_tunnel \<Rightarrow> live_tunnel \<Rightarrow> bool" where
  to_b_early: "before_splice (at_b t) \<Longrightarrow> bs \<noteq> [] \<Longrightarrow> prefix (seen_by_b t @ bs) (sent_to_b t) \<Longrightarrow>
    stream_step t (t\<lparr>waiting_b := waiting_b t @ bs\<rparr>)"
| to_b_late: "at_b t = Serving a \<Longrightarrow> bs \<noteq> [] \<Longrightarrow> prefix (seen_by_b t @ bs) (sent_to_b t) \<Longrightarrow> \<not> over (from_a t) \<Longrightarrow>
    stream_step t (t\<lparr>from_a := take_in bs (from_a t)\<rparr>)"
| end_to_b_early: "before_splice (at_b t) \<Longrightarrow> closed (to_b t) \<Longrightarrow> seen_by_b t = sent_to_b t \<Longrightarrow> \<not> ended_b t \<Longrightarrow>
    stream_step t (t\<lparr>ended_b := True\<rparr>)"
| end_to_b_late: "at_b t = Serving a \<Longrightarrow> closed (to_b t) \<Longrightarrow> seen_by_b t = sent_to_b t \<Longrightarrow> \<not> over (from_a t) \<Longrightarrow>
    stream_step t (t\<lparr>from_a := take_end (from_a t)\<rparr>)"
| to_a_early: "before_answer (at_a t) \<Longrightarrow> bs \<noteq> [] \<Longrightarrow> prefix (seen_by_a t @ bs) (sent_to_a t) \<Longrightarrow>
    stream_step t (t\<lparr>waiting_a := waiting_a t @ bs\<rparr>)"
| to_a_late: "at_a t = Relaying \<Longrightarrow> bs \<noteq> [] \<Longrightarrow> prefix (seen_by_a t @ bs) (sent_to_a t) \<Longrightarrow> \<not> over (from_b t) \<Longrightarrow>
    stream_step t (t\<lparr>from_b := take_in bs (from_b t)\<rparr>)"
| end_to_a_early: "before_answer (at_a t) \<Longrightarrow> closed (from_target t) \<or> turned_away t \<Longrightarrow> seen_by_a t = sent_to_a t \<Longrightarrow>
    \<not> ended_a t \<Longrightarrow> stream_step t (t\<lparr>ended_a := True\<rparr>)"
| end_to_a_late: "at_a t = Relaying \<Longrightarrow> closed (from_target t) \<Longrightarrow> seen_by_a t = sent_to_a t \<Longrightarrow> \<not> over (from_b t) \<Longrightarrow>
    stream_step t (t\<lparr>from_b := take_end (from_b t)\<rparr>)"

text \<open>The client may send at any time, the target once B has its connection.\<close>

inductive peer_step :: "live_tunnel \<Rightarrow> live_tunnel \<Rightarrow> bool" where
  client_sends: "side_sends [to_b t] [d] \<Longrightarrow> peer_step t (t\<lparr>to_b := d\<rparr>)"
| target_sends: "at_b t \<in> {Accepting a, Serving a} \<Longrightarrow> side_sends [from_target t] [d] \<Longrightarrow>
    peer_step t (t\<lparr>from_target := d\<rparr>)"

text \<open>
  What may fail: a read or a write of either end before the splice, and the copy tasks. Shutdown may
  drop the future of either end: with that of A goes the task that feeds B, whose handle aborts it;
  the copy tasks of B are detached and go on, so dropping its future while it serves changes nothing
  here.
\<close>

inductive tunnel_fail :: "live_tunnel \<Rightarrow> live_tunnel \<Rightarrow> bool" where
  header_lost: "at_a t = SendingHeader rest \<Longrightarrow> tunnel_fail t (t\<lparr>at_a := Relayed (Inl (SendingTunnelHeader e))\<rparr>)"
| answer_lost: "at_a t = AwaitingAnswer \<Longrightarrow> tunnel_fail t (t\<lparr>at_a := Relayed (Inl (WaitingForB e))\<rparr>)"
| frame_lost: "at_b t = ReadingFrame \<Longrightarrow> tunnel_fail t (t\<lparr>at_b := Served (Inl (ReadingHeader e))\<rparr>)"
| ack_lost: "at_b t = Accepting a \<Longrightarrow> tunnel_fail t (t\<lparr>at_b := Served (Inl (Acknowledging e))\<rparr>)"
| nack_lost: "at_b t = Refusing a \<Longrightarrow> tunnel_fail t (t\<lparr>at_b := Served (Inl (DialFailed a))\<rparr>)"
| to_b_fails: "feeding t \<Longrightarrow> copy_fail (to_b t) d \<Longrightarrow> tunnel_fail t (t\<lparr>to_b := d\<rparr>)"
| from_b_fails: "at_a t = Relaying \<Longrightarrow> copy_fail (from_b t) d \<Longrightarrow> tunnel_fail t (t\<lparr>from_b := d\<rparr>)"
| from_a_fails: "at_b t = Serving a \<Longrightarrow> copy_fail (from_a t) d \<Longrightarrow> tunnel_fail t (t\<lparr>from_a := d\<rparr>)"
| relay_dropped: "\<forall>r. at_a t \<noteq> Relayed r \<Longrightarrow> tunnel_fail t (t\<lparr>at_a := RelayDropped, feeding := False\<rparr>)"
| inbound_dropped: "before_splice (at_b t) \<Longrightarrow> tunnel_fail t (t\<lparr>at_b := InboundDropped\<rparr>)"
| from_target_fails: "at_b t = Serving a \<Longrightarrow> copy_fail (from_target t) d \<Longrightarrow> tunnel_fail t (t\<lparr>from_target := d\<rparr>)"

abbreviation tunnel_step :: "(string \<rightharpoonup> string) \<Rightarrow> (string \<Rightarrow> bool) \<Rightarrow> string \<Rightarrow> live_tunnel \<Rightarrow> live_tunnel \<Rightarrow> bool" where
  "tunnel_step targets reach name \<equiv> sup (sup (a_step name) (b_step targets reach)) stream_step"

abbreviation tunnel_move :: "(string \<rightharpoonup> string) \<Rightarrow> (string \<Rightarrow> bool) \<Rightarrow> string \<Rightarrow> live_tunnel \<Rightarrow> live_tunnel \<Rightarrow> bool" where
  "tunnel_move targets reach name \<equiv> sup (sup (tunnel_step targets reach name) peer_step) tunnel_fail"

text \<open>The two directions, as the routes of \<open>Live_Pipe\<close>.\<close>

definition pipes :: "live_tunnel \<Rightarrow> connection" where
  "pipes t = \<lparr>outward = [to_b t, from_a t], inward = [from_target t, from_b t]\<rparr>"

abbreviation tunnel_links :: "live_tunnel \<Rightarrow> link \<times> link" where
  "tunnel_links t \<equiv> links_of (pipes t)"


section \<open>The header on the wire\<close>

definition frame_fits :: "byte list \<Rightarrow> bool" where
  "frame_fits bs \<longleftrightarrow> length bs < 2 \<or> length bs \<le> 2 + from_be16 (bs ! 0) (bs ! 1)"

lemma frame_fits_read: "frame_fits bs \<Longrightarrow> length cs \<le> frame_wants bs \<Longrightarrow> frame_fits (bs @ cs)"
  by (auto simp: frame_fits_def frame_wants_def nth_append split: if_splits)

lemma frame_start:
  assumes "prefix bs (frame_bytes d @ z)" and "length d \<le> 65535" and "2 \<le> length bs"
  shows "\<exists>cs. bs = to_be16 (length d) @ cs \<and> from_be16 (bs ! 0) (bs ! 1) = length d"
proof -
  obtain r where "frame_bytes d @ z = bs @ r" using assms(1) by (auto simp: prefix_def)
  then have "to_be16 (length d) @ (d @ z) = take 2 bs @ (drop 2 bs @ r)" by (simp add: frame_bytes_def)
  then have "take 2 bs = to_be16 (length d)" using assms(3) by (subst (asm) append_eq_append_conv) simp_all
  then have bs: "bs = to_be16 (length d) @ drop 2 bs" by (metis append_take_drop_id)
  moreover have "from_be16 ((to_be16 (length d) @ drop 2 bs) ! 0) ((to_be16 (length d) @ drop 2 bs) ! 1) = length d"
    using assms(2) by (simp add: to_be16_def)
  ultimately show ?thesis by metis
qed

lemma frame_read_prefix:
  assumes "prefix bs (frame_bytes d @ z)" and "length d \<le> 65535" and "frame_fits bs"
  shows "prefix bs (frame_bytes d)"
    and "frame_wants bs = 0 \<Longrightarrow> bs = frame_bytes d"
    and "frame_too_long bs \<longleftrightarrow> 2 \<le> length bs \<and> MAX_NAME_LEN < length d"
    and "bs = frame_bytes d \<Longrightarrow> frame_wants bs = 0"
proof -
  have len: "length bs \<le> length (frame_bytes d)"
    using frame_start [OF assms(1,2)] assms(3) by (cases "2 \<le> length bs") (auto simp: frame_fits_def)
  with assms(1) show p: "prefix bs (frame_bytes d)"
    by (auto simp: prefix_append)
  show "frame_wants bs = 0 \<Longrightarrow> bs = frame_bytes d"
  proof -
    assume "frame_wants bs = 0"
    then have "length (frame_bytes d) \<le> length bs"
      using frame_start [OF assms(1,2)] by (auto simp: frame_wants_def split: if_splits)
    with p show ?thesis by (metis append_eq_conv_conj le_antisym prefix_length_le prefixE take_all)
  qed
  show "frame_too_long bs \<longleftrightarrow> 2 \<le> length bs \<and> MAX_NAME_LEN < length d"
    using frame_start [OF assms(1,2)] by (auto simp: frame_too_long_def)
  show "bs = frame_bytes d \<Longrightarrow> frame_wants bs = 0"
    using frame_start [OF assms(1,2)] by (auto simp: frame_wants_def)
qed

text \<open>The reads of \<open>b_step\<close> are those of \<open>read_frame\<close>.\<close>

lemma reads_as_read_frame:
  assumes "frame_fits bs" and "2 \<le> length bs" and "feed_bytes f = bs @ rest"
  shows "\<not> frame_too_long bs \<Longrightarrow> frame_wants bs = 0 \<Longrightarrow>
      \<exists>f'. read_frame feed_read_exact MAX_NAME_LEN f = (Inr (drop 2 bs), f') \<and> feed_bytes f' = rest"
    and "frame_too_long bs \<Longrightarrow> \<exists>f'. read_frame feed_read_exact MAX_NAME_LEN f = (Inl InvalidData, f')"
proof -
  let ?n = "from_be16 (bs ! 0) (bs ! 1)"
  have two: "take 2 bs = [bs ! 0, bs ! 1]" using assms(2) by (cases bs; cases "tl bs") auto
  then have "take 2 bs = to_be16 ?n" by simp
  then have bs: "bs = to_be16 ?n @ drop 2 bs" by (metis append_take_drop_id)
  have n: "?n \<le> 65535" by (rule from_be16_le)
  {
    assume "\<not> frame_too_long bs" "frame_wants bs = 0"
    then have "length (drop 2 bs) = ?n" "?n \<le> MAX_NAME_LEN"
      using assms(1,2) by (auto simp: frame_wants_def frame_fits_def frame_too_long_def)
    moreover from this have "feed_bytes f = frame_bytes (drop 2 bs) @ rest" using assms(3) bs by (simp add: frame_bytes_def)
    ultimately show "\<exists>f'. read_frame feed_read_exact MAX_NAME_LEN f = (Inr (drop 2 bs), f') \<and> feed_bytes f' = rest"
      using feed.read_frame_written n by metis
  next
    assume "frame_too_long bs"
    then have "MAX_NAME_LEN < ?n" by (simp add: frame_too_long_def)
    moreover have "feed_bytes f = to_be16 ?n @ (drop 2 bs @ rest)" using assms(3) bs by simp
    ultimately show "\<exists>f'. read_frame feed_read_exact MAX_NAME_LEN f = (Inl InvalidData, f')"
      using feed.read_frame_too_long n by metis
  }
qed

section \<open>The invariant\<close>

abbreviation header_of :: "string \<Rightarrow> byte list" where
  "header_of name \<equiv> frame_bytes (as_bytes name)"

text \<open>B serves connections of this tunnel.\<close>

definition servable :: "(string \<rightharpoonup> string) \<Rightarrow> (string \<Rightarrow> bool) \<Rightarrow> string \<Rightarrow> bool" where
  "servable targets reach name \<longleftrightarrow> length name \<le> MAX_NAME_LEN
     \<and> (\<exists>a. look_up targets (as_bytes name) = Dialling a \<and> reach a)"

definition unstarted :: "copy_task \<Rightarrow> bool" where
  "unstarted d \<longleftrightarrow> delivered d = [] \<and> \<not> closed d"

definition a_ok :: "string \<Rightarrow> live_tunnel \<Rightarrow> bool" where
  "a_ok name t \<longleftrightarrow>
     (header_sent t = header_of name \<or> prefix (header_sent t) (header_of name) \<and> \<not> feeding t \<and> unstarted (to_b t))
     \<and> (\<forall>rest. at_a t = SendingHeader rest \<longrightarrow>
          header_sent t @ rest = header_of name \<and> \<not> feeding t \<and> unstarted (to_b t))
     \<and> (at_a t \<in> {AwaitingAnswer, Relaying} \<longrightarrow> header_sent t = header_of name)
     \<and> (answer_read t \<noteq> [1] \<longrightarrow> from_b t = copy_start)
     \<and> (before_answer (at_a t) \<longrightarrow> answer_read t = [])
     \<and> (at_a t = Relaying \<longrightarrow> answer_read t = [1] \<and> waiting_a t = [])"

definition b_ok :: "(string \<rightharpoonup> string) \<Rightarrow> (string \<Rightarrow> bool) \<Rightarrow> string \<Rightarrow> live_tunnel \<Rightarrow> bool" where
  "b_ok targets reach name t \<longleftrightarrow> frame_fits (header_read t)
     \<and> (answer_sent t \<noteq> [1] \<longrightarrow> from_a t = copy_start \<and> unstarted (from_target t) \<and> answer_sent t \<in> {[], [0]})
     \<and> (before_splice (at_b t) \<longrightarrow> answer_sent t = [])
     \<and> (\<forall>a. at_b t = Serving a \<longrightarrow> answer_sent t = [1] \<and> waiting_b t = [])
     \<and> (\<forall>a. at_b t \<in> {Dialling a, Accepting a, Refusing a, Serving a} \<longrightarrow> header_read t = header_of name
          \<and> length name \<le> MAX_NAME_LEN \<and> look_up targets (as_bytes name) = Dialling a)
     \<and> (\<forall>a. at_b t \<in> {Accepting a, Serving a} \<longrightarrow> reach a)
     \<and> (answer_sent t = [1] \<longrightarrow> servable targets reach name)"

definition wires_ok :: "live_tunnel \<Rightarrow> bool" where
  "wires_ok t \<longleftrightarrow> prefix (seen_by_b t) (sent_to_b t) \<and> (ended_b t \<longrightarrow> closed (to_b t) \<and> seen_by_b t = sent_to_b t)
     \<and> prefix (seen_by_a t) (sent_to_a t)
     \<and> (ended_a t \<longrightarrow> (closed (from_target t) \<or> turned_away t) \<and> seen_by_a t = sent_to_a t)"

definition tunnel_ok :: "(string \<rightharpoonup> string) \<Rightarrow> (string \<Rightarrow> bool) \<Rightarrow> string \<Rightarrow> live_tunnel \<Rightarrow> bool" where
  "tunnel_ok targets reach name t \<longleftrightarrow>
     connection_ok (pipes t) \<and> a_ok name t \<and> b_ok targets reach name t \<and> wires_ok t"

lemmas stream_defs = sent_to_b_def seen_by_b_def sent_to_a_def seen_by_a_def
lemmas point_defs = before_splice_def before_answer_def turned_away_def

lemma drop_frame_bytes [simp]: "drop 2 (frame_bytes d) = d"
  by (simp add: frame_bytes_def)

lemma copy_start_simps [simp]:
  "arrived copy_start = []" "over copy_start = False" "delivered copy_start = []" "closed copy_start = False" "unstarted copy_start"
  by (simp_all add: copy_start_def unstarted_def)

lemma take_over_simps [simp]:
  "arrived (take_over bs eof d) = arrived d @ bs" "over (take_over bs eof d) \<longleftrightarrow> eof \<or> over d"
  "delivered (take_over bs eof d) = delivered d" "closed (take_over bs eof d) = closed d"
  "doing (take_over bs eof d) = doing d"
  by (simp_all add: take_over_def)

lemma unstarted_simps [simp]: "unstarted (take_in bs d) = unstarted d" "unstarted (take_end d) = unstarted d" "unstarted (take_over bs eof d) = unstarted d"
  by (simp_all add: unstarted_def)

lemma pipes_ok:
  "connection_ok (pipes t) \<longleftrightarrow> route_ok [to_b t, from_a t] \<and> route_ok [from_target t, from_b t]"
  by (simp add: connection_ok_def pipes_def)

lemma copy_step_running: "copy_step d d' \<Longrightarrow> copy_ok d \<Longrightarrow> \<not> closed d \<and> prefix (delivered d) (delivered d')"
  using copy_step_closed copy_step_frame by (auto simp: copy_ok_def)

lemma header_read_prefix:
  assumes "a_ok name t" and "wires_ok t"
  shows "prefix (header_read t) (header_of name @ delivered (to_b t))"
proof -
  have "prefix (header_read t) (header_sent t @ delivered (to_b t))"
    using assms(2) by (auto simp: wires_ok_def stream_defs dest: append_prefixD)
  moreover have "prefix (header_sent t @ delivered (to_b t)) (header_of name @ delivered (to_b t))"
    using assms(1) by (auto simp: a_ok_def unstarted_def)
  ultimately show ?thesis by (rule prefix_order.trans)
qed

text \<open>What the task that feeds B has written is on the stream only after the whole header.\<close>

lemma waiting_is_payload:
  assumes "a_ok name t" and "wires_ok t" and "header_read t = header_of name"
  shows "prefix (waiting_b t @ arrived (from_a t)) (delivered (to_b t))
    \<and> (ended_b t \<longrightarrow> closed (to_b t) \<and> waiting_b t @ arrived (from_a t) = delivered (to_b t))"
proof -
  have "prefix (header_of name @ waiting_b t @ arrived (from_a t)) (header_sent t @ delivered (to_b t))"
    using assms(2,3) by (simp add: wires_ok_def stream_defs)
  moreover from this have "header_sent t = header_of name"
    using assms(1) by (auto simp: a_ok_def unstarted_def dest: append_prefixD prefix_order.antisym)
  ultimately show ?thesis using assms(2,3) by (auto simp: wires_ok_def stream_defs)
qed

lemma answer_is_first:
  assumes "b_ok targets reach name t" and "wires_ok t" and "answer_read t @ waiting_a t = 1 # bs"
  shows "answer_sent t = [1] \<and> prefix (bs @ arrived (from_b t)) (delivered (from_target t))
    \<and> (ended_a t \<longrightarrow> closed (from_target t) \<and> bs @ arrived (from_b t) = delivered (from_target t))"
proof -
  have seen: "seen_by_a t = 1 # bs @ arrived (from_b t)" using assms(3) by (simp add: seen_by_a_def)
  then have p: "prefix (1 # bs @ arrived (from_b t)) (answer_sent t @ delivered (from_target t))"
    using assms(2) by (simp add: wires_ok_def sent_to_a_def)
  then have "answer_sent t = [1]" using assms(1) by (auto simp: b_ok_def unstarted_def)
  with p seen assms(2) show ?thesis by (auto simp: wires_ok_def turned_away_def sent_to_a_def)
qed

subsection \<open>It is kept\<close>

lemma a_ok_a: "a_step name t t' \<Longrightarrow> a_ok name t \<Longrightarrow> a_ok name t'"
  by (induction rule: a_step.induct) (auto simp: a_ok_def before_answer_def prefix_def, metis append_take_drop_id)

lemma a_ok_b: "b_step targets reach t t' \<Longrightarrow> a_ok name t \<Longrightarrow> a_ok name t'"
  by (induction rule: b_step.induct) (simp_all add: a_ok_def)

lemma a_ok_mux: "stream_step t t' \<Longrightarrow> a_ok name t \<Longrightarrow> a_ok name t'"
  by (induction rule: stream_step.induct) (auto simp: a_ok_def before_answer_def)

lemma a_ok_peer: "peer_step t t' \<Longrightarrow> a_ok name t \<Longrightarrow> a_ok name t'"
  by (induction rule: peer_step.induct) (auto simp: a_ok_def elim!: side_sends.cases)

lemma a_ok_fail: "tunnel_fail t t' \<Longrightarrow> a_ok name t \<Longrightarrow> a_ok name t'"
  by (induction rule: tunnel_fail.induct) (auto simp: a_ok_def before_answer_def prefix_def)

lemma b_ok_a: "a_step name' t t' \<Longrightarrow> b_ok targets reach name t \<Longrightarrow> b_ok targets reach name t'"
  by (induction rule: a_step.induct) (simp_all add: b_ok_def)

lemma b_ok_mux: "stream_step t t' \<Longrightarrow> b_ok targets reach name t \<Longrightarrow> b_ok targets reach name t'"
  by (induction rule: stream_step.induct) (auto simp: b_ok_def before_splice_def)

lemma b_ok_peer: "peer_step t t' \<Longrightarrow> b_ok targets reach name t \<Longrightarrow> b_ok targets reach name t'"
  by (induction rule: peer_step.induct) (auto simp: b_ok_def elim!: side_sends.cases)

lemma b_ok_fail: "tunnel_fail t t' \<Longrightarrow> b_ok targets reach name t \<Longrightarrow> b_ok targets reach name t'"
  by (induction rule: tunnel_fail.induct) (auto simp: b_ok_def before_splice_def)

lemma looked_up: "look_up targets bs = p \<Longrightarrow> (\<exists>a. p = Dialling a) \<or> (\<exists>e. p = Served (Inl e))"
  by (auto simp: look_up_def split: option.splits)

lemma b_ok_b:
  assumes "b_step targets reach t t'" and "b_ok targets reach name t" and "a_ok name t" and "wires_ok t"
    and "length name \<le> 65535"
  shows "b_ok targets reach name t'"
  using assms(1)
proof cases
  case (reads_frame k)
  then show ?thesis using assms(2) frame_fits_read [of "header_read t" "take k (waiting_b t)"]
    by (auto simp: b_ok_def before_splice_def)
next
  case looks_up
  have "frame_fits (header_read t)" using assms(2) by (simp add: b_ok_def)
  note read = frame_read_prefix [OF header_read_prefix [OF assms(3,4)] _ this]
  have H: "header_read t = header_of name" using read(2) looks_up(4) assms(5) by simp
  then have "length name \<le> MAX_NAME_LEN" using read(3) looks_up(3) assms(5) by auto
  with H looks_up looked_up [of targets "as_bytes name"] assms(2) show ?thesis
    by (auto simp: b_ok_def before_splice_def)
next
  case (accepts a)
  then show ?thesis using assms(2) by (auto simp: b_ok_def before_splice_def servable_def)
qed (use assms(2) in \<open>auto simp: b_ok_def before_splice_def\<close>)

lemma wires_ok_a:
  assumes "a_step name t t'" and "a_ok name t" and "b_ok targets reach name t" and "wires_ok t" and "connection_ok (pipes t)"
  shows "wires_ok t'"
  using assms(1)
proof cases
  case (sends_header rest k)
  then show ?thesis using assms(2,4)
    by (auto simp: wires_ok_def stream_defs turned_away_def a_ok_def unstarted_def)
next
  case (feeds_b d)
  then have "\<not> closed (to_b t)" "prefix (delivered (to_b t)) (delivered d)"
    using copy_step_running assms(5) by (auto simp: pipes_ok)
  with feeds_b(1) assms(4) show ?thesis
    by (auto simp: wires_ok_def stream_defs turned_away_def intro: prefix_order.trans)
next
  case (feeds_client d)
  then have "arrived d = arrived (from_b t)" using copy_step_frame by blast
  with feeds_client(1) assms(4) show ?thesis by (simp add: wires_ok_def stream_defs turned_away_def)
next
  case (answered bs)
  then show ?thesis using assms(2,4)
    by (simp add: wires_ok_def stream_defs turned_away_def a_ok_def before_answer_def)
next
  case (turned_down x bs)
  then show ?thesis using assms(2,4)
    by (simp add: wires_ok_def stream_defs turned_away_def a_ok_def before_answer_def)
qed (use assms(4) in \<open>simp_all add: wires_ok_def stream_defs turned_away_def\<close>)

lemma wires_ok_b:
  assumes "b_step targets reach t t'" and "b_ok targets reach name t" and "wires_ok t" and "connection_ok (pipes t)"
  shows "wires_ok t'"
  using assms(1)
proof cases
  case (reads_frame k)
  then show ?thesis using assms(3) by (simp add: wires_ok_def stream_defs turned_away_def take_drop_append)
next
  case looks_up
  then show ?thesis using assms(3) by (auto simp: wires_ok_def stream_defs turned_away_def)
next
  case (refuses a)
  then show ?thesis using assms(2,3)
    by (auto simp: wires_ok_def stream_defs turned_away_def b_ok_def before_splice_def unstarted_def)
next
  case (accepts a)
  then show ?thesis using assms(2,3)
    by (auto simp: wires_ok_def stream_defs turned_away_def b_ok_def before_splice_def unstarted_def)
next
  case (feeds_target a d)
  then have "arrived d = arrived (from_a t)" using copy_step_frame by blast
  with feeds_target(1) assms(3) show ?thesis by (simp add: wires_ok_def stream_defs turned_away_def)
next
  case (feeds_a a d)
  then have "\<not> closed (from_target t)" "prefix (delivered (from_target t)) (delivered d)"
    using copy_step_running assms(4) by (auto simp: pipes_ok)
  with feeds_a(1,2) assms(3) show ?thesis
    by (auto simp: wires_ok_def stream_defs turned_away_def intro: prefix_order.trans)
next
  case (b_returns a r)
  then show ?thesis using assms(2,3)
    by (auto simp: wires_ok_def stream_defs turned_away_def b_ok_def)
qed (use assms(3) in \<open>auto simp: wires_ok_def stream_defs turned_away_def\<close>)

lemma early_b: "b_ok targets reach name t \<Longrightarrow> before_splice (at_b t) \<Longrightarrow> arrived (from_a t) = []"
  by (auto simp: b_ok_def)

lemma early_a: "a_ok name t \<Longrightarrow> before_answer (at_a t) \<Longrightarrow> arrived (from_b t) = []"
  by (auto simp: a_ok_def)

lemma nothing_after_end:
  "wires_ok t \<Longrightarrow> bs \<noteq> [] \<Longrightarrow> prefix (seen_by_b t @ bs) (sent_to_b t) \<Longrightarrow> \<not> ended_b t"
  "wires_ok t \<Longrightarrow> bs \<noteq> [] \<Longrightarrow> prefix (seen_by_a t @ bs) (sent_to_a t) \<Longrightarrow> \<not> ended_a t"
  by (auto simp: wires_ok_def)

lemma wires_ok_mux:
  assumes "stream_step t t'" and "wires_ok t" and "a_ok name t" and "b_ok targets reach name t"
  shows "wires_ok t'"
  using assms(1)
proof cases
  case (to_b_early bs)
  with assms(2) early_b [OF assms(4) to_b_early(2)] nothing_after_end(1) [OF assms(2) to_b_early(3,4)] show ?thesis
    by (auto simp: wires_ok_def stream_defs turned_away_def)
next
  case (to_a_early bs)
  with assms(2) early_a [OF assms(3) to_a_early(2)] nothing_after_end(2) [OF assms(2) to_a_early(3,4)] show ?thesis
    by (auto simp: wires_ok_def stream_defs turned_away_def)
next
  case (to_a_late bs)
  then have "waiting_a t = []" using assms(3) by (simp add: a_ok_def)
  with to_a_late assms(2) nothing_after_end(2) [OF assms(2) to_a_late(3,4)] show ?thesis by (auto simp: wires_ok_def stream_defs turned_away_def)
next
  case (to_b_late a bs)
  then have "waiting_b t = []" using assms(4) by (simp add: b_ok_def)
  with to_b_late assms(2) nothing_after_end(1) [OF assms(2) to_b_late(3,4)] show ?thesis by (auto simp: wires_ok_def stream_defs turned_away_def)
qed (use assms(2) in \<open>auto simp: wires_ok_def stream_defs turned_away_def\<close>)

lemma wires_ok_peer:
  assumes "peer_step t t'" and "wires_ok t"
  shows "wires_ok t'"
  using assms by cases (auto simp: wires_ok_def stream_defs turned_away_def elim!: side_sends.cases)

lemma wires_ok_fail:
  assumes "tunnel_fail t t'" and "wires_ok t"
  shows "wires_ok t'"
  using assms by cases (auto simp: wires_ok_def stream_defs turned_away_def dest!: copy_fail_frame)

section \<open>The steps on the routes\<close>

lemma pipes_simps [simp]:
  "outward (pipes t) = [to_b t, from_a t]" "inward (pipes t) = [from_target t, from_b t]"
  by (simp_all add: pipes_def)

lemma inner_there: "route_step\<^sup>*\<^sup>* r r' \<Longrightarrow> inner_step\<^sup>*\<^sup>* \<lparr>outward = r, inward = q\<rparr> \<lparr>outward = r', inward = q\<rparr>"
proof (induction rule: rtranclp_induct)
  case (step r1 r2)
  have "inner_step \<lparr>outward = r1, inward = q\<rparr> \<lparr>outward = r2, inward = q\<rparr>"
    using step_there [of "\<lparr>outward = r1, inward = q\<rparr>" r2] step(2) by simp
  with step(3) show ?case by (rule rtranclp.rtrancl_into_rtrancl)
qed simp

lemma inner_back: "route_step\<^sup>*\<^sup>* q q' \<Longrightarrow> inner_step\<^sup>*\<^sup>* \<lparr>outward = r, inward = q\<rparr> \<lparr>outward = r, inward = q'\<rparr>"
proof (induction rule: rtranclp_induct)
  case (step q1 q2)
  have "inner_step \<lparr>outward = r, inward = q1\<rparr> \<lparr>outward = r, inward = q2\<rparr>"
    using step_back [of "\<lparr>outward = r, inward = q1\<rparr>" q2] step(2) by simp
  with step(3) show ?case by (rule rtranclp.rtrancl_into_rtrancl)
qed simp

text \<open>A copy task that takes over a stream: what had arrived is carried to it at once.\<close>

lemma take_over_route:
  assumes "prefix (arrived e @ bs) (delivered d)" and "\<not> over e"
    and "eof \<Longrightarrow> closed d \<and> arrived e @ bs = delivered d"
  shows "route_step\<^sup>*\<^sup>* [d, e] [d, take_over bs eof e]"
proof -
  have "route_step\<^sup>*\<^sup>* [d, e] [d, take_in bs e]"
    using carries_on [of bs e d "[]"] assms(1,2) by (cases "bs = []") (auto simp: take_in_def)
  moreover have "eof \<Longrightarrow> route_step [d, take_in bs e] [d, take_end (take_in bs e)]"
    using carries_end [of d "take_in bs e" "[]"] assms(2,3) by simp
  ultimately show ?thesis by (auto simp: take_over_def intro: rtranclp.rtrancl_into_rtrancl)
qed

lemma works_first: "copy_step d d' \<Longrightarrow> route_step\<^sup>*\<^sup>* [d, e] [d', e]"
  by (intro r_into_rtranclp works)

lemma works_second: "copy_step e e' \<Longrightarrow> route_step\<^sup>*\<^sup>* [d, e] [d, e']"
  by (intro r_into_rtranclp later works)

text \<open>A step of either end or of the stream is nothing, or some steps inside of the two routes.\<close>

lemma a_step_pipes:
  assumes "a_step name t t'" and "tunnel_ok targets reach name0 t"
  shows "inner_step\<^sup>*\<^sup>* (pipes t) (pipes t')"
  using assms(1)
proof cases
  case (feeds_b d)
  then show ?thesis by (simp add: pipes_def inner_there works_first)
next
  case (feeds_client d)
  then show ?thesis by (simp add: pipes_def inner_back works_second)
next
  case (answered bs)
  have ok: "b_ok targets reach name0 t" "wires_ok t" and a: "a_ok name0 t" using assms(2) by (simp_all add: tunnel_ok_def)
  have "answer_read t = []" "from_b t = copy_start"
    using a answered(2) by (simp_all add: a_ok_def before_answer_def)
  then have "route_step\<^sup>*\<^sup>* [from_target t, from_b t] [from_target t, take_over bs (ended_a t) (from_b t)]"
    using answer_is_first [OF ok, of bs] answered(3) by (intro take_over_route) simp_all
  then show ?thesis by (simp add: answered(1) pipes_def inner_back)
qed (simp_all add: pipes_def)

lemma b_step_pipes:
  assumes "b_step targets reach t t'" and "tunnel_ok targets reach name t"
  shows "inner_step\<^sup>*\<^sup>* (pipes t) (pipes t')"
  using assms(1)
proof cases
  case (feeds_target a d)
  then show ?thesis by (simp add: pipes_def inner_there works_second)
next
  case (feeds_a a d)
  then show ?thesis by (simp add: pipes_def inner_back works_first)
next
  case (accepts a)
  have ok: "a_ok name t" "wires_ok t" and b: "b_ok targets reach name t" using assms(2) by (simp_all add: tunnel_ok_def)
  have "header_read t = header_of name" "from_a t = copy_start"
    using b accepts(2) by (auto simp: b_ok_def before_splice_def)
  then have "route_step\<^sup>*\<^sup>* [to_b t, from_a t] [to_b t, take_over (waiting_b t) (ended_b t) (from_a t)]"
    using waiting_is_payload [OF ok] by (intro take_over_route) simp_all
  then show ?thesis by (simp add: accepts(1) pipes_def inner_there)
qed (simp_all add: pipes_def)

lemma stream_step_pipes:
  assumes "stream_step t t'" and "tunnel_ok targets reach name t"
  shows "inner_step\<^sup>*\<^sup>* (pipes t) (pipes t')"
proof -
  have a: "a_ok name t" and b: "b_ok targets reach name t" and w: "wires_ok t" using assms(2) by (simp_all add: tunnel_ok_def)
  have late_b: "header_read t = header_of name" "waiting_b t = []" "header_sent t = header_of name"
    if "at_b t = Serving s" for s
  proof -
    show h: "header_read t = header_of name" "waiting_b t = []" using b that by (auto simp: b_ok_def)
    have "prefix (header_of name) (header_sent t @ delivered (to_b t))"
      using w h by (auto simp: wires_ok_def stream_defs dest: append_prefixD)
    then show "header_sent t = header_of name"
      using a by (auto simp: a_ok_def unstarted_def intro: prefix_order.antisym)
  qed
  have late_a: "answer_read t = [1]" "waiting_a t = []" "answer_sent t = [1]" if "at_a t = Relaying"
    using a that answer_is_first [OF b w, of "[]"] by (simp_all add: a_ok_def)
  show ?thesis
    using assms(1)
  proof cases
    case (to_b_late s bs)
    then have "route_step [to_b t, from_a t] [to_b t, take_in bs (from_a t)]"
      using late_b [OF to_b_late(2)] by (intro carries_on) (simp_all add: stream_defs)
    then show ?thesis by (simp add: to_b_late(1) pipes_def inner_there r_into_rtranclp)
  next
    case (end_to_b_late s)
    then have "route_step [to_b t, from_a t] [to_b t, take_end (from_a t)]"
      using late_b [OF end_to_b_late(2)] by (intro carries_end) (simp_all add: stream_defs)
    then show ?thesis by (simp add: end_to_b_late(1) pipes_def inner_there r_into_rtranclp)
  next
    case (to_a_late bs)
    then have "route_step [from_target t, from_b t] [from_target t, take_in bs (from_b t)]"
      using late_a by (intro carries_on) (simp_all add: stream_defs)
    then show ?thesis by (simp add: to_a_late(1) pipes_def inner_back r_into_rtranclp)
  next
    case end_to_a_late
    then have "route_step [from_target t, from_b t] [from_target t, take_end (from_b t)]"
      using late_a by (intro carries_end) (simp_all add: stream_defs)
    then show ?thesis by (simp add: end_to_a_late(1) pipes_def inner_back r_into_rtranclp)
  qed (simp_all add: pipes_def)
qed

lemma tunnel_step_pipes:
  assumes "tunnel_step targets reach name t t'" and "tunnel_ok targets reach name t"
  shows "inner_step\<^sup>*\<^sup>* (pipes t) (pipes t')"
  using assms a_step_pipes b_step_pipes stream_step_pipes by blast

lemma peer_step_pipes: "peer_step t t' \<Longrightarrow> outer_step (pipes t) (pipes t')"
proof (induction rule: peer_step.induct)
  case (client_sends t d)
  then have "side_sends (outward (pipes t)) [d, from_a t]"
    by (auto elim!: side_sends.cases intro: side_sends.intros)
  from sends_there [OF this] show ?case by (simp add: pipes_def)
next
  case (target_sends t a d)
  then have "side_sends (inward (pipes t)) [d, from_b t]"
    by (auto elim!: side_sends.cases intro: side_sends.intros)
  from sends_back [OF this] show ?case by (simp add: pipes_def)
qed

lemma tunnel_fail_pipes: "tunnel_fail t t' \<Longrightarrow> pipes t' = pipes t \<or> fail_step (pipes t) (pipes t')"
proof (induction rule: tunnel_fail.induct)
  case (to_b_fails t d)
  then show ?case using fails_there [of "pipes t" "[d, from_a t]"] by (simp add: pipes_def fails)
next
  case (from_a_fails t a d)
  then show ?case using fails_there [of "pipes t" "[to_b t, d]"] by (simp add: pipes_def fails fails_later)
next
  case (from_b_fails t d)
  then show ?case using fails_back [of "pipes t" "[from_target t, d]"] by (simp add: pipes_def fails fails_later)
next
  case (from_target_fails t a d)
  then show ?case using fails_back [of "pipes t" "[d, from_b t]"] by (simp add: pipes_def fails)
qed (simp_all add: pipes_def)

lemma inner_refines:
  "inner_step\<^sup>*\<^sup>* c c' \<Longrightarrow> connection_ok c \<Longrightarrow> connection_ok c' \<and> links_step\<^sup>*\<^sup>* (links_of c) (links_of c')"
proof (induction rule: rtranclp_induct)
  case (step d e)
  then have "connection_ok d" and l: "links_step\<^sup>*\<^sup>* (links_of c) (links_of d)" by simp_all
  then have "connection_ok e" "links_step\<^sup>*\<^sup>* (links_of d) (links_of e)"
    using step(2) connection_ok_move [of d e] move_refines [of d e] by simp_all
  with l show ?case by (auto intro: rtranclp_trans)
qed simp

lemma tunnel_move_pipes:
  assumes "tunnel_move targets reach name t t'" and "tunnel_ok targets reach name t"
  shows "connection_ok (pipes t') \<and> links_step\<^sup>*\<^sup>* (tunnel_links t) (tunnel_links t')"
proof -
  have ok: "connection_ok (pipes t)" using assms(2) by (simp add: tunnel_ok_def)
  from assms(1) consider "tunnel_step targets reach name t t'" | "peer_step t t'" | "tunnel_fail t t'" by auto
  then show ?thesis
  proof cases
    case 1
    then show ?thesis using tunnel_step_pipes [OF _ assms(2)] inner_refines ok by blast
  next
    case 2
    then have "any_move (pipes t) (pipes t')" using peer_step_pipes by simp
    then show ?thesis using ok by (simp add: connection_ok_move move_refines)
  next
    case 3
    then consider "pipes t' = pipes t" | "any_move (pipes t) (pipes t')" using tunnel_fail_pipes by blast
    then show ?thesis using ok by cases (simp_all add: connection_ok_move move_refines)
  qed
qed

lemma tunnel_ok_move [invariants]:
  assumes "tunnel_move targets reach name t t'" and "tunnel_ok targets reach name t" and "length name \<le> 65535"
  shows "tunnel_ok targets reach name t'"
proof -
  have a: "a_ok name t" and b: "b_ok targets reach name t" and w: "wires_ok t" and c: "connection_ok (pipes t)"
    using assms(2) by (simp_all add: tunnel_ok_def)
  from assms(1) consider "a_step name t t'" | "b_step targets reach t t'" | "stream_step t t'"
    | "peer_step t t'" | "tunnel_fail t t'" by auto
  then have "a_ok name t' \<and> b_ok targets reach name t' \<and> wires_ok t'"
  proof cases
    case 1
    then show ?thesis using a_ok_a b_ok_a wires_ok_a a b w c by blast
  next
    case 2
    then show ?thesis using a_ok_b b_ok_b wires_ok_b a b w c assms(3) by blast
  next
    case 3
    then show ?thesis using a_ok_mux b_ok_mux wires_ok_mux a b w by blast
  next
    case 4
    then show ?thesis using a_ok_peer b_ok_peer wires_ok_peer a b w by blast
  next
    case 5
    then show ?thesis using a_ok_fail b_ok_fail wires_ok_fail a b w by blast
  qed
  with tunnel_move_pipes [OF assms(1,2)] show ?thesis by (simp add: tunnel_ok_def)
qed

lemma feed_start_simps [simp]:
  "arrived (feed_start pre) = pre" "over (feed_start pre) = False" "delivered (feed_start pre) = []"
  "closed (feed_start pre) = False" "unread (feed_start pre) = []"
  by (simp_all add: feed_start_def copy_start_def)

lemma tunnel_ok_start: "tunnel_ok targets reach name (tunnel_start name pre)"
proof -
  have "copy_ok (feed_start pre)"
    by (auto simp: copy_defs feed_start_def copy_start_def)
  then have "connection_ok (pipes (tunnel_start name pre))"
    by (simp add: pipes_ok tunnel_start_def copy_ok_start)
  then show ?thesis
    by (simp add: tunnel_ok_def a_ok_def b_ok_def wires_ok_def tunnel_start_def stream_defs before_answer_def
        before_splice_def frame_fits_def unstarted_def)
qed

lemma tunnel_ok_reach:
  assumes "(tunnel_move targets reach name)\<^sup>*\<^sup>* (tunnel_start name pre) t" and "length name \<le> 65535"
  shows "tunnel_ok targets reach name t"
  using assms by (induction rule: rtranclp_induct) (use tunnel_ok_start tunnel_ok_move in blast)+

lemma tunnel_links_start: "tunnel_links (tunnel_start name pre) = (link_start\<lparr>put := pre\<rparr>, link_start)"
  by (simp add: links_of_def link_of_def tunnel_start_def link_start_def)

text \<open>Nothing comes out at either end of a tunnel that B does not serve.\<close>

lemma nothing_unless_served:
  assumes "tunnel_ok targets reach name t" and "\<not> servable targets reach name"
  shows "from_a t = copy_start \<and> from_b t = copy_start \<and> answer_read t \<noteq> [1]"
proof -
  have a: "a_ok name t" and b: "b_ok targets reach name t" and w: "wires_ok t" using assms(1) by (simp_all add: tunnel_ok_def)
  have "answer_sent t \<noteq> [1]" using b assms(2) by (auto simp: b_ok_def)
  moreover have "answer_read t \<noteq> [1]"
    using answer_is_first [OF b w] calculation by auto
  ultimately show ?thesis using a b by (auto simp: a_ok_def b_ok_def)
qed
section \<open>Counters\<close>

text \<open>An end that has returned without an error has joined two copy tasks that had seen the end.\<close>

definition returned_ok :: "live_tunnel \<Rightarrow> bool" where
  "returned_ok t \<longleftrightarrow>
     (at_a t = Relayed (Inr ()) \<longrightarrow> doing (to_b t) = Ended (Inr ()) \<and> doing (from_b t) = Ended (Inr ()))
     \<and> (at_b t = Served (Inr ()) \<longrightarrow> doing (from_a t) = Ended (Inr ()) \<and> doing (from_target t) = Ended (Inr ()))"

lemma ended_no_step: "doing d = Ended r \<Longrightarrow> \<not> copy_step d d'" "doing d = Ended r \<Longrightarrow> \<not> copy_fail d d'"
  by (auto elim!: copy_stepE copy_failE)

lemma joined_both:
  "rbind (map_err f r1) (\<lambda>_. map_err g r2) = Inr () \<Longrightarrow> r1 = Inr () \<and> r2 = Inr ()"
  "rbind r1 (\<lambda>_. r2) = Inr () \<Longrightarrow> r1 = Inr () \<and> r2 = Inr ()"
  by (auto simp: rbind_def map_err_def split: sum.splits)

lemma returned_ok_a: "a_step name t t' \<Longrightarrow> returned_ok t \<Longrightarrow> returned_ok t'"
  by (induction rule: a_step.induct) (auto simp: returned_ok_def ended_no_step dest: joined_both(1))

lemma pipe_result_Some: "pipe_result d e = Some r \<Longrightarrow> \<exists>r1 r2. doing d = Ended r1 \<and> doing e = Ended r2 \<and> r = rbind r1 (\<lambda>_. r2)"
  by (auto simp: pipe_result_def split: copy_point.splits)

lemma returned_ok_b: "b_step targets reach t t' \<Longrightarrow> returned_ok t \<Longrightarrow> returned_ok t'"
proof (induction rule: b_step.induct)
  case (looks_up t)
  then show ?case using looked_up [of targets "drop 2 (header_read t)"] by (auto simp: returned_ok_def)
next
  case (b_returns t a r)
  then show ?case by (auto simp: returned_ok_def dest!: pipe_result_Some joined_both(2))
qed (auto simp: returned_ok_def ended_no_step)

lemma returned_ok_stream: "stream_step t t' \<Longrightarrow> returned_ok t \<Longrightarrow> returned_ok t'"
  by (induction rule: stream_step.induct) (auto simp: returned_ok_def)

lemma returned_ok_peer: "peer_step t t' \<Longrightarrow> returned_ok t \<Longrightarrow> returned_ok t'"
  by (induction rule: peer_step.induct) (auto simp: returned_ok_def elim!: side_sends.cases)

lemma returned_ok_fail: "tunnel_fail t t' \<Longrightarrow> returned_ok t \<Longrightarrow> returned_ok t'"
  by (induction rule: tunnel_fail.induct) (auto simp: returned_ok_def ended_no_step)

lemma returned_ok_reach:
  assumes "(tunnel_move targets reach name)\<^sup>*\<^sup>* (tunnel_start name pre) t"
  shows "returned_ok t"
  using assms
proof (induction rule: rtranclp_induct)
  case base
  show ?case by (simp add: returned_ok_def tunnel_start_def)
next
  case (step t t')
  from step(2) consider "a_step name t t'" | "b_step targets reach t t'" | "stream_step t t'"
    | "peer_step t t'" | "tunnel_fail t t'" by auto
  then show ?case
    using step.IH by cases (simp_all add: returned_ok_a returned_ok_b returned_ok_stream returned_ok_peer returned_ok_fail)
qed

lemma tallies_inner: "inner_step\<^sup>*\<^sup>* c c' \<Longrightarrow> BUF_SIZE \<le> m \<Longrightarrow> tallies_ok m c \<Longrightarrow> tallies_ok m c'"
proof (induction rule: rtranclp_induct)
  case (step d e)
  then show ?case using tallies_ok_move [of d e m] by simp
qed

lemma tallies_reach:
  assumes "(tunnel_move targets reach name)\<^sup>*\<^sup>* (tunnel_start name pre) t" and "length name \<le> 65535"
  shows "tallies_ok (max BUF_SIZE (length pre)) (pipes t)"
  using assms(1)
proof (induction rule: rtranclp_induct)
  case base
  have "count_ok (max BUF_SIZE (length pre)) (feed_start pre)"
    by (auto simp: count_ok_def feed_start_def copy_start_def intro!: exI [of _ 0])
  then show ?case by (auto simp: tallies_ok_def tunnel_start_def count_ok_start)
next
  case (step t t')
  have m: "BUF_SIZE \<le> max BUF_SIZE (length pre)" by simp
  from step(2) consider "tunnel_step targets reach name t t'" | "peer_step t t'" | "tunnel_fail t t'" by auto
  then show ?case
  proof cases
    case 1
    from tallies_inner [OF tunnel_step_pipes [OF 1 tunnel_ok_reach [OF step(1) assms(2)]] m step.IH] show ?thesis .
  next
    case 2
    then show ?thesis using peer_step_pipes tallies_ok_move [OF _ m step.IH] by simp
  next
    case 3
    then show ?thesis using tunnel_fail_pipes tallies_ok_move [OF _ m step.IH] step.IH by fastforce
  qed
qed

lemma ended_exact: "copy_ok d \<Longrightarrow> doing d = Ended (Inr ()) \<Longrightarrow> over d \<and> delivered d = arrived d"
  by (auto simp: copy_defs)

lemma ended_counted: "count_ok m d \<Longrightarrow> doing d = Ended (Inr ()) \<Longrightarrow> counted d = word_of_nat (length (delivered d))"
  by (auto simp: count_ok_def)

end
