(* ===== verification/Tunnel_Runs.thy ===== *)
theory Tunnel_Runs
  imports Live_Tunnel
begin

text \<open>
  What runs of a live tunnel come to: as long as nothing fails, the two ends of \<open>Live_Tunnel\<close> cannot
  go on for ever, and where no step is left they have passed on everything, or have given up
  together. A measure on the points of the two futures, the copy tasks and the stream shows the
  first, an invariant of the runs without failures (\<open>unbroken\<close>) the second.
\<close>

section \<open>Without failures\<close>

text \<open>As long as nothing fails, either end returns an error only because B does not serve the tunnel.\<close>

definition unbroken :: "(string \<rightharpoonup> string) \<Rightarrow> (string \<Rightarrow> bool) \<Rightarrow> string \<Rightarrow> live_tunnel \<Rightarrow> bool" where
  "unbroken targets reach name t \<longleftrightarrow> all_sound (pipes t)
     \<and> ((\<forall>rest. at_a t \<noteq> SendingHeader rest) \<longrightarrow> header_sent t = header_of name)
     \<and> (at_a t \<in> {AwaitingAnswer, Relaying} \<longrightarrow> feeding t)
     \<and> (\<forall>e. at_a t = Relayed (Inl e) \<longrightarrow> \<not> servable targets reach name
          \<and> e \<in> {TargetUnreachable name, WaitingForB UnexpectedEof})
     \<and> (at_a t = Relayed (Inr ()) \<longrightarrow> closed (to_b t) \<and> closed (from_b t))
     \<and> (\<forall>e. at_b t = Served (Inl e) \<longrightarrow> \<not> servable targets reach name)
     \<and> (at_b t = Served (Inr ()) \<longrightarrow> closed (from_a t) \<and> closed (from_target t))
     \<and> at_a t \<noteq> RelayDropped \<and> at_b t \<noteq> InboundDropped
     \<and> (\<forall>a. at_b t = Refusing a \<longrightarrow> \<not> reach a)
     \<and> (answer_sent t = [0] \<longrightarrow> \<not> servable targets reach name)"

lemma sound_pipes:
  "all_sound (pipes t) \<longleftrightarrow> sound (to_b t) \<and> sound (from_a t) \<and> sound (from_target t) \<and> sound (from_b t)"
  by (auto simp: all_sound_def)

lemma sound_arrives [simp]: "sound (take_in bs d) = sound d" "sound (take_end d) = sound d"
  "sound (take_over bs eof d) = sound d"
  by (simp_all add: sound_def)

lemma sound_ended: "sound d \<Longrightarrow> doing d = Ended r \<Longrightarrow> r = Inr () \<and> closed d"
  by (auto simp: sound_def)

lemma closed_stays: "copy_step d d' \<Longrightarrow> copy_ok d \<Longrightarrow> \<not> closed d"
  using copy_step_running by blast

text \<open>An answer other than 1, or none at all, comes from a B that has turned the connection away.\<close>

lemma answer_other:
  assumes "b_ok targets reach name t" and "wires_ok t" and "unbroken targets reach name t"
    and "seen_by_a t = x # bs" and "x \<noteq> 1"
  shows "\<not> servable targets reach name"
proof -
  have "prefix (x # bs) (answer_sent t @ delivered (from_target t))"
    using assms(2,4) by (simp add: wires_ok_def sent_to_a_def)
  then have "answer_sent t = [0]" using assms(1,5) by (auto simp: b_ok_def unstarted_def)
  then show ?thesis using assms(3) by (simp add: unbroken_def)
qed

lemma answer_none:
  assumes "b_ok targets reach name t" and "wires_ok t" and "unbroken targets reach name t"
    and "seen_by_a t = []" and "ended_a t"
  shows "\<not> servable targets reach name"
proof -
  have "answer_sent t = []" using assms(2,4,5) by (simp add: wires_ok_def sent_to_a_def)
  then have "\<not> closed (from_target t)" using assms(1) by (simp add: b_ok_def unstarted_def)
  then have "turned_away t" using assms(2,5) by (simp add: wires_ok_def)
  then show ?thesis using assms(3) by (auto simp: unbroken_def turned_away_def)
qed

lemma unbroken_a:
  assumes "a_step name t t'" and "tunnel_ok targets reach name t" and "unbroken targets reach name t"
  shows "unbroken targets reach name t'"
proof -
  have a: "a_ok name t" and b: "b_ok targets reach name t" and w: "wires_ok t" and c: "connection_ok (pipes t)"
    using assms(2) by (simp_all add: tunnel_ok_def)
  show ?thesis
    using assms(1)
  proof cases
    case (feeds_b d)
    then show ?thesis using assms(3) c closed_stays [OF feeds_b(3)]
      by (auto simp: unbroken_def sound_pipes pipes_ok dest: sound_step)
  next
    case (feeds_client d)
    then show ?thesis using assms(3) by (auto simp: unbroken_def sound_pipes dest: sound_step)
  next
    case (starts_feeding)
    then show ?thesis using assms(3) a by (auto simp: unbroken_def sound_pipes a_ok_def)
  next
    case (answered bs)
    then show ?thesis using assms(3) by (auto simp: unbroken_def sound_pipes)
  next
    case (turned_down x bs)
    then have "seen_by_a t = x # bs @ arrived (from_b t)"
      using a by (simp add: seen_by_a_def a_ok_def before_answer_def)
    with turned_down answer_other [OF b w assms(3)] assms(3) show ?thesis by (auto simp: unbroken_def sound_pipes)
  next
    case unanswered
    then have "seen_by_a t = []"
      using a by (simp add: seen_by_a_def a_ok_def before_answer_def)
    with unanswered answer_none [OF b w assms(3)] assms(3) show ?thesis by (auto simp: unbroken_def sound_pipes)
  next
    case (a_returns r1 r2)
    then have "r1 = Inr () \<and> closed (to_b t)" "r2 = Inr () \<and> closed (from_b t)"
      using assms(3) sound_ended by (auto simp: unbroken_def sound_pipes)
    with a_returns assms(3) show ?thesis by (auto simp: unbroken_def sound_pipes rbind_def map_err_def)
  qed (use assms(3) in \<open>auto simp: unbroken_def sound_pipes\<close>)
qed

lemma unbroken_b:
  assumes "b_step targets reach t t'" and "tunnel_ok targets reach name t" and "unbroken targets reach name t"
    and "length name \<le> 65535"
  shows "unbroken targets reach name t'"
proof -
  have a: "a_ok name t" and b: "b_ok targets reach name t" and w: "wires_ok t" and c: "connection_ok (pipes t)"
    using assms(2) by (simp_all add: tunnel_ok_def)
  have fits: "frame_fits (header_read t)" using b by (simp add: b_ok_def)
  note read = frame_read_prefix [OF header_read_prefix [OF a w] _ fits]
  show ?thesis
    using assms(1)
  proof cases
    case too_long
    then have "\<not> servable targets reach name" using read(3) assms(4) by (auto simp: servable_def)
    with too_long assms(3) show ?thesis by (auto simp: unbroken_def sound_pipes)
  next
    case cut_short
    have "seen_by_b t = sent_to_b t" "closed (to_b t)" using cut_short(6) w by (simp_all add: wires_ok_def)
    moreover from this have "header_sent t = header_of name" using a by (auto simp: a_ok_def unstarted_def)
    moreover have "arrived (from_a t) = []" using early_b [OF b] cut_short(2) by (simp add: before_splice_def)
    ultimately have "header_read t = header_of name @ delivered (to_b t)" using cut_short(5) by (simp add: stream_defs)
    then have "header_read t = header_of name" using read(1) assms(4) by (auto simp: prefix_def)
    then show ?thesis using read(4) cut_short(4) assms(4) by simp
  next
    case looks_up
    have H: "header_read t = header_of name" using read(2) looks_up(4) assms(4) by simp
    have "look_up targets (as_bytes name) = Served r \<Longrightarrow> \<not> servable targets reach name" for r
      by (simp add: servable_def)
    with H looks_up looked_up [of targets "as_bytes name"] assms(3) show ?thesis
      by (auto simp: unbroken_def sound_pipes)
  next
    case (dials s)
    then show ?thesis using assms(3) by (auto simp: unbroken_def sound_pipes)
  next
    case (refuses s)
    then have "look_up targets (as_bytes name) = Dialling s" "\<not> reach s"
      using b assms(3) by (auto simp: b_ok_def unbroken_def)
    then have "\<not> servable targets reach name" by (simp add: servable_def)
    with refuses assms(3) show ?thesis by (auto simp: unbroken_def sound_pipes)
  next
    case (accepts s)
    then show ?thesis using assms(3) by (auto simp: unbroken_def sound_pipes)
  next
    case (feeds_target s d)
    then show ?thesis using assms(3) by (auto simp: unbroken_def sound_pipes dest: sound_step)
  next
    case (feeds_a s d)
    then show ?thesis using assms(3) by (auto simp: unbroken_def sound_pipes dest: sound_step)
  next
    case (b_returns s r)
    then obtain r1 r2 where "doing (from_a t) = Ended r1" "doing (from_target t) = Ended r2" "r = rbind r1 (\<lambda>_. r2)"
      by (auto simp: pipe_result_def split: copy_point.splits)
    moreover from this have "r1 = Inr () \<and> closed (from_a t)" "r2 = Inr () \<and> closed (from_target t)"
      using assms(3) sound_ended by (auto simp: unbroken_def sound_pipes)
    ultimately show ?thesis using b_returns assms(3) by (auto simp: unbroken_def sound_pipes rbind_def map_err_def)
  qed (use assms(3) in \<open>auto simp: unbroken_def sound_pipes\<close>)
qed

lemma unbroken_mux: "stream_step t t' \<Longrightarrow> unbroken targets reach name t \<Longrightarrow> unbroken targets reach name t'"
  by (induction rule: stream_step.induct) (simp_all add: unbroken_def sound_pipes)

lemma side_sends_same: "side_sends [d] [d'] \<Longrightarrow> sound d' = sound d \<and> closed d' = closed d"
  by (auto elim!: side_sends.cases)

lemma unbroken_peer: "peer_step t t' \<Longrightarrow> unbroken targets reach name t \<Longrightarrow> unbroken targets reach name t'"
  by (induction rule: peer_step.induct) (simp_all add: unbroken_def sound_pipes side_sends_same)

lemma unbroken_start: "unbroken targets reach name (tunnel_start name pre)"
  by (simp add: unbroken_def sound_pipes tunnel_start_def sound_def) (simp add: copy_start_def feed_start_def)

abbreviation calm :: "(string \<rightharpoonup> string) \<Rightarrow> (string \<Rightarrow> bool) \<Rightarrow> string \<Rightarrow> live_tunnel \<Rightarrow> live_tunnel \<Rightarrow> bool" where
  "calm targets reach name \<equiv> sup (tunnel_step targets reach name) peer_step"

lemma calm_reach:
  assumes "(calm targets reach name)\<^sup>*\<^sup>* (tunnel_start name pre) t" and "length name \<le> 65535"
  shows "tunnel_ok targets reach name t \<and> unbroken targets reach name t"
  using assms(1)
proof (induction rule: rtranclp_induct)
  case base
  show ?case using tunnel_ok_start unbroken_start by blast
next
  case (step t t')
  from step(2) consider "a_step name t t'" | "b_step targets reach t t'" | "stream_step t t'" | "peer_step t t'" by auto
  then have "unbroken targets reach name t'"
  proof cases
    case 1
    then show ?thesis using step.IH by (blast intro: unbroken_a)
  next
    case 2
    then show ?thesis using step.IH assms(2) by (blast intro: unbroken_b)
  next
    case 3
    then show ?thesis using step.IH by (blast intro: unbroken_mux)
  next
    case 4
    then show ?thesis using step.IH by (blast intro: unbroken_peer)
  qed
  moreover have "tunnel_move targets reach name t t'" using step(2) by auto
  ultimately show ?case using step.IH tunnel_ok_move assms(2) by blast
qed

section \<open>No step can be repeated for ever\<close>

fun relay_left :: "relay_point \<Rightarrow> nat" where
  "relay_left (SendingHeader rest) = 5 + length rest"
| "relay_left AwaitingAnswer = 3"
| "relay_left Relaying = 2"
| "relay_left (Relayed r) = 0"
| "relay_left RelayDropped = 0"

fun inbound_left :: "inbound_point \<Rightarrow> nat" where
  "inbound_left ReadingFrame = 5"
| "inbound_left (Dialling a) = 4"
| "inbound_left (Accepting a) = 3"
| "inbound_left (Refusing a) = 3"
| "inbound_left (Serving a) = 2"
| "inbound_left (Served r) = 0"
| "inbound_left InboundDropped = 0"

definition points_left :: "live_tunnel \<Rightarrow> nat" where
  "points_left t = relay_left (at_a t) + inbound_left (at_b t) + (if feeding t then 1 else 0)"

definition stream_left :: "live_tunnel \<Rightarrow> nat" where
  "stream_left t = (length (sent_to_b t) - length (seen_by_b t)) + (length (sent_to_a t) - length (seen_by_a t))
     + (if ended_b t then 0 else 1) + (if ended_a t then 0 else 1)"

text \<open>The points of the two futures first, then the copy tasks, the stream, and the reads of the header.\<close>

definition tunnel_order :: "(live_tunnel \<times> live_tunnel) set" where
  "tunnel_order = measures [points_left, \<lambda>t. all_work (pipes t), stream_left, \<lambda>t. length (waiting_b t)]"

lemma inner_steps_work: "inner_step\<^sup>*\<^sup>* c c' \<Longrightarrow> c' = c \<or> all_work c' < all_work c"
  by (induction rule: rtranclp_induct) (auto dest: inner_step_work)

lemma copy_step_changes: "copy_step d d' \<Longrightarrow> d' \<noteq> d"
  using copy_step_work [of d d' "[]"] by auto

lemma take_changes: "bs \<noteq> [] \<Longrightarrow> take_in bs d \<noteq> d" "\<not> over d \<Longrightarrow> take_end d \<noteq> d"
  by (metis append_self_conv take_in_simps(1)) (metis take_end_simps(3))

lemma looked_up_left: "inbound_left (look_up targets bs) < inbound_left ReadingFrame"
  using looked_up [of targets bs] by auto

lemma a_step_left:
  assumes "a_step name t t'"
  shows "points_left t' < points_left t \<or> points_left t' = points_left t \<and> pipes t' \<noteq> pipes t"
  using assms by cases (auto simp: points_left_def pipes_def dest: copy_step_changes)

lemma b_step_left:
  assumes "b_step targets reach t t'"
  shows "points_left t' < points_left t \<or> points_left t' = points_left t \<and>
    (pipes t' \<noteq> pipes t \<or> stream_left t' = stream_left t \<and> length (waiting_b t') < length (waiting_b t))"
  using assms
proof cases
  case looks_up
  then show ?thesis using looked_up_left [of targets "drop 2 (header_read t)"] by (simp add: points_left_def)
next
  case (reads_frame k)
  then show ?thesis by (auto simp: points_left_def stream_left_def stream_defs)
qed (auto simp: points_left_def pipes_def dest: copy_step_changes)

lemma stream_step_left:
  assumes "stream_step t t'"
  shows "points_left t' = points_left t \<and> (pipes t' \<noteq> pipes t \<or> stream_left t' < stream_left t)"
  using assms
proof cases
  case (to_b_early bs)
  then have "length (seen_by_b t) + length bs \<le> length (sent_to_b t)" "0 < length bs"
    by (auto dest: prefix_length_le)
  moreover have eqs: "length (seen_by_b t') = length (seen_by_b t) + length bs" "sent_to_b t' = sent_to_b t"
    "seen_by_a t' = seen_by_a t" "sent_to_a t' = sent_to_a t" "ended_a t' = ended_a t" "ended_b t' = ended_b t"
    using to_b_early(1) by (simp_all add: stream_defs)
  ultimately have "stream_left t' < stream_left t" unfolding stream_left_def eqs by linarith
  then show ?thesis using to_b_early(1) by (simp add: points_left_def)
next
  case (to_a_early bs)
  then have "length (seen_by_a t) + length bs \<le> length (sent_to_a t)" "0 < length bs"
    by (auto dest: prefix_length_le)
  moreover have eqs: "length (seen_by_a t') = length (seen_by_a t) + length bs" "sent_to_a t' = sent_to_a t"
    "seen_by_b t' = seen_by_b t" "sent_to_b t' = sent_to_b t" "ended_a t' = ended_a t" "ended_b t' = ended_b t"
    using to_a_early(1) by (simp_all add: stream_defs)
  ultimately have "stream_left t' < stream_left t" unfolding stream_left_def eqs by linarith
  then show ?thesis using to_a_early(1) by (simp add: points_left_def)
qed (auto simp: points_left_def stream_left_def stream_defs pipes_def take_changes)

lemma tunnel_step_left:
  assumes "tunnel_step targets reach name t t'" and "tunnel_ok targets reach name t"
  shows "(t', t) \<in> tunnel_order"
proof -
  have work: "pipes t' = pipes t \<or> all_work (pipes t') < all_work (pipes t)"
    by (rule inner_steps_work [OF tunnel_step_pipes [OF assms]])
  from assms(1) consider "a_step name t t'" | "b_step targets reach t t'" | "stream_step t t'" by auto
  then have "points_left t' < points_left t \<or> points_left t' = points_left t \<and>
    (pipes t' \<noteq> pipes t \<or> stream_left t' < stream_left t
     \<or> stream_left t' = stream_left t \<and> length (waiting_b t') < length (waiting_b t))"
    by cases (blast dest: a_step_left b_step_left stream_step_left)+
  then show ?thesis using work by (auto simp: tunnel_order_def)
qed

lemma tunnel_step_ok:
  assumes "(tunnel_step targets reach name)\<^sup>*\<^sup>* t t'" and "tunnel_ok targets reach name t" and "length name \<le> 65535"
  shows "tunnel_ok targets reach name t'"
  using assms(1)
proof (induction rule: rtranclp_induct)
  case (step t1 t2)
  then have "tunnel_move targets reach name t1 t2" by auto
  then show ?case using step.IH assms(3) by (rule tunnel_ok_move)
qed (rule assms(2))

lemma tunnel_ends:
  assumes "tunnel_ok targets reach name t" and "length name \<le> 65535"
  shows "\<not> (\<exists>f. f 0 = t \<and> (\<forall>i. tunnel_step targets reach name (f i) (f (Suc i))))"
proof
  assume "\<exists>f. f 0 = t \<and> (\<forall>i. tunnel_step targets reach name (f i) (f (Suc i)))"
  then obtain f where f: "f 0 = t" "\<And>i. tunnel_step targets reach name (f i) (f (Suc i))" by blast
  have "tunnel_ok targets reach name (f i)" for i
  proof (induction i)
    case (Suc i)
    then show ?case using tunnel_step_ok [OF r_into_rtranclp [of "tunnel_step targets reach name", OF f(2)]] assms(2) by blast
  qed (use assms(1) f(1) in simp)
  then have "\<forall>i. (f (Suc i), f i) \<in> tunnel_order" using tunnel_step_left f(2) by blast
  moreover have "wf tunnel_order" by (simp add: tunnel_order_def)
  ultimately show False unfolding wf_iff_no_infinite_down_chain by blast
qed

lemma tunnel_stops:
  assumes "tunnel_ok targets reach name t" and "length name \<le> 65535"
  shows "\<exists>t'. (tunnel_step targets reach name)\<^sup>*\<^sup>* t t' \<and> \<not> (\<exists>t''. tunnel_step targets reach name t' t'')"
proof -
  have "wf tunnel_order" by (simp add: tunnel_order_def)
  then show ?thesis using assms(1)
  proof (induction t rule: wf_induct_rule)
    case (less t)
    show ?case
    proof (cases "\<exists>u. tunnel_step targets reach name t u")
      case True
      then obtain u where u: "tunnel_step targets reach name t u" by blast
      have "tunnel_ok targets reach name u"
        using tunnel_step_ok [OF r_into_rtranclp [of "tunnel_step targets reach name", OF u] less.prems assms(2)] .
      with less.IH [OF tunnel_step_left [OF u less.prems]] u show ?thesis
        by (blast intro: converse_rtranclp_into_rtranclp)
    qed auto
  qed
qed

section \<open>Where a tunnel comes to rest\<close>

definition at_rest :: "(string \<rightharpoonup> string) \<Rightarrow> (string \<Rightarrow> bool) \<Rightarrow> string \<Rightarrow> live_tunnel \<Rightarrow> bool" where
  "at_rest targets reach name t \<longleftrightarrow> \<not> (\<exists>t'. tunnel_step targets reach name t t')"

lemma rest_no_step:
  assumes "at_rest targets reach name t"
  shows "\<not> a_step name t t'" and "\<not> b_step targets reach t t'" and "\<not> stream_step t t'"
  using assms by (auto simp: at_rest_def)

lemma rest_seen_b:
  assumes "at_rest targets reach name t" and "wires_ok t" and "before_splice (at_b t) \<or> (\<exists>a. at_b t = Serving a \<and> \<not> over (from_a t))"
  shows "seen_by_b t = sent_to_b t"
proof (rule ccontr)
  assume "seen_by_b t \<noteq> sent_to_b t"
  moreover obtain bs where "sent_to_b t = seen_by_b t @ bs" using assms(2) by (auto simp: wires_ok_def prefix_def)
  ultimately have "bs \<noteq> []" "prefix (seen_by_b t @ bs) (sent_to_b t)" by auto
  with assms(3) to_b_early [of t bs] to_b_late [of t _ bs] rest_no_step(3) [OF assms(1)] show False by blast
qed

lemma rest_seen_a:
  assumes "at_rest targets reach name t" and "wires_ok t" and "before_answer (at_a t) \<or> at_a t = Relaying \<and> \<not> over (from_b t)"
  shows "seen_by_a t = sent_to_a t"
proof (rule ccontr)
  assume "seen_by_a t \<noteq> sent_to_a t"
  moreover obtain bs where "sent_to_a t = seen_by_a t @ bs" using assms(2) by (auto simp: wires_ok_def prefix_def)
  ultimately have "bs \<noteq> []" "prefix (seen_by_a t @ bs) (sent_to_a t)" by auto
  with assms(3) to_a_early [of t bs] to_a_late [of t bs] rest_no_step(3) [OF assms(1)] show False by blast
qed

text \<open>A does not stop in the header, nor B before it has served or turned away the connection.\<close>

lemma rest_a: "at_rest targets reach name t \<Longrightarrow> at_a t \<noteq> SendingHeader rest"
proof
  assume r: "at_rest targets reach name t" and s: "at_a t = SendingHeader rest"
  show False
  proof (cases rest)
    case Nil
    with s show False using rest_no_step(1) [OF r] starts_feeding [of t] by blast
  next
    case (Cons x xs)
    then show False using rest_no_step(1) [OF r] sends_header [OF s, of 1 name] by simp
  qed
qed

lemma rest_b:
  assumes "at_rest targets reach name t" and "tunnel_ok targets reach name t" and "unbroken targets reach name t"
    and "length name \<le> 65535"
  shows "(\<exists>a. at_b t = Serving a) \<or> (\<exists>r. at_b t = Served r)"
proof (cases "at_b t")
  case ReadingFrame
  have a: "a_ok name t" and b: "b_ok targets reach name t" and w: "wires_ok t"
    using assms(2) by (simp_all add: tunnel_ok_def)
  have fits: "frame_fits (header_read t)" using b by (simp add: b_ok_def)
  note read = frame_read_prefix [OF header_read_prefix [OF a w] _ fits]
  note no = rest_no_step(2) [OF assms(1)]
  have ok: "\<not> frame_too_long (header_read t)" using too_long [OF ReadingFrame] no by blast
  have early: "before_splice (at_b t)" using ReadingFrame by (simp add: before_splice_def)
  have "waiting_b t = []" if w0: "0 < frame_wants (header_read t)"
  proof (rule ccontr)
    assume "waiting_b t \<noteq> []"
    then show False using reads_frame [OF ReadingFrame ok, of 1 targets reach] no w0 by (simp add: Suc_leI)
  qed
  moreover have "header_sent t = header_of name" using assms(3) rest_a [OF assms(1)] by (simp add: unbroken_def)
  moreover have "seen_by_b t = sent_to_b t" using rest_seen_b [OF assms(1) w] early by blast
  ultimately have "0 < frame_wants (header_read t) \<Longrightarrow> header_read t = header_of name @ delivered (to_b t)"
    using early_b [OF b early] by (simp add: stream_defs)
  then have "0 < frame_wants (header_read t) \<Longrightarrow> header_read t = header_of name"
    using read(1) assms(4) by (auto simp: prefix_def)
  then have "frame_wants (header_read t) = 0"
    using read(4) assms(4) by (cases "frame_wants (header_read t)") auto
  then show ?thesis using looks_up [OF ReadingFrame ok] no by blast
next
  case InboundDropped
  then show ?thesis using assms(3) by (simp add: unbroken_def)
qed (use rest_no_step(2) [OF assms(1)] dials refuses accepts in blast)+

text \<open>In a tunnel that B serves, nothing is left to do in either route.\<close>

lemma rest_served:
  assumes "at_rest targets reach name t" and "tunnel_ok targets reach name t" and "unbroken targets reach name t"
    and "servable targets reach name"
  shows "(\<exists>a. at_b t = Serving a) \<or> at_b t = Served (Inr ())"
    and "at_a t = Relaying \<or> at_a t = Relayed (Inr ())"
proof -
  have l: "length name \<le> 65535" using assms(4) by (simp add: servable_def MAX_NAME_LEN_def)
  have a: "a_ok name t" and b: "b_ok targets reach name t" and w: "wires_ok t"
    using assms(2) by (simp_all add: tunnel_ok_def)
  have "at_b t \<noteq> Served (Inl e)" for e using assms(3,4) by (auto simp: unbroken_def)
  with rest_b [OF assms(1-3) l] show bs: "(\<exists>a. at_b t = Serving a) \<or> at_b t = Served (Inr ())"
    by (metis sum.exhaust old.unit.exhaust)
  have "answer_sent t = [1]"
  proof (rule ccontr)
    assume no: "answer_sent t \<noteq> [1]"
    then have "from_a t = copy_start" using b by (simp add: b_ok_def)
    with bs no b assms(3) show False by (auto simp: b_ok_def unbroken_def)
  qed
  moreover have "seen_by_a t = sent_to_a t" "from_b t = copy_start" "answer_read t = []" if "at_a t = AwaitingAnswer"
    using rest_seen_a [OF assms(1) w] a that by (simp_all add: before_answer_def a_ok_def)
  ultimately have "waiting_a t = 1 # delivered (from_target t)" if "at_a t = AwaitingAnswer"
    using that by (simp add: stream_defs)
  then have "at_a t \<noteq> AwaitingAnswer" using answered [of t] rest_no_step(1) [OF assms(1)] by blast
  moreover have "at_a t \<noteq> Relayed (Inl e)" for e using assms(3,4) by (auto simp: unbroken_def)
  moreover have "at_a t \<noteq> RelayDropped" using assms(3) by (simp add: unbroken_def)
  ultimately show "at_a t = Relaying \<or> at_a t = Relayed (Inr ())"
    using rest_a [OF assms(1)] by (metis relay_point.exhaust sum.exhaust old.unit.exhaust)
qed

lemma rest_routes:
  assumes "at_rest targets reach name t" and "tunnel_ok targets reach name t" and "unbroken targets reach name t"
    and "servable targets reach name"
  shows "\<not> (\<exists>r. route_step [to_b t, from_a t] r)" and "\<not> (\<exists>r. route_step [from_target t, from_b t] r)"
proof -
  have a: "a_ok name t" and b: "b_ok targets reach name t" and w: "wires_ok t" and c: "connection_ok (pipes t)"
    using assms(2) by (simp_all add: tunnel_ok_def)
  note ends = rest_served [OF assms]
  note no = rest_no_step [OF assms(1)]
  have cl: "copy_ok (to_b t)" "copy_ok (from_a t)" "copy_ok (from_target t)" "copy_ok (from_b t)"
    using c by (simp_all add: pipes_ok)
  have t1: "\<not> copy_step (to_b t) d" for d
    using ends(2) no(1) feeds_b [of t d] assms(3) closed_stays [of "to_b t" d] cl by (auto simp: unbroken_def)
  have t4: "\<not> copy_step (from_b t) d" for d
    using ends(2) no(1) feeds_client [of t d] assms(3) closed_stays [of "from_b t" d] cl by (auto simp: unbroken_def)
  have t2: "\<not> copy_step (from_a t) d" for d
    using ends(1) no(2) feeds_target [of t _ d] assms(3) closed_stays [of "from_a t" d] cl by (auto simp: unbroken_def)
  have t3: "\<not> copy_step (from_target t) d" for d
    using ends(1) no(2) feeds_a [of t _ d] assms(3) closed_stays [of "from_target t" d] cl by (auto simp: unbroken_def)
  have out: "arrived (from_a t) = delivered (to_b t) \<and> \<not> closed (to_b t)" if "\<not> over (from_a t)"
  proof -
    have "at_b t \<noteq> Served (Inr ())" using that assms(3) closed_delivered [OF cl(2)] by (auto simp: unbroken_def)
    then obtain s where s: "at_b t = Serving s" using ends(1) by blast
    have seen: "seen_by_b t = sent_to_b t" using rest_seen_b [OF assms(1) w] s that by blast
    have "header_read t = header_of name" "waiting_b t = []" using b s by (auto simp: b_ok_def)
    moreover have "header_sent t = header_of name" using assms(3) rest_a [OF assms(1)] by (simp add: unbroken_def)
    ultimately show ?thesis using seen end_to_b_late [OF s _ seen that] no(3) by (auto simp: stream_defs)
  qed
  have home: "arrived (from_b t) = delivered (from_target t) \<and> \<not> closed (from_target t)" if "\<not> over (from_b t)"
  proof -
    have "at_a t \<noteq> Relayed (Inr ())" using that assms(3) closed_delivered [OF cl(4)] by (auto simp: unbroken_def)
    then have s: "at_a t = Relaying" using ends(2) by blast
    have seen: "seen_by_a t = sent_to_a t" using rest_seen_a [OF assms(1) w] s that by blast
    have r: "answer_read t = [1]" "waiting_a t = []" using a s by (auto simp: a_ok_def)
    moreover have "answer_sent t = [1]" using answer_is_first [OF b w, of "[]"] r by simp
    ultimately show ?thesis using seen end_to_a_late [OF s _ seen that] no(3) by (auto simp: stream_defs)
  qed
  show "\<not> (\<exists>r. route_step [to_b t, from_a t] r)"
    using t1 t2 out by (auto elim!: route_step.cases)
  show "\<not> (\<exists>r. route_step [from_target t, from_b t] r)"
    using t3 t4 home by (auto elim!: route_step.cases)
qed

lemma rest_delivered:
  assumes "at_rest targets reach name t" and "tunnel_ok targets reach name t" and "unbroken targets reach name t"
    and "servable targets reach name"
  shows "delivered (from_a t) = arrived (to_b t) \<and> (over (to_b t) \<longrightarrow> closed (from_a t))"
    and "delivered (from_b t) = arrived (from_target t) \<and> (over (from_target t) \<longrightarrow> closed (from_b t))"
  using stuck_delivered [OF rest_routes(1) [OF assms]] stuck_delivered [OF rest_routes(2) [OF assms]] assms(2,3)
  by (auto simp: tunnel_ok_def pipes_ok unbroken_def sound_pipes)

lemma rest_returned:
  assumes "at_rest targets reach name t" and "tunnel_ok targets reach name t" and "unbroken targets reach name t"
    and "servable targets reach name" and "over (to_b t)" and "over (from_target t)"
  shows "at_a t = Relayed (Inr ()) \<and> at_b t = Served (Inr ())"
proof -
  have c: "closed (from_a t)" "closed (from_b t)" using rest_delivered [OF assms(1-4)] assms(5,6) by simp_all
  moreover have ok: "route_ok [to_b t, from_a t]" "route_ok [from_target t, from_b t]"
    using assms(2) by (simp_all add: tunnel_ok_def pipes_ok)
  moreover have "over (from_a t)" "over (from_b t)" using c ok closed_delivered by auto
  ultimately have "doing (to_b t) = Ended (Inr ())" "doing (from_a t) = Ended (Inr ())"
    "doing (from_target t) = Ended (Inr ())" "doing (from_b t) = Ended (Inr ())"
    by (simp_all add: copy_ok_def end_ok_def)
  then have "at_a t \<noteq> Relaying" "at_b t \<noteq> Serving s" for s
    using a_returns [of t "Inr ()" "Inr ()" name] b_returns [of t s "Inr ()" targets reach] rest_no_step(1,2) [OF assms(1)]
    by (auto simp: pipe_result_def rbind_def)
  with rest_served [OF assms(1-4)] show ?thesis by blast
qed

lemma tunnel_steps_keep:
  assumes "(tunnel_step targets reach name)\<^sup>*\<^sup>* t t'" and "tunnel_ok targets reach name t" and "length name \<le> 65535"
  shows "inner_step\<^sup>*\<^sup>* (pipes t) (pipes t')"
  using assms(1)
proof (induction rule: rtranclp_induct)
  case (step t1 t2)
  with tunnel_step_pipes [OF step(2) tunnel_step_ok [OF step(1) assms(2,3)]] show ?case by auto
qed simp

lemma calm_then_steps:
  assumes "(calm targets reach name)\<^sup>*\<^sup>* s t" and "(tunnel_step targets reach name)\<^sup>*\<^sup>* t t'"
  shows "(calm targets reach name)\<^sup>*\<^sup>* s t'"
proof -
  have "(calm targets reach name)\<^sup>*\<^sup>* t t'" using assms(2) by (rule rtranclp_mono [THEN predicate2D, rotated]) auto
  with assms(1) show ?thesis by (rule rtranclp_trans)
qed

section \<open>Transparency\<close>


section \<open>What comes to an end\<close>

text \<open>
  C4: A tunnel that B serves never gets stuck and never wastes a byte, whoever speaks first. As long
  as nothing fails, the two ends cannot go on for ever without new input, and where they come to
  rest, everything the client had sent, and what A had read of it before, is with the target, and
  everything the target had sent with the client, although each side may be waiting for the other
  to speak; the end of a stream has been passed on; and once both peers have finished, both
  \<open>relay\<close> and \<open>handle_inbound_stream\<close> have returned without an error.
\<close>

theorem live_tunnel_drains:
  assumes "servable targets reach name"
    and "(calm targets reach name)\<^sup>*\<^sup>* (tunnel_start name pre) t"
    and "(tunnel_step targets reach name)\<^sup>*\<^sup>* t t'"
  shows "\<not> (\<exists>f. f 0 = t' \<and> (\<forall>i. tunnel_step targets reach name (f i) (f (Suc i))))
    \<and> put (fst (tunnel_links t')) = put (fst (tunnel_links t)) \<and> put (snd (tunnel_links t')) = put (snd (tunnel_links t))
    \<and> (at_rest targets reach name t' \<longrightarrow>
         got (fst (tunnel_links t')) = put (fst (tunnel_links t)) \<and> got (snd (tunnel_links t')) = put (snd (tunnel_links t))
         \<and> (put_end (fst (tunnel_links t)) \<longrightarrow> got_end (fst (tunnel_links t')))
         \<and> (put_end (snd (tunnel_links t)) \<longrightarrow> got_end (snd (tunnel_links t')))
         \<and> (put_end (fst (tunnel_links t)) \<and> put_end (snd (tunnel_links t)) \<longrightarrow>
              at_a t' = Relayed (Inr ()) \<and> at_b t' = Served (Inr ())))"
proof -
  have l: "length name \<le> 65535" using assms(1) by (simp add: servable_def MAX_NAME_LEN_def)
  note ok = calm_reach [OF assms(2) l] and ok' = calm_reach [OF calm_then_steps [OF assms(2,3)] l]
  have same: "arrived (to_b t') = arrived (to_b t)" "arrived (from_target t') = arrived (from_target t)"
    "over (to_b t') = over (to_b t)" "over (from_target t') = over (from_target t)"
    using inner_puts [OF tunnel_steps_keep [OF assms(3) _ l]] ok by (simp_all add: links_of_def link_of_def)
  have "\<not> (\<exists>f. f 0 = t' \<and> (\<forall>i. tunnel_step targets reach name (f i) (f (Suc i))))"
    using tunnel_ends l ok' by blast
  moreover have "at_rest targets reach name t' \<Longrightarrow>
      delivered (from_a t') = arrived (to_b t) \<and> (over (to_b t) \<longrightarrow> closed (from_a t'))
      \<and> delivered (from_b t') = arrived (from_target t) \<and> (over (from_target t) \<longrightarrow> closed (from_b t'))
      \<and> (over (to_b t) \<and> over (from_target t) \<longrightarrow> at_a t' = Relayed (Inr ()) \<and> at_b t' = Served (Inr ()))"
    using rest_delivered [of targets reach name t'] rest_returned [of targets reach name t'] ok' assms(1) same by simp
  ultimately show ?thesis using same by (simp add: links_of_def link_of_def)
qed



section \<open>A tunnel that runs through\<close>

text \<open>A tunnel that A had read a byte of, where the client says hi and finishes, and then the target.\<close>

definition web_targets :: "string \<rightharpoonup> string" where
  "web_targets = [''web'' \<mapsto> ''t:1'']"

lemma web_servable: "servable web_targets (\<lambda>a. True) ''web''"
  using from_utf8_ascii [of "''web''"]
  by (simp add: servable_def look_up_def web_targets_def is_ascii_def MAX_NAME_LEN_def)

lemma web_said_hi:
  "\<exists>t. (calm targets reach ''web'')\<^sup>*\<^sup>* (tunnel_start ''web'' [22]) t
     \<and> tunnel_links t = (\<lparr>put = [22, 104, 105], put_end = True, got = [], got_end = False\<rparr>, link_start)"
proof -
  let ?s = "tunnel_start ''web'' [22]"
  let ?t = "?s\<lparr>to_b := take_in [104, 105] (to_b ?s)\<rparr>"
  let ?u = "?t\<lparr>to_b := take_end (to_b ?t)\<rparr>"
  have "peer_step ?s ?t" by (intro client_sends says) (simp_all add: tunnel_start_def)
  moreover have "peer_step ?t ?u" by (intro client_sends finishes) (simp add: tunnel_start_def)
  ultimately have "(calm targets reach ''web'')\<^sup>*\<^sup>* ?s ?u"
    by (blast intro: sup2I2 r_into_rtranclp rtranclp_trans)
  moreover have "tunnel_links ?u = (\<lparr>put = [22, 104, 105], put_end = True, got = [], got_end = False\<rparr>, link_start)"
    by (simp add: links_of_def link_of_def tunnel_start_def link_start_def)
  ultimately show ?thesis by blast
qed

lemma calm_moves: "(calm targets reach name)\<^sup>*\<^sup>* s t \<Longrightarrow> (tunnel_move targets reach name)\<^sup>*\<^sup>* s t"
  by (rule rtranclp_mono [THEN predicate2D, rotated]) auto

lemma web_length: "length ''web'' \<le> 65535"
  by simp

lemma web_at_rest:
  "\<exists>t. (calm targets reach ''web'')\<^sup>*\<^sup>* (tunnel_start ''web'' [22]) t \<and> at_rest targets reach ''web'' t
     \<and> put (fst (tunnel_links t)) = [22, 104, 105] \<and> put_end (fst (tunnel_links t))
     \<and> put (snd (tunnel_links t)) = [] \<and> \<not> put_end (snd (tunnel_links t))"
proof -
  obtain t where t: "(calm targets reach ''web'')\<^sup>*\<^sup>* (tunnel_start ''web'' [22]) t"
    "tunnel_links t = (\<lparr>put = [22, 104, 105], put_end = True, got = [], got_end = False\<rparr>, link_start)"
    using web_said_hi by blast
  have ok: "tunnel_ok targets reach ''web'' t" using calm_reach [OF t(1) web_length] by blast
  obtain t' where t': "(tunnel_step targets reach ''web'')\<^sup>*\<^sup>* t t'" "at_rest targets reach ''web'' t'"
    using tunnel_stops [OF ok web_length] by (auto simp: at_rest_def)
  have "put (fst (tunnel_links t')) = [22, 104, 105] \<and> put_end (fst (tunnel_links t'))
     \<and> put (snd (tunnel_links t')) = [] \<and> \<not> put_end (snd (tunnel_links t'))"
    using inner_puts [OF tunnel_steps_keep [OF t'(1) ok web_length]] t(2) by (simp add: link_start_def)
  with calm_then_steps [OF t(1) t'(1)] t'(2) show ?thesis by blast
qed

lemma web_both_finish:
  "\<exists>t. (calm web_targets (\<lambda>a. True) ''web'')\<^sup>*\<^sup>* (tunnel_start ''web'' [22]) t
     \<and> put (fst (tunnel_links t)) = [22, 104, 105] \<and> put_end (fst (tunnel_links t)) \<and> put_end (snd (tunnel_links t))"
proof -
  obtain t where t: "(calm web_targets (\<lambda>a. True) ''web'')\<^sup>*\<^sup>* (tunnel_start ''web'' [22]) t"
    "at_rest web_targets (\<lambda>a. True) ''web'' t" "put (fst (tunnel_links t)) = [22, 104, 105]"
    "put_end (fst (tunnel_links t))" "\<not> put_end (snd (tunnel_links t))"
    using web_at_rest by blast
  note ok = calm_reach [OF t(1) web_length]
  have open_back: "\<not> over (from_target t)" using t(5) by (simp add: links_of_def link_of_def)
  have "copy_ok (from_target t)" using ok by (simp add: tunnel_ok_def pipes_ok)
  then have "at_b t \<noteq> Served (Inr ())" using ok open_back closed_delivered by (auto simp: unbroken_def)
  then obtain s where s: "at_b t = Serving s" using rest_served(1) [OF t(2) _ _ web_servable] ok by blast
  let ?u = "t\<lparr>from_target := take_end (from_target t)\<rparr>"
  have "peer_step t ?u" by (rule target_sends [of t s]) (use s open_back in \<open>auto intro: finishes\<close>)
  then have "(calm web_targets (\<lambda>a. True) ''web'')\<^sup>*\<^sup>* (tunnel_start ''web'' [22]) ?u"
    using t(1) by (auto intro: rtranclp.rtrancl_into_rtrancl)
  then show ?thesis using t(3,4) by (intro exI [of _ ?u]) (simp add: links_of_def link_of_def)
qed

lemma web_finished:
  "\<exists>t. (calm web_targets (\<lambda>a. True) ''web'')\<^sup>*\<^sup>* (tunnel_start ''web'' [22]) t
     \<and> put (fst (tunnel_links t)) = [22, 104, 105] \<and> at_a t = Relayed (Inr ()) \<and> at_b t = Served (Inr ())"
proof -
  obtain t where t: "(calm web_targets (\<lambda>a. True) ''web'')\<^sup>*\<^sup>* (tunnel_start ''web'' [22]) t"
    "put (fst (tunnel_links t)) = [22, 104, 105]" "put_end (fst (tunnel_links t))" "put_end (snd (tunnel_links t))"
    using web_both_finish by blast
  note ok = calm_reach [OF t(1) web_length]
  obtain t' where t': "(tunnel_step web_targets (\<lambda>a. True) ''web'')\<^sup>*\<^sup>* t t'" "at_rest web_targets (\<lambda>a. True) ''web'' t'"
    using tunnel_stops [OF conjunct1 [OF ok] web_length] by (auto simp: at_rest_def)
  note run = calm_then_steps [OF t(1) t'(1)]
  have same: "put (fst (tunnel_links t')) = [22, 104, 105]" "over (to_b t')" "over (from_target t')"
    using inner_puts [OF tunnel_steps_keep [OF t'(1) conjunct1 [OF ok] web_length]] t(2-4)
    by (simp_all add: links_of_def link_of_def)
  with rest_returned [OF t'(2) _ _ web_servable] calm_reach [OF run web_length] run show ?thesis by blast
qed


theorem live_tunnel_drains_witness:
  "\<exists>t t' :: live_tunnel. (calm web_targets (\<lambda>a. True) ''web'')\<^sup>*\<^sup>* (tunnel_start ''web'' [22]) t
     \<and> (tunnel_step web_targets (\<lambda>a. True) ''web'')\<^sup>*\<^sup>* t t'
     \<and> got (fst (tunnel_links t')) = [22, 104, 105] \<and> at_a t' = Relayed (Inr ()) \<and> at_b t' = Served (Inr ())"
proof -
  obtain t where t: "(calm web_targets (\<lambda>a. True) ''web'')\<^sup>*\<^sup>* (tunnel_start ''web'' [22]) t"
    "put (fst (tunnel_links t)) = [22, 104, 105]" "put_end (fst (tunnel_links t))" "put_end (snd (tunnel_links t))"
    using web_both_finish by blast
  obtain t' where t': "(tunnel_step web_targets (\<lambda>a. True) ''web'')\<^sup>*\<^sup>* t t'" "at_rest web_targets (\<lambda>a. True) ''web'' t'"
    using tunnel_stops [OF conjunct1 [OF calm_reach [OF t(1) web_length]] web_length] by (auto simp: at_rest_def)
  from live_tunnel_drains [OF web_servable t(1) t'(1)] t t' show ?thesis by auto
qed



end
