(* ===== verification/Forward.thy ===== *)
theory Forward
  imports Reverse_Tunnel
begin

text \<open>
  Direct forwarding over TCP (\<open>forward.rs\<close>) and its companion (\<open>client.rs\<close>): which listeners a
  set of rules starts, the token exchange after a TLS handshake, and a connection from accept to
  close. The TLS and Noise handshakes are arguments that turn a raw stream into the stream of
  plaintext; a stream is a feed and a sink.
\<close>

section \<open>Starting up\<close>

type_synonym stream = "feed \<times> sink"

datatype run_error = NoMapping | BadRule config_error

definition tcp_rule :: "forward_rule \<Rightarrow> bool" where
  "tcp_rule r \<longleftrightarrow> fw_protocol r = KindTcp \<or> fw_protocol r = KindBoth"

definition udp_rule :: "forward_rule \<Rightarrow> bool" where
  "udp_rule r \<longleftrightarrow> fw_protocol r = KindUdp \<or> fw_protocol r = KindBoth"

definition rule_tasks :: "forward_rule \<Rightarrow> (protocol \<times> forward_rule) list" where
  "rule_tasks r = (if tcp_rule r then [(Tcp, r)] else []) @ (if udp_rule r then [(Udp, r)] else [])"

definition run_forward :: "forward_rule list \<Rightarrow> run_error + (protocol \<times> forward_rule) list" where
  "run_forward rules =
     (if rules = [] then Inl NoMapping
      else rbind (map_err BadRule (try_map forward_validate rules)) (\<lambda>_. Inr (concat (map rule_tasks rules))))"

definition run_client :: "client_rule list \<Rightarrow> run_error + client_rule list" where
  "run_client rules =
     (if rules = [] then Inl NoMapping
      else rbind (map_err BadRule (try_map client_validate rules)) (\<lambda>_. Inr rules))"

datatype conn_security = PlainConn | TlsConn | NoiseConn psk

text \<open>The security of a TCP listener; \<open>None\<close> is the panic of the \<open>expect\<close> on a missing token.\<close>

definition listener_security :: "(byte list \<Rightarrow> byte list) \<Rightarrow> forward_rule \<Rightarrow> conn_security option" where
  "listener_security sha256 r = (case fw_transport r of
     None \<Rightarrow> Some PlainConn
   | Some Tls \<Rightarrow> Some TlsConn
   | Some Noise \<Rightarrow> map_option (\<lambda>t. NoiseConn (derive_psk sha256 t)) (fw_token r))"

section \<open>The token exchange\<close>

datatype conn_error = TlsHandshakeFailed | ReadingToken io_error | TokenMismatch | SendingAck io_error
  | NoiseHandshakeFailed | ConnectingTo string | CopyFailed io_error | ConnPending
  | SendingToken io_error | ReadingAck io_error | TokenRejected | MissingToken

definition check_token :: "string \<Rightarrow> stream \<Rightarrow> (conn_error + feed) \<times> sink" where
  "check_token token = (\<lambda>(f, k). case read_frame feed_read_exact MAX_TOKEN_LEN f of
     (Inl e, _) \<Rightarrow> (Inl (ReadingToken e), k)
   | (Inr presented, f') \<Rightarrow>
       if \<not> constant_time_eq presented (as_bytes token)
       then (Inl TokenMismatch, snd (sink_write [0] k))
       else (case sink_write [1] k of
               (Inl e, k') \<Rightarrow> (Inl (SendingAck e), k')
             | (Inr _, k') \<Rightarrow> (Inr f', k')))"

definition present_token :: "string \<Rightarrow> stream \<Rightarrow> (conn_error + feed) \<times> sink" where
  "present_token token = (\<lambda>(f, k). case write_frame sink_write sink_flush (as_bytes token) k of
     (Inl e, k') \<Rightarrow> (Inl (SendingToken e), k')
   | (Inr _, k') \<Rightarrow> (case feed_read_exact 1 f of
         (Inl e, _) \<Rightarrow> (Inl (ReadingAck e), k')
       | (Inr ack, f') \<Rightarrow> if ack \<noteq> [1] then (Inl TokenRejected, k') else (Inr f', k')))"

section \<open>A connection\<close>

text \<open>The stream of plaintext with the client, or the error and what the client was sent.\<close>

definition secure_accept ::
  "(stream \<Rightarrow> stream option) \<Rightarrow> (psk \<Rightarrow> stream \<Rightarrow> stream option) \<Rightarrow> conn_security \<Rightarrow> string option
    \<Rightarrow> stream \<Rightarrow> (conn_error + feed) \<times> sink" where
  "secure_accept tls noise sec token client = (case sec of
     PlainConn \<Rightarrow> (Inr (fst client), snd client)
   | TlsConn \<Rightarrow> (case tls client of
        None \<Rightarrow> (Inl TlsHandshakeFailed, snd client)
      | Some s \<Rightarrow> (case token of None \<Rightarrow> (Inr (fst s), snd s) | Some t \<Rightarrow> check_token t s))
   | NoiseConn p \<Rightarrow> (case noise p client of
        None \<Rightarrow> (Inl NoiseHandshakeFailed, snd client)
      | Some s \<Rightarrow> (Inr (fst s), snd s)))"

definition splice ::
  "clocks \<Rightarrow> clocks \<Rightarrow> string \<Rightarrow> string \<Rightarrow> string \<Rightarrow> feed \<Rightarrow> sink \<Rightarrow> feed \<Rightarrow> sink \<Rightarrow> registry
    \<Rightarrow> (conn_error + unit) \<times> sink \<times> sink \<times> registry" where
  "splice now later lb src dst ar aw br bw reg =
     (let (info, reg1) = reg_open now lb Tcp src dst reg
      in (case pipe_bidirectional_tracked ar aw br bw 0 0 of (r, aw', bw', n, m) \<Rightarrow>
            if r = Inl Stalled then (Inl ConnPending, aw', bw', reg1)
            else (map_err CopyFailed r, aw', bw', count_and_close later info n m reg1)))"

definition handle_tcp_conn ::
  "(stream \<Rightarrow> stream option) \<Rightarrow> (psk \<Rightarrow> stream \<Rightarrow> stream option) \<Rightarrow> (string \<Rightarrow> stream option)
    \<Rightarrow> clocks \<Rightarrow> clocks \<Rightarrow> forward_rule \<Rightarrow> conn_security \<Rightarrow> string \<Rightarrow> stream \<Rightarrow> registry
    \<Rightarrow> (conn_error + unit) \<times> sink \<times> sink option \<times> registry" where
  "handle_tcp_conn tls noise dial now later rule sec peer client reg =
     (case secure_accept tls noise sec (fw_token rule) client of
        (Inl e, k) \<Rightarrow> (Inl e, k, None, reg)
      | (Inr f, k) \<Rightarrow> (case dial (fw_target rule) of
            None \<Rightarrow> (Inl (ConnectingTo (fw_target rule)), k, None, reg)
          | Some (tr, tw) \<Rightarrow>
              (case splice now later (''forward:'' @ forward_label rule) peer (fw_target rule) f k tr tw reg of
                 (r, k', tw', reg') \<Rightarrow> (r, k', Some tw', reg'))))"

text \<open>The companion: dial the far side first, secure that leg, then splice.\<close>

definition secure_connect ::
  "(stream \<Rightarrow> stream option) \<Rightarrow> (psk \<Rightarrow> stream \<Rightarrow> stream option) \<Rightarrow> (byte list \<Rightarrow> byte list) \<Rightarrow> client_rule
    \<Rightarrow> stream \<Rightarrow> (conn_error + feed) \<times> sink" where
  "secure_connect tls noise sha256 rule remote = (case cl_transport rule of
     Tls \<Rightarrow> (case tls remote of
        None \<Rightarrow> (Inl TlsHandshakeFailed, snd remote)
      | Some s \<Rightarrow> (case cl_token rule of None \<Rightarrow> (Inr (fst s), snd s) | Some t \<Rightarrow> present_token t s))
   | Noise \<Rightarrow> (case cl_token rule of
        None \<Rightarrow> (Inl MissingToken, snd remote)
      | Some t \<Rightarrow> (case noise (derive_psk sha256 t) remote of
            None \<Rightarrow> (Inl NoiseHandshakeFailed, snd remote)
          | Some s \<Rightarrow> (Inr (fst s), snd s))))"

definition handle_local_conn ::
  "(stream \<Rightarrow> stream option) \<Rightarrow> (psk \<Rightarrow> stream \<Rightarrow> stream option) \<Rightarrow> (byte list \<Rightarrow> byte list)
    \<Rightarrow> (string \<Rightarrow> stream option) \<Rightarrow> clocks \<Rightarrow> clocks \<Rightarrow> client_rule \<Rightarrow> string \<Rightarrow> stream \<Rightarrow> registry
    \<Rightarrow> (conn_error + unit) \<times> sink \<times> registry" where
  "handle_local_conn tls noise sha256 dial now later rule peer local_conn reg =
     (case dial (cl_server rule) of
        None \<Rightarrow> (Inl (ConnectingTo (cl_server rule)), snd local_conn, reg)
      | Some remote \<Rightarrow> (case secure_connect tls noise sha256 rule remote of
            (Inl e, _) \<Rightarrow> (Inl e, snd local_conn, reg)
          | (Inr f, k) \<Rightarrow>
              (case splice now later (''client:'' @ client_label rule) peer (cl_server rule)
                      (fst local_conn) (snd local_conn) f k reg of
                 (r, lk, _, reg') \<Rightarrow> (r, lk, reg'))))"

section \<open>A listener\<close>

text \<open>
  The accept loop over what \<open>accept\<close> answers, \<open>None\<close> an error: the connections it spawned a task
  for, and whether it has ended. \<open>run_tcp_forward\<close> and \<open>run_client_map\<close> return the error a listener
  ends with, or nothing while it listens.
\<close>

fun accept_all :: "'c option list \<Rightarrow> 'c list \<times> bool" where
  "accept_all [] = ([], False)"
| "accept_all (Some c # rest) = (case accept_all rest of (cs, ended) \<Rightarrow> (c # cs, ended))"
| "accept_all (None # rest) = ([], True)"

datatype listener_error = BindingListener string | MakingCertificate | TokenPanic | AcceptFailed

definition run_tcp_forward ::
  "(string \<Rightarrow> bool) \<Rightarrow> bool \<Rightarrow> (byte list \<Rightarrow> byte list) \<Rightarrow> forward_rule \<Rightarrow> 'c option list
    \<Rightarrow> listener_error option \<times> (conn_security \<times> 'c) list" where
  "run_tcp_forward binds certifies sha256 rule arrivals =
     (if \<not> binds (fw_listen rule) then (Some (BindingListener (fw_listen rule)), [])
      else case listener_security sha256 rule of
        None \<Rightarrow> (Some TokenPanic, [])
      | Some sec \<Rightarrow>
          if sec = TlsConn \<and> \<not> certifies then (Some MakingCertificate, [])
          else (case accept_all arrivals of (cs, ended) \<Rightarrow>
                 (if ended then Some AcceptFailed else None, map (Pair sec) cs)))"

definition run_client_map ::
  "(string \<Rightarrow> bool) \<Rightarrow> client_rule \<Rightarrow> 'c option list \<Rightarrow> listener_error option \<times> 'c list" where
  "run_client_map binds rule arrivals =
     (if \<not> binds (cl_listen rule) then (Some (BindingListener (cl_listen rule)), [])
      else (case accept_all arrivals of (cs, ended) \<Rightarrow> (if ended then Some AcceptFailed else None, cs)))"

section \<open>Lemmas\<close>

lemma valid_rule_security: "forward_validate r = Inr u \<Longrightarrow> listener_security sha256 r \<noteq> None"
  by (cases "fw_transport r"; cases "the (fw_transport r)")
    (auto simp: forward_validate_def listener_security_def split: if_splits)

lemma accept_all_prefix:
  "accept_all arrivals = (map the (takeWhile (\<lambda>c. c \<noteq> None) arrivals), None \<in> set arrivals)"
  by (induction arrivals rule: accept_all.induct) auto


lemma try_map_validate: "try_map f xs = Inr ys \<Longrightarrow> x \<in> set xs \<Longrightarrow> \<exists>y. f x = Inr y"
  by (induction xs arbitrary: ys) (auto simp: rbind_eq_Inr_iff)

lemma feed_read_frame_sound:
  "read_frame feed_read_exact n f = (Inr data, f') \<Longrightarrow> feed_bytes f = frame_bytes data @ feed_bytes f'"
  using feed.read_frame_sound by blast

section \<open>Properties\<close>

text \<open>
  \<open>forward\<close> starts a TCP listener for exactly the rules whose protocol is TCP or both, a UDP
  listener for exactly those that say UDP or both, and only if every rule passed its check; so
  setting up the security of a TCP listener never meets the missing token it \<open>expect\<close>s.
\<close>

theorem forward_listeners:
  assumes "run_forward rules = Inr tasks"
  shows "((Tcp, r) \<in> set tasks \<longleftrightarrow> r \<in> set rules \<and> fw_protocol r \<noteq> KindUdp)
    \<and> ((Udp, r) \<in> set tasks \<longleftrightarrow> r \<in> set rules \<and> fw_protocol r \<noteq> KindTcp)
    \<and> ((p, r) \<in> set tasks \<longrightarrow> listener_security sha256 r \<noteq> None)"
proof -
  obtain us where v: "try_map forward_validate rules = Inr us" and t: "tasks = concat (map rule_tasks rules)"
    using assms by (auto simp: run_forward_def rbind_eq_Inr_iff split: if_splits)
  have mem: "(q, r) \<in> set tasks \<longleftrightarrow> r \<in> set rules \<and> (q, r) \<in> set (rule_tasks r)" for q
    by (auto simp: t rule_tasks_def split: if_splits)
  have "listener_security sha256 r \<noteq> None" if "r \<in> set rules"
  proof -
    from try_map_validate [OF v that] obtain u where "forward_validate r = Inr u" ..
    then show ?thesis by (rule valid_rule_security)
  qed
  then show ?thesis
    unfolding mem by (cases "fw_protocol r") (auto simp: rule_tasks_def tcp_rule_def udp_rule_def)
qed

theorem forward_listeners_witness:
  "\<exists>tasks. run_forward [sample_forward\<lparr>fw_token := Some ''k''\<rparr>] = Inr tasks
     \<and> listener_security (\<lambda>b. b) (snd (hd tasks)) \<noteq> None"
proof -
  let ?r = "sample_forward\<lparr>fw_token := Some ''k''\<rparr>"
  have run: "run_forward [?r] = Inr [(Tcp, ?r)]"
    by (simp add: run_forward_def forward_validate_def rule_tasks_def tcp_rule_def udp_rule_def sample_forward_def)
  have "listener_security (\<lambda>b. b) ?r \<noteq> None"
    by (rule mp [OF conjunct2 [OF conjunct2 [OF forward_listeners [OF run]]]]) simp
  with run show ?thesis by auto
qed

text \<open>
  C32: The token exchange over TLS is an equality test on which both sides agree. When the frame the
  client writes reaches the server (followed by any payload) and the server's answer reaches the
  client, and the client's token is at most 4096 bytes: the server accepts if and only if the two
  tokens are equal, the client believes it was accepted if and only if it was, what is left for
  forwarding is exactly the payload, and a wrong token ends with \<open>TokenMismatch\<close> on the server and
  \<open>TokenRejected\<close> on the client.
\<close>

theorem token_exchange:
  assumes "present_token mine (cf, new_sink) = (rc, ck)" and "check_token theirs (sf, new_sink) = (rs, sk)"
    and "feed_bytes sf = sink_bytes ck @ payload" and "feed_bytes cf = sink_bytes sk @ reply"
    and "length mine \<le> MAX_TOKEN_LEN"
  shows "(if mine = theirs then (\<exists>f g. rs = Inr f \<and> feed_bytes f = payload \<and> rc = Inr g \<and> feed_bytes g = reply)
          else rs = Inl TokenMismatch \<and> rc = Inl TokenRejected)"
proof -
  have new: "sink_ok new_sink" "sink_bytes new_sink = []"
    by (simp_all add: new_sink_def sink_ok_def sink_bytes_def)
  have len: "length (as_bytes mine) \<le> MAX_TOKEN_LEN" "length (as_bytes mine) \<le> 65535"
    using assms(5) by (simp_all add: MAX_TOKEN_LEN_def)
  have ck: "ck = sink_put (frame_bytes (as_bytes mine)) new_sink"
    using assms(1) new(1) len(2) by (auto simp: present_token_def sink_frame_open split: prod.splits sum.splits if_splits)
  then have "feed_bytes sf = frame_bytes (as_bytes mine) @ payload" using assms(3) new(2) by simp
  from feed_read_frame [OF this len] obtain f where
    f: "read_frame feed_read_exact MAX_TOKEN_LEN sf = (Inr (as_bytes mine), f)" "feed_bytes f = payload" by blast
  have srv: "(rs, sk) = (if mine = theirs then (Inr f, sink_put [1] new_sink)
      else (Inl TokenMismatch, sink_put [0] new_sink))"
    using assms(2) f(1) new(1) by (auto simp: check_token_def constant_time_eq_iff split: if_splits)
  have cf: "feed_bytes cf = (if mine = theirs then 1 else 0) # reply"
    using assms(4) srv new(2) by (auto split: if_splits)
  have rd: "feed_read_exact 1 cf = (Inr [if mine = theirs then 1 else 0], cf\<lparr>segs := drop_bytes 1 (segs cf)\<rparr>)"
    using cf by (simp add: feed_read_exact_def)
  have "feed_bytes (cf\<lparr>segs := drop_bytes 1 (segs cf)\<rparr>) = reply"
    using cf by (simp add: feed_bytes_def)
  moreover have "rc = (if mine = theirs then Inr (cf\<lparr>segs := drop_bytes 1 (segs cf)\<rparr>) else Inl TokenRejected)"
    using assms(1) new(1) len(2) rd
    by (auto simp: present_token_def sink_frame_open split: if_splits)
  ultimately show ?thesis using srv f(2) by (auto split: if_splits)
qed

theorem token_exchange_witness:
  "fst (present_token ''ab'' (\<lparr>segs = [[0]], fin = Silent\<rparr>, new_sink)) = Inl TokenRejected"
proof -
  let ?cf = "\<lparr>segs = [[0]], fin = Silent\<rparr>"
  let ?sf = "\<lparr>segs = [[0, 2, 97, 98]], fin = Silent\<rparr>"
  have new: "sink_ok new_sink" "sink_bytes new_sink = []"
    by (simp_all add: new_sink_def sink_ok_def sink_bytes_def)
  have fr: "frame_bytes (as_bytes ''ab'') = [0, 2, 97, 98]"
    by (simp add: frame_bytes_def to_be16_def byte_of_char_def)
  obtain rc ck where C: "present_token ''ab'' (?cf, new_sink) = (rc, ck)" by force
  obtain rs sk where S: "check_token ''cd'' (?sf, new_sink) = (rs, sk)" by force
  have "ck = sink_put [0, 2, 97, 98] new_sink"
    using C new(1) sink_frame_open [of new_sink "as_bytes ''ab''"] fr
    by (auto simp: present_token_def split: prod.splits sum.splits if_splits)
  then have 1: "feed_bytes ?sf = sink_bytes ck @ []" using new(2) by (simp add: feed_bytes_def)
  have "feed_bytes ?sf = frame_bytes (as_bytes ''ab'') @ []" unfolding fr by (simp add: feed_bytes_def)
  from feed_read_frame [OF this, of MAX_TOKEN_LEN] obtain f where
    "read_frame feed_read_exact MAX_TOKEN_LEN ?sf = (Inr (as_bytes ''ab''), f)" by (auto simp: MAX_TOKEN_LEN_def)
  then have "sk = sink_put [0] new_sink"
    using S new(1) by (auto simp: check_token_def constant_time_eq_iff)
  then have 2: "feed_bytes ?cf = sink_bytes sk @ []" using new(2) by (simp add: feed_bytes_def)
  from token_exchange [OF C S 1 2] C show ?thesis by (simp add: MAX_TOKEN_LEN_def)
qed



text \<open>
  One failed \<open>accept\<close>, such as a lack of file descriptors, ends a listener for good: no connection
  that arrives after it is served, although the rule passed its checks.
\<close>

theorem accept_error_ends_listener:
  assumes "forward_validate rule = Inr ()" and "binds (fw_listen rule)"
  shows "\<exists>sec. run_tcp_forward binds True sha256 rule (map Some before @ None # map Some after) =
      (Some AcceptFailed, map (Pair sec) before)"
proof -
  obtain sec where "listener_security sha256 rule = Some sec"
    using valid_rule_security [OF assms(1)] by blast
  moreover have "takeWhile (\<lambda>c. c \<noteq> None) (map Some before @ None # map Some after) = map Some before"
    by (induction before) auto
  ultimately have "run_tcp_forward binds True sha256 rule (map Some before @ None # map Some after) =
      (Some AcceptFailed, map (Pair sec) before)"
    using assms(2) by (simp add: run_tcp_forward_def accept_all_prefix comp_def)
  then show ?thesis ..
qed

end
