(* ===== verification/Tls.thy ===== *)
theory Tls
  imports Forward
begin

text \<open>
  The TLS settings (\<open>tls.rs\<close>): the ephemeral certificate, the two configurations and the verifier
  that accepts any certificate. \<open>rcgen\<close> and \<open>rustls\<close> are arguments: \<open>gen\<close> makes a certificate and
  its key for a list of names, \<open>single_cert\<close> builds a server configuration, \<open>check\<close> checks a signature
  with the algorithms of a provider, and \<open>handshake\<close> runs the client's handshake, given the verdict
  on what the server offers. The process-wide provider is a state, \<open>None\<close> until one is installed.
\<close>

section \<open>Definitions\<close>

datatype 'e tls_error = GeneratingCertificate 'e | BuildingServerConfig 'e | NoDefaultProvider

text \<open>\<open>install_default\<close> fails when a provider is installed already, and the failure is ignored.\<close>

definition install_crypto_provider :: "'p \<Rightarrow> 'p option \<Rightarrow> 'p option" where
  "install_crypto_provider ring st = (case st of None \<Rightarrow> Some ring | Some p \<Rightarrow> Some p)"

record ('c, 'k) self_signed_cert =
  cert_der :: 'c
  key_der :: 'k

definition generate_self_signed ::
  "(string list \<Rightarrow> 'e + 'c \<times> 'k) \<Rightarrow> 'e tls_error + ('c, 'k) self_signed_cert" where
  "generate_self_signed gen = (case gen [''erbridge''] of
     Inl e \<Rightarrow> Inl (GeneratingCertificate e)
   | Inr (c, k) \<Rightarrow> Inr \<lparr>cert_der = c, key_der = k\<rparr>)"

definition server_tls_config ::
  "('c list \<Rightarrow> 'k \<Rightarrow> 'e + 'srv) \<Rightarrow> ('c, 'k) self_signed_cert \<Rightarrow> 'e tls_error + 'srv" where
  "server_tls_config single_cert cert =
     map_err BuildingServerConfig (single_cert [cert_der cert] (key_der cert))"

datatype 'p accept_any_cert = AcceptAnyCert (verifier_provider: 'p)

definition client_tls_config :: "'p option \<Rightarrow> 'e tls_error + 'p accept_any_cert" where
  "client_tls_config default_provider =
     (case default_provider of None \<Rightarrow> Inl NoDefaultProvider | Some p \<Rightarrow> Inr (AcceptAnyCert p))"

definition verify_server_cert ::
  "'p accept_any_cert \<Rightarrow> 'c \<Rightarrow> 'c list \<Rightarrow> string \<Rightarrow> byte list \<Rightarrow> nat \<Rightarrow> 'v + unit" where
  "verify_server_cert v end_ent chain name staple now = Inr ()"

type_synonym ('m, 'c, 'd, 'p, 'v) signature_check = "'m \<Rightarrow> 'c \<Rightarrow> 'd \<Rightarrow> 'p \<Rightarrow> 'v + unit"

definition verify_tls12_signature ::
  "('m, 'c, 'd, 'p, 'v) signature_check \<Rightarrow> 'p accept_any_cert \<Rightarrow> 'm \<Rightarrow> 'c \<Rightarrow> 'd \<Rightarrow> 'v + unit" where
  "verify_tls12_signature check12 v m c d = check12 m c d (verifier_provider v)"

definition verify_tls13_signature ::
  "('m, 'c, 'd, 'p, 'v) signature_check \<Rightarrow> 'p accept_any_cert \<Rightarrow> 'm \<Rightarrow> 'c \<Rightarrow> 'd \<Rightarrow> 'v + unit" where
  "verify_tls13_signature check13 v m c d = check13 m c d (verifier_provider v)"

definition supported_verify_schemes :: "('p \<Rightarrow> 'a list) \<Rightarrow> 'p accept_any_cert \<Rightarrow> 'a list" where
  "supported_verify_schemes schemes v = schemes (verifier_provider v)"

section \<open>The two ends of a TLS mapping\<close>

text \<open>\<open>run_tcp_forward\<close> makes its certificate, and from it the acceptor, when it starts.\<close>

definition forward_acceptor ::
  "(string list \<Rightarrow> 'e + 'c \<times> 'k) \<Rightarrow> ('c list \<Rightarrow> 'k \<Rightarrow> 'e + 'srv) \<Rightarrow> 'e tls_error + 'srv" where
  "forward_acceptor gen single_cert = rbind (generate_self_signed gen) (server_tls_config single_cert)"

text \<open>\<open>run_client\<close> makes one connector for all its mappings.\<close>

definition client_connector :: "'p \<Rightarrow> 'p option \<Rightarrow> 'e tls_error + 'p accept_any_cert" where
  "client_connector ring st = client_tls_config (install_crypto_provider ring st)"

text \<open>What a server shows in the handshake, and the channel it leads to.\<close>

record ('c, 'm, 'd) offer =
  is_tls13 :: bool
  end_entity :: 'c
  intermediates :: "'c list"
  ocsp_response :: "byte list"
  message :: 'm
  signed :: 'd
  channel :: stream

definition accepts_offer ::
  "('m, 'c, 'd, 'p, 'v) signature_check \<Rightarrow> ('m, 'c, 'd, 'p, 'v) signature_check \<Rightarrow> 'p accept_any_cert
    \<Rightarrow> string \<Rightarrow> nat \<Rightarrow> ('c, 'm, 'd) offer \<Rightarrow> bool" where
  "accepts_offer check12 check13 v name now offer =
     ((verify_server_cert v (end_entity offer) (intermediates offer) name (ocsp_response offer) now :: 'v + unit) = Inr ()
      \<and> (if is_tls13 offer then verify_tls13_signature check13 v (message offer) (end_entity offer) (signed offer)
         else verify_tls12_signature check12 v (message offer) (end_entity offer) (signed offer)) = Inr ())"

section \<open>Properties\<close>

text \<open>
  A client always gets its configuration, whatever was installed before it, and however many tasks
  install a provider the first one stays.
\<close>

theorem client_connector_total:
  "client_connector ring st = Inr (AcceptAnyCert (case st of None \<Rightarrow> ring | Some p \<Rightarrow> p))
   \<and> client_connector ring' (install_crypto_provider ring st) = (client_connector ring st :: 'e tls_error + _)"
  by (auto simp: client_connector_def client_tls_config_def install_crypto_provider_def split: option.splits)

text \<open>
  The TLS link proves no identity. A companion's mapping with a token hands that token, in full and
  first, to any endpoint that signs the handshake with the key of the certificate it shows, whatever
  that certificate, its chain, the name it was asked for and the time: nothing the endpoint sent
  before was compared with anything the two sides share.
\<close>

theorem tls_token_to_any_endpoint:
  fixes check12 check13 :: "('m, 'c, 'd, 'p, 'v) signature_check"
  assumes completes: "\<And>accepts. accepts shown \<Longrightarrow> handshake accepts remote = Some (channel shown)"
    and "client_connector ring st = (Inr conf :: 'e tls_error + _)"
    and "check12 (message shown) (end_entity shown) (signed shown) (verifier_provider conf) = Inr ()"
    and "check13 (message shown) (end_entity shown) (signed shown) (verifier_provider conf) = Inr ()"
    and "cl_transport rule = Tls" and "cl_token rule = Some tok" and "length tok \<le> 65535"
    and "sink_ok (snd (channel shown))"
  shows "snd (secure_connect (handshake (accepts_offer check12 check13 conf (cl_server rule) now)) noise sha256 rule remote)
    = sink_put (frame_bytes (as_bytes tok)) (snd (channel shown))"
proof -
  have "accepts_offer check12 check13 conf (cl_server rule) now shown"
    using assms(3,4) by (simp add: accepts_offer_def verify_server_cert_def verify_tls12_signature_def verify_tls13_signature_def)
  from completes [where accepts = "accepts_offer check12 check13 conf (cl_server rule) now", OF this] assms(5-8)
  show ?thesis
    by (auto simp: secure_connect_def present_token_def sink_frame_open split: prod.splits sum.splits)
qed

definition sample_mapping :: client_rule where
  "sample_mapping = \<lparr>cl_name = None, cl_listen = ''l:1'', cl_server = ''s:1'', cl_transport = Tls, cl_token = Some ''ab''\<rparr>"

theorem tls_token_to_any_endpoint_witness:
  "sink_bytes (snd (secure_connect (\<lambda>raw. Some (\<lparr>segs = [], fin = Silent\<rparr>, new_sink)) (\<lambda>_ _. None) (\<lambda>b. b)
     sample_mapping (\<lparr>segs = [], fin = Silent\<rparr>, new_sink)))
   = [0, 2, 97, 98]"
proof -
  let ?s = "(\<lparr>segs = [], fin = Silent\<rparr>, new_sink) :: stream"
  let ?o = "\<lparr>is_tls13 = True, end_entity = (), intermediates = [], ocsp_response = [], message = (), signed = (), channel = ?s\<rparr>"
  let ?rule = "sample_mapping"
  let ?check = "(\<lambda>_ _ _ _. Inr ()) :: (unit, unit, unit, unit, unit) signature_check"
  have fr: "frame_bytes (as_bytes ''ab'') = [0, 2, 97, 98]" by code_simp
  have c: "client_connector () None = (Inr (AcceptAnyCert ()) :: unit tls_error + _)"
    by (simp add: client_connector_def client_tls_config_def install_crypto_provider_def)
  have "snd (secure_connect (\<lambda>raw. Some ?s) (\<lambda>_ _. None) (\<lambda>b. b) ?rule ?s)
      = sink_put (frame_bytes (as_bytes ''ab'')) (snd (channel ?o))"
    by (rule tls_token_to_any_endpoint [of ?o "\<lambda>_ _. Some ?s" ?s "()" None "AcceptAnyCert ()" ?check ?check, OF _ c])
      (simp_all add: new_sink_def sink_ok_def sample_mapping_def)
  from this [unfolded fr] show ?thesis by (simp add: new_sink_def sink_put_def sink_bytes_def)
qed

end
