(* ===== verification/Udp_Forward.thy ===== *)
theory Udp_Forward
  imports Prelude "HOL-Library.Sublist"
begin

text \<open>
  UDP forwarding (\<open>forward.rs\<close>: \<open>run_udp_forward\<close>, \<open>spawn_udp_session\<close>). One loop receives the
  datagrams, a sweeper drops idle sessions from the table every five seconds, and each session
  has a task that sends to the target. They share the table under a lock, so a step is what one
  of them does between two points where another can run. A session's channel is a number. The
  main loop, which ends at the first error of its socket, holds the channel it looked up (\<open>hand\<close>) until it has sent on it. \<open>seen\<close> is the
  history of receipts, with the channel each was meant for, \<open>lost\<close> the datagram whose sending
  failed, \<open>heard\<close> what the target sent. The byte counters of a session's registry entry are
  \<open>counted_in\<close> and \<open>counted_out\<close>.
\<close>

section \<open>State and operations\<close>

datatype udp_phase = Absent | Active | Leaving | Left

record udp_session =
  chan :: nat
  last_active :: nat

record udp_state =
  table :: "string \<rightharpoonup> udp_session"
  queue :: "nat \<Rightarrow> byte list list"
  owner :: "nat \<Rightarrow> string"
  task :: "nat \<Rightarrow> udp_phase"
  forwarded :: "nat \<Rightarrow> byte list list"
  lost :: "nat \<Rightarrow> byte list list"
  heard :: "nat \<Rightarrow> byte list list"
  replying :: "nat \<Rightarrow> bool"
  replies :: "(string \<times> byte list) list"
  counted_in :: "nat \<Rightarrow> u64"
  counted_out :: "nat \<Rightarrow> u64"
  registered :: "nat set"
  fresh_chan :: nat
  hand :: "(nat \<times> byte list) option"
  listening :: bool
  seen :: "(string \<times> nat \<times> byte list) list"

definition udp_start :: udp_state where
  "udp_start = \<lparr>table = Map.empty, queue = (\<lambda>_. []), owner = (\<lambda>_. []), task = (\<lambda>_. Absent),
     forwarded = (\<lambda>_. []), lost = (\<lambda>_. []), heard = (\<lambda>_. []), replying = (\<lambda>_. False), replies = [],
     counted_in = (\<lambda>_. 0), counted_out = (\<lambda>_. 0), registered = {}, fresh_chan = 0, hand = None, listening = True, seen = []\<rparr>"

text \<open>\<open>run_udp_forward\<close> up to its loops: \<open>parses\<close> and \<open>binds\<close> are the address parser and the socket.\<close>

datatype udp_error = ParsingListen string | BindingUdp string | ReceiveFailed

definition run_udp_forward :: "(string \<Rightarrow> bool) \<Rightarrow> (string \<Rightarrow> bool) \<Rightarrow> string \<Rightarrow> udp_error + udp_state" where
  "run_udp_forward parses binds listen =
     (if \<not> parses listen then Inl (ParsingListen listen)
      else if \<not> binds listen then Inl (BindingUdp listen) else Inr udp_start)"

definition idle_limit :: "nat \<Rightarrow> nat" where
  "idle_limit udp_idle_secs = max udp_idle_secs 1"

text \<open>The locked part of one receipt: find the session and mark it active, or make one.\<close>

definition spawn_session :: "nat \<Rightarrow> string \<Rightarrow> udp_state \<Rightarrow> nat \<times> udp_state" where
  "spawn_session now src s =
     (let c = fresh_chan s in
      (c, s\<lparr>table := (table s)(src \<mapsto> \<lparr>chan = c, last_active = now\<rparr>), owner := (owner s)(c := src),
            task := (task s)(c := Active), replying := (replying s)(c := True),
            counted_in := (counted_in s)(c := 0), counted_out := (counted_out s)(c := 0),
            registered := insert c (registered s), fresh_chan := c + 1\<rparr>))"

definition find_sender :: "nat \<Rightarrow> string \<Rightarrow> udp_state \<Rightarrow> nat \<times> udp_state" where
  "find_sender now src s = (case table s src of
     Some se \<Rightarrow> (chan se, s\<lparr>table := (table s)(src \<mapsto> se\<lparr>last_active := now\<rparr>)\<rparr>)
   | None \<Rightarrow> spawn_session now src s)"

definition receive :: "nat \<Rightarrow> string \<Rightarrow> byte list \<Rightarrow> udp_state \<Rightarrow> udp_state" where
  "receive now src data s = (case find_sender now src s of
     (c, s') \<Rightarrow> s'\<lparr>hand := Some (c, data), seen := seen s' @ [(src, c, data)]\<rparr>)"

text \<open>\<open>let _ = sender.send(data)\<close>: a channel whose task has left drops the datagram.\<close>

definition send_on :: "nat \<Rightarrow> byte list \<Rightarrow> udp_state \<Rightarrow> udp_state" where
  "send_on c data s =
     (if task s c = Left then s\<lparr>hand := None\<rparr>
      else s\<lparr>queue := (queue s)(c := queue s c @ [data]), hand := None\<rparr>)"

definition sweep_idle :: "nat \<Rightarrow> nat \<Rightarrow> udp_state \<Rightarrow> udp_state" where
  "sweep_idle idle now s =
     s\<lparr>table := (\<lambda>a. case table s a of None \<Rightarrow> None
        | Some se \<Rightarrow> if now - last_active se < idle then Some se else None)\<rparr>"

text \<open>The session's task: one datagram to the target, a reply, and the way out.\<close>

definition add_bytes :: "nat \<Rightarrow> byte list \<Rightarrow> (nat \<Rightarrow> u64) \<Rightarrow> nat \<Rightarrow> u64" where
  "add_bytes c d f = f(c := f c + word_of_nat (length d))"

definition forward_next :: "nat \<Rightarrow> bool \<Rightarrow> udp_state \<Rightarrow> udp_state" where
  "forward_next c sent_ok s = (case queue s c of
     [] \<Rightarrow> s
   | d # ds \<Rightarrow>
       (let s1 = s\<lparr>queue := (queue s)(c := ds), counted_in := add_bytes c d (counted_in s)\<rparr> in
        if sent_ok then s1\<lparr>forwarded := (forwarded s)(c := forwarded s c @ [d])\<rparr>
        else s1\<lparr>lost := (lost s)(c := lost s c @ [d]), task := (task s)(c := Leaving)\<rparr>))"

definition reply_from :: "nat \<Rightarrow> byte list \<Rightarrow> bool \<Rightarrow> udp_state \<Rightarrow> udp_state" where
  "reply_from c d sent_ok s =
     (let s1 = s\<lparr>heard := (heard s)(c := heard s c @ [d]), counted_out := add_bytes c d (counted_out s)\<rparr> in
      if sent_ok then s1\<lparr>replies := replies s @ [(owner s c, d)]\<rparr>
      else s1\<lparr>replying := (replying s)(c := False)\<rparr>)"

text \<open>The reply task stops at the first error of its socket, or when it is aborted. A session that
  could not bind or connect its socket never had one.\<close>

definition end_replies :: "nat \<Rightarrow> udp_state \<Rightarrow> udp_state" where
  "end_replies c s = s\<lparr>replying := (replying s)(c := False)\<rparr>"

definition leave_loop :: "nat \<Rightarrow> udp_state \<Rightarrow> udp_state" where
  "leave_loop c s = s\<lparr>task := (task s)(c := Leaving)\<rparr>"

definition remove_session :: "nat \<Rightarrow> udp_state \<Rightarrow> udp_state" where
  "remove_session c s =
     s\<lparr>table := (table s)(owner s c := None), registered := registered s - {c}, task := (task s)(c := Left)\<rparr>"

text \<open>Every sender of the channel is gone: \<open>rx.recv()\<close> then returns \<open>None\<close> once it is empty.\<close>

definition senders_gone :: "nat \<Rightarrow> udp_state \<Rightarrow> bool" where
  "senders_gone c s \<longleftrightarrow>
     (case table s (owner s c) of None \<Rightarrow> True | Some se \<Rightarrow> chan se \<noteq> c) \<and> map_option fst (hand s) \<noteq> Some c"

inductive ustep :: "nat \<Rightarrow> udp_state \<Rightarrow> udp_state \<Rightarrow> bool" for idle :: nat where
  Receive: "hand s = None \<Longrightarrow> listening s \<Longrightarrow> ustep idle s (receive now src data s)"
| SendOn: "hand s = Some (c, data) \<Longrightarrow> ustep idle s (send_on c data s)"
| SweepIdle: "ustep idle s (sweep_idle idle now s)"
| ForwardNext: "task s c = Active \<Longrightarrow> queue s c \<noteq> [] \<Longrightarrow> ustep idle s (forward_next c ok s)"
| ReceiveFails: "hand s = None \<Longrightarrow> listening s \<Longrightarrow> ustep idle s (s\<lparr>listening := False\<rparr>)"
| Reply: "task s c \<noteq> Absent \<Longrightarrow> replying s c \<Longrightarrow> ustep idle s (reply_from c d ok s)"
| RepliesEnd: "task s c \<noteq> Absent \<Longrightarrow> replying s c \<Longrightarrow> ustep idle s (end_replies c s)"
| SetupFails: "task s c = Active \<Longrightarrow> forwarded s c = [] \<Longrightarrow>
    ustep idle s (end_replies c (leave_loop c s))"
| Drained: "task s c = Active \<Longrightarrow> queue s c = [] \<Longrightarrow> senders_gone c s \<Longrightarrow> ustep idle s (leave_loop c s)"
| Remove: "task s c = Leaving \<Longrightarrow> ustep idle s (remove_session c s)"

inductive_cases ustepE: "ustep idle s s'"

abbreviation ureach :: "nat \<Rightarrow> udp_state \<Rightarrow> bool" where
  "ureach idle \<equiv> (ustep idle)\<^sup>*\<^sup>* udp_start"

section \<open>Invariants\<close>

text \<open>The datagrams meant for a channel, in the order they were received.\<close>

definition meant_for :: "nat \<Rightarrow> udp_state \<Rightarrow> byte list list" where
  "meant_for c s = map (snd \<circ> snd) (filter (\<lambda>e. fst (snd e) = c) (seen s))"

definition in_hand :: "nat \<Rightarrow> udp_state \<Rightarrow> byte list list" where
  "in_hand c s = (case hand s of None \<Rightarrow> [] | Some (d, x) \<Rightarrow> if d = c then [x] else [])"

definition table_ok :: "udp_state \<Rightarrow> bool" where
  "table_ok s \<longleftrightarrow> (\<forall>a se. table s a = Some se \<longrightarrow>
     chan se < fresh_chan s \<and> owner s (chan se) = a \<and> task s (chan se) \<in> {Active, Leaving})"

definition tasks_ok :: "udp_state \<Rightarrow> bool" where
  "tasks_ok s \<longleftrightarrow> (\<forall>c. task s c = Absent \<longleftrightarrow> fresh_chan s \<le> c)
     \<and> registered s = {c. task s c = Active \<or> task s c = Leaving}
     \<and> (\<forall>c x. hand s = Some (c, x) \<longrightarrow> c < fresh_chan s)"

definition seen_ok :: "udp_state \<Rightarrow> bool" where
  "seen_ok s \<longleftrightarrow> (\<forall>(a, c, d) \<in> set (seen s). c < fresh_chan s \<and> owner s c = a)"

text \<open>Where the datagrams of a channel are.\<close>

definition flow_ok :: "udp_state \<Rightarrow> bool" where
  "flow_ok s \<longleftrightarrow> (\<forall>c. prefix (forwarded s c @ lost s c) (meant_for c s)
     \<and> (task s c = Active \<longrightarrow> lost s c = [] \<and> meant_for c s = forwarded s c @ queue s c @ in_hand c s)
     \<and> (fresh_chan s \<le> c \<longrightarrow> forwarded s c = [] \<and> lost s c = [] \<and> heard s c = [] \<and> queue s c = []))"

definition octets :: "byte list list \<Rightarrow> u64" where
  "octets ds = word_of_nat (length (concat ds))"

lemma octets_simps [simp]: "octets [] = 0" "octets (ds @ [d]) = octets ds + word_of_nat (length d)"
  "octets (ds @ es @ [d]) = octets (ds @ es) + word_of_nat (length d)"
  by (simp_all add: octets_def)

definition counts_ok :: "udp_state \<Rightarrow> bool" where
  "counts_ok s \<longleftrightarrow> (\<forall>c. counted_in s c = octets (forwarded s c @ lost s c)
     \<and> counted_out s c = octets (heard s c))"

definition udp_inv :: "udp_state \<Rightarrow> bool" where
  "udp_inv s \<longleftrightarrow> table_ok s \<and> tasks_ok s \<and> seen_ok s \<and> flow_ok s \<and> counts_ok s"

lemma udp_inv_start: "udp_inv udp_start"
  by (simp add: udp_inv_def table_ok_def tasks_ok_def seen_ok_def flow_ok_def counts_ok_def udp_start_def meant_for_def)

lemma seen_not_fresh: "seen_ok s \<Longrightarrow> fresh_chan s \<le> c \<Longrightarrow> meant_for c s = []"
  by (auto simp: seen_ok_def meant_for_def filter_empty_conv)

lemmas udp_ops = receive_def find_sender_def spawn_session_def send_on_def sweep_idle_def
  add_bytes_def forward_next_def reply_from_def leave_loop_def remove_session_def

lemma find_sender_spec:
  assumes inv: "udp_inv s" and f: "find_sender now src s = (c, s')"
  shows "udp_inv s' \<and> c < fresh_chan s' \<and> owner s' c = src \<and> hand s' = hand s \<and> seen s' = seen s
    \<and> (\<exists>se. table s' src = Some se \<and> chan se = c \<and> last_active se = now)"
proof (cases "table s src")
  case None
  have t: "table_ok s" and k: "tasks_ok s" and n: "seen_ok s" and w: "flow_ok s" and q: "counts_ok s"
    using inv by (simp_all add: udp_inv_def)
  have c: "c = fresh_chan s" and s': "s' = snd (spawn_session now src s)"
    using f None by (auto simp: find_sender_def spawn_session_def Let_def)
  have "table_ok s'" using t by (fastforce simp: s' spawn_session_def Let_def table_ok_def less_Suc_eq)
  moreover have "tasks_ok s'"
    using k by (auto simp: s' spawn_session_def Let_def tasks_ok_def less_Suc_eq not_less_eq_eq [symmetric])
  moreover have "seen_ok s'"
    using n by (fastforce simp: s' spawn_session_def Let_def seen_ok_def)
  moreover have "counts_ok s'" using q w
    by (auto simp: c s' spawn_session_def Let_def counts_ok_def flow_ok_def)
  moreover have "in_hand c s = []"
    using k by (auto simp: c tasks_ok_def in_hand_def split: option.split)
  with seen_not_fresh [OF n, of c] w have "flow_ok s'"
    by (auto simp: c s' spawn_session_def Let_def flow_ok_def meant_for_def in_hand_def)
  ultimately show ?thesis by (simp add: udp_inv_def) (simp add: c s' spawn_session_def Let_def)
next
  case (Some se)
  with f have s': "s' = s\<lparr>table := (table s)(src \<mapsto> se\<lparr>last_active := now\<rparr>)\<rparr>" and c: "c = chan se"
    by (auto simp: find_sender_def)
  have "udp_inv s'"
    using inv Some by (auto simp: s' udp_inv_def table_ok_def tasks_ok_def seen_ok_def flow_ok_def counts_ok_def
        meant_for_def in_hand_def)
  moreover have "c < fresh_chan s \<and> owner s c = src"
    using inv Some by (auto simp: udp_inv_def table_ok_def c)
  ultimately show ?thesis by (simp add: s' c)
qed

lemma meant_for_snoc:
  "meant_for c (s\<lparr>hand := x, seen := seen s @ [(a, d, y)]\<rparr>) = meant_for c s @ (if d = c then [y] else [])"
  by (simp add: meant_for_def)

lemma receive_inv [invariants]:
  assumes inv: "udp_inv s" and h: "hand s = None"
  shows "udp_inv (receive now src data s)"
proof -
  obtain c s1 where f: "find_sender now src s = (c, s1)" by force
  from find_sender_spec [OF inv f] h have i1: "udp_inv s1" and c: "c < fresh_chan s1" "owner s1 c = src"
    and h1: "hand s1 = None" by auto
  have r: "receive now src data s = s1\<lparr>hand := Some (c, data), seen := seen s1 @ [(src, c, data)]\<rparr>"
    using f by (simp add: receive_def)
  let ?s = "s1\<lparr>hand := Some (c, data), seen := seen s1 @ [(src, c, data)]\<rparr>"
  have "table_ok ?s" "tasks_ok ?s" "seen_ok ?s" "counts_ok ?s"
    using i1 c by (auto simp: udp_inv_def table_ok_def tasks_ok_def seen_ok_def counts_ok_def)
  moreover have "flow_ok ?s"
    using i1 h1 c unfolding udp_inv_def flow_ok_def meant_for_snoc by (auto simp: in_hand_def)
  ultimately show ?thesis by (simp add: r udp_inv_def)
qed

lemma send_on_inv [invariants]:
  assumes "udp_inv s" and "hand s = Some (c, data)"
  shows "udp_inv (send_on c data s)"
  using assms by (auto simp: udp_inv_def send_on_def table_ok_def tasks_ok_def seen_ok_def flow_ok_def counts_ok_def
      meant_for_def in_hand_def)

lemma sweep_idle_inv [invariants]:
  "udp_inv s \<Longrightarrow> udp_inv (sweep_idle idle now s)"
  by (auto simp: udp_inv_def sweep_idle_def table_ok_def tasks_ok_def seen_ok_def flow_ok_def counts_ok_def
      meant_for_def in_hand_def split: option.splits if_splits)

lemma task_in_range: "udp_inv s \<Longrightarrow> task s c \<noteq> Absent \<Longrightarrow> \<not> fresh_chan s \<le> c"
  unfolding udp_inv_def tasks_ok_def by metis

lemma end_replies_inv [invariants]: "udp_inv s \<Longrightarrow> udp_inv (end_replies c s)"
  by (auto simp: udp_inv_def end_replies_def table_ok_def tasks_ok_def seen_ok_def flow_ok_def counts_ok_def
      meant_for_def in_hand_def)

lemma deaf_inv [invariants]: "udp_inv s \<Longrightarrow> udp_inv (s\<lparr>listening := False\<rparr>)"
  by (auto simp: udp_inv_def table_ok_def tasks_ok_def seen_ok_def flow_ok_def counts_ok_def
      meant_for_def in_hand_def)

lemma reply_inv [invariants]:
  assumes "udp_inv s" and "task s c \<noteq> Absent"
  shows "udp_inv (reply_from c d ok s)"
  using assms task_in_range [OF assms(1), of c]
  by (auto simp: udp_inv_def reply_from_def add_bytes_def Let_def table_ok_def tasks_ok_def seen_ok_def
      flow_ok_def counts_ok_def meant_for_def in_hand_def)

lemma leave_inv [invariants]:
  assumes "udp_inv s" and "task s c = Active"
  shows "udp_inv (leave_loop c s)"
  using assms task_in_range [OF assms(1), of c]
  by (auto simp: udp_inv_def leave_loop_def table_ok_def tasks_ok_def seen_ok_def flow_ok_def counts_ok_def
      meant_for_def in_hand_def)

lemma remove_inv [invariants]:
  assumes "udp_inv s" and "task s c = Leaving"
  shows "udp_inv (remove_session c s)"
  using assms task_in_range [OF assms(1), of c]
  by (auto simp: udp_inv_def remove_session_def table_ok_def tasks_ok_def seen_ok_def flow_ok_def counts_ok_def
      meant_for_def in_hand_def)

lemma forward_next_inv [invariants]:
  assumes inv: "udp_inv s" and a: "task s c = Active"
  shows "udp_inv (forward_next c ok s)"
proof (cases "queue s c")
  case Nil
  with inv show ?thesis by (simp add: forward_next_def)
next
  case (Cons d ds)
  have m: "meant_for c s = forwarded s c @ d # ds @ in_hand c s"
    using inv a Cons by (simp add: udp_inv_def flow_ok_def)
  show ?thesis
    using inv a m Cons task_in_range [OF inv, of c] by (cases ok)
      (auto simp: forward_next_def add_bytes_def Let_def udp_inv_def table_ok_def tasks_ok_def seen_ok_def flow_ok_def counts_ok_def
        meant_for_def in_hand_def)
qed

lemma udp_inv_step: "ustep idle s s' \<Longrightarrow> udp_inv s \<Longrightarrow> udp_inv s'"
  by (erule ustepE) (auto intro: invariants)

lemma udp_inv_reach: "ureach idle s \<Longrightarrow> udp_inv s"
proof (induction rule: rtranclp_induct)
  case base
  show ?case by (rule udp_inv_start)
next
  case (step y z)
  show ?case by (rule udp_inv_step [OF step.hyps(2) step.IH])
qed

section \<open>Properties\<close>

text \<open>
  C15: UDP sessions keep clients apart and datagrams in order. In every reachable state, what a
  session has sent to the target is a prefix of the datagrams received for it, in order, and all
  of those came from its own client; while its task runs nothing received for it is missing,
  everything is sent, queued or in the main loop's hand; the counters of its registry entry are the
  bytes taken for the target (the one datagram whose sending failed included) and the bytes the
  target sent; the table gives each client only a
  session of its own whose task has not left; and the registry has an entry for exactly the
  sessions whose task has not left.
\<close>

theorem udp_sessions_isolated:
  assumes "ureach idle s"
  shows "prefix (forwarded s c @ lost s c) (meant_for c s)
    \<and> (\<forall>(a, k, d) \<in> set (seen s). k = c \<longrightarrow> owner s c = a)
    \<and> (task s c = Active \<longrightarrow> lost s c = [] \<and> meant_for c s = forwarded s c @ queue s c @ in_hand c s)
    \<and> counted_in s c = octets (forwarded s c @ lost s c) \<and> counted_out s c = octets (heard s c)
    \<and> (\<forall>a se. table s a = Some se \<longrightarrow> owner s (chan se) = a \<and> task s (chan se) \<in> {Active, Leaving})
    \<and> registered s = {c. task s c = Active \<or> task s c = Leaving}"
  using udp_inv_reach [OF assms]
  by (auto simp: udp_inv_def table_ok_def tasks_ok_def seen_ok_def flow_ok_def counts_ok_def)

definition sample_udp :: udp_state where
  "sample_udp = forward_next 0 True (send_on 0 [1] (receive 5 ''a'' [1] udp_start))"

lemma sample_udp_reach: "ureach 60 sample_udp"
proof -
  let ?s1 = "receive 5 ''a'' [1] udp_start"
  let ?s2 = "send_on 0 [1] ?s1"
  note defs = udp_ops Let_def udp_start_def
  have "ustep 60 udp_start ?s1" by (rule Receive) (simp_all add: udp_start_def)
  moreover have "ustep 60 ?s1 ?s2" by (rule SendOn) (simp add: defs)
  moreover have "ustep 60 ?s2 (forward_next 0 True ?s2)" by (rule ForwardNext) (simp_all add: defs)
  ultimately show ?thesis
    unfolding sample_udp_def by (meson rtranclp.rtrancl_into_rtrancl rtranclp.rtrancl_refl)
qed

theorem udp_sessions_isolated_witness:
  "forwarded sample_udp 0 = [[1]] \<and> prefix (forwarded sample_udp 0 @ lost sample_udp 0) (meant_for 0 sample_udp)"
  using conjunct1 [OF udp_sessions_isolated [OF sample_udp_reach], of 0]
  by (simp add: sample_udp_def udp_ops Let_def udp_start_def)

text \<open>
  A session's task removes its client's table entry without looking whose it is. After an idle
  session was swept and its client came back, the end of the old task takes the new session out
  of the table although it was active at that very moment: a state is reachable where the client
  has a running session, has just been heard, and is not in the table, so its next datagram is
  given to a third session, with another socket towards the target.
\<close>

theorem udp_stale_removal:
  "\<exists>s. ureach 60 s \<and> task s 1 = Active \<and> owner s 1 = ''a'' \<and> meant_for 1 s = [[2]]
     \<and> table s ''a'' = None \<and> fst (find_sender 100 ''a'' s) = 2"
proof -
  let ?s1 = "receive 5 ''a'' [1] udp_start"
  let ?s2 = "send_on 0 [1] ?s1"
  let ?s3 = "forward_next 0 True ?s2"
  let ?s4 = "sweep_idle 60 100 ?s3"
  let ?s5 = "leave_loop 0 ?s4"
  let ?s6 = "receive 100 ''a'' [2] ?s5"
  let ?s7 = "send_on 1 [2] ?s6"
  let ?s8 = "remove_session 0 ?s7"
  note defs = udp_ops Let_def udp_start_def
  have "ustep 60 udp_start ?s1" by (rule Receive) (simp_all add: udp_start_def)
  moreover have "ustep 60 ?s1 ?s2" by (rule SendOn) (simp add: defs)
  moreover have "ustep 60 ?s2 ?s3" by (rule ForwardNext) (simp_all add: defs)
  moreover have "ustep 60 ?s3 ?s4" by (rule SweepIdle)
  moreover have "ustep 60 ?s4 ?s5" by (rule Drained) (simp_all add: defs senders_gone_def)
  moreover have "ustep 60 ?s5 ?s6" by (rule Receive) (simp_all add: defs)
  moreover have "ustep 60 ?s6 ?s7" by (rule SendOn) (simp add: defs)
  moreover have "ustep 60 ?s7 ?s8" by (rule Remove) (simp add: defs)
  ultimately have "ureach 60 ?s8"
    by (meson rtranclp.rtrancl_into_rtrancl rtranclp.rtrancl_refl)
  moreover have "task ?s8 1 = Active \<and> owner ?s8 1 = ''a'' \<and> meant_for 1 ?s8 = [[2]]
      \<and> table ?s8 ''a'' = None \<and> fst (find_sender 100 ''a'' ?s8) = 2"
    by (simp add: defs meant_for_def)
  ultimately show ?thesis by (intro exI [of _ ?s8]) simp
qed

text \<open>
  The reply task of a session ends for good at the first error of its socket, for instance when the
  target's port was closed for a moment, but the session goes on: it stays in the table, its client's
  datagrams are forwarded, and no step brings the replies back.
\<close>

lemma replies_stay_ended:
  assumes "(ustep idle)\<^sup>*\<^sup>* s s'" and "udp_inv s" and "c < fresh_chan s" and "\<not> replying s c"
  shows "udp_inv s' \<and> c < fresh_chan s' \<and> \<not> replying s' c"
  using assms(1)
proof (induction rule: rtranclp_induct)
  case base
  show ?case using assms(2-4) by simp
next
  case (step y z)
  then have inv: "udp_inv z" using udp_inv_step by blast
  from step(2,3) have "c < fresh_chan z \<and> \<not> replying z c"
    by (auto elim!: ustepE simp: udp_ops end_replies_def Let_def split: option.splits list.splits if_splits)
  with inv show ?case by blast
qed

theorem udp_replies_end_early:
  "\<exists>s. ureach 60 s \<and> task s 0 = Active \<and> table s ''a'' = Some \<lparr>chan = 0, last_active = 5\<rparr> \<and> forwarded s 0 = [[1]]
     \<and> (\<forall>s'. (ustep 60)\<^sup>*\<^sup>* s s' \<longrightarrow> \<not> replying s' 0)"
proof -
  let ?s = "end_replies 0 sample_udp"
  note defs = sample_udp_def udp_ops end_replies_def Let_def udp_start_def
  have "ustep 60 sample_udp ?s" by (rule RepliesEnd) (simp_all add: defs)
  with sample_udp_reach have reach: "ureach 60 ?s" by (rule rtranclp.rtrancl_into_rtrancl)
  have "\<not> replying s' 0" if "(ustep 60)\<^sup>*\<^sup>* ?s s'" for s'
    using replies_stay_ended [OF that udp_inv_reach [OF reach], of 0] by (simp add: defs)
  then show ?thesis using reach by (intro exI [of _ ?s]) (simp add: defs)
qed

text \<open>Replies do not count as activity: a session that is only replied to is swept as idle.\<close>

theorem replies_do_not_refresh:
  assumes "table s a = Some se" and "last_active se + idle \<le> now"
  shows "table (sweep_idle idle now (foldl (\<lambda>t d. reply_from (chan se) d True t) s ds)) a = None"
proof -
  have "table (foldl (\<lambda>t d. reply_from (chan se) d True t) s ds) = table s"
    by (induction ds arbitrary: s) (simp_all add: reply_from_def Let_def)
  with assms show ?thesis by (simp add: sweep_idle_def)
qed

end
