(* ===== verification/Event_Log.thy ===== *)
theory Event_Log
  imports Registry
begin

text \<open>
  \<open>Registry::push_event\<close> (\<open>stats.rs\<close>) as the tasks run it, and the log file across restarts. The
  log of the view, the broadcast channel and the log file each have a lock of their own, so another
  task can push between any two of them; \<open>Registry\<close> has the three in one step. \<open>enc\<close> is serde_json
  on a line, and the file is its text. Each event is kept with the task that pushed it.
\<close>

section \<open>State and steps\<close>

datatype push_point = Quiet | Shown event | Announced event

record event_log =
  shown :: "string list"
  logged :: "(nat \<times> event) list"
  announced :: "(nat \<times> event) list"
  filed :: "(nat \<times> nat \<times> event) list"
  past :: "(nat \<times> event) list"
  file_text :: string
  pushing :: "nat \<Rightarrow> push_point"

text \<open>\<open>Registry::new\<close> and \<open>set_log_file\<close> on a file that may have text: it is opened to append.\<close>

definition log_start :: "string \<Rightarrow> event_log" where
  "log_start old = \<lparr>shown = [], logged = [], announced = [], filed = [], past = [], file_text = old,
     pushing = (\<lambda>_. Quiet)\<rparr>"

definition reopen_log :: "event_log \<Rightarrow> event_log" where
  "reopen_log s = (log_start (file_text s))\<lparr>past := past s @ map snd (filed s)\<rparr>"

text \<open>The part of \<open>push_event\<close> that writes: \<open>n\<close> is where \<open>write_all\<close> fails, if it does.\<close>

definition write_line :: "(nat \<Rightarrow> event \<Rightarrow> string option) \<Rightarrow> nat option \<Rightarrow> nat \<Rightarrow> event \<Rightarrow> string \<Rightarrow> string" where
  "write_line enc broken ts ev old = (case enc ts ev of
     None \<Rightarrow> old
   | Some s \<Rightarrow> (case broken of None \<Rightarrow> old @ s @ [CHR 0x0A] | Some n \<Rightarrow> old @ take n (s @ [CHR 0x0A])))"

inductive push_step :: "(nat \<Rightarrow> event \<Rightarrow> string option) \<Rightarrow> event_log \<Rightarrow> event_log \<Rightarrow> bool"
  for enc :: "nat \<Rightarrow> event \<Rightarrow> string option" where
  shows_it: "pushing s i = Quiet \<Longrightarrow> push_step enc s
    (s\<lparr>shown := push_line (event_line ev) (shown s), logged := logged s @ [(i, ev)],
       pushing := (pushing s)(i := Shown ev)\<rparr>)"
| announces: "pushing s i = Shown ev \<Longrightarrow> push_step enc s
    (s\<lparr>announced := announced s @ [(i, ev)], pushing := (pushing s)(i := Announced ev)\<rparr>)"
| files_it: "pushing s i = Announced ev \<Longrightarrow> push_step enc s
    (s\<lparr>file_text := write_line enc None ts ev (file_text s), filed := filed s @ [(i, ts, ev)],
       pushing := (pushing s)(i := Quiet)\<rparr>)"
| restarts: "push_step enc s (reopen_log s)"

text \<open>A write that fails; the error is ignored.\<close>

inductive push_fail :: "(nat \<Rightarrow> event \<Rightarrow> string option) \<Rightarrow> event_log \<Rightarrow> event_log \<Rightarrow> bool"
  for enc :: "nat \<Rightarrow> event \<Rightarrow> string option" where
  write_breaks: "pushing s i = Announced ev \<Longrightarrow> push_fail enc s
    (s\<lparr>file_text := write_line enc (Some n) ts ev (file_text s), pushing := (pushing s)(i := Quiet)\<rparr>)"

inductive_cases push_stepE: "push_step enc s s'"

abbreviation pushes :: "(nat \<Rightarrow> event \<Rightarrow> string option) \<Rightarrow> event_log \<Rightarrow> event_log \<Rightarrow> bool" where
  "pushes enc \<equiv> (push_step enc)\<^sup>*\<^sup>*"

section \<open>Invariants\<close>

definition of_task :: "nat \<Rightarrow> (nat \<times> 'a) list \<Rightarrow> 'a list" where
  "of_task i xs = map snd (filter (\<lambda>x. fst x = i) xs)"

lemma of_task_simps [simp]:
  "of_task i [] = []" "of_task i (xs @ ys) = of_task i xs @ of_task i ys"
  "of_task i [(j, x)] = (if i = j then [x] else [])"
  by (auto simp: of_task_def)

fun not_announced :: "push_point \<Rightarrow> event list" where
  "not_announced (Shown ev) = [ev]"
| "not_announced p = []"

fun not_filed :: "push_point \<Rightarrow> event list" where
  "not_filed Quiet = []"
| "not_filed (Shown ev) = [ev]"
| "not_filed (Announced ev) = [ev]"

definition shown_ok :: "event_log \<Rightarrow> bool" where
  "shown_ok s \<longleftrightarrow> shown s = drop (length (logged s) - MAX_LOG_LINES) (map (event_line \<circ> snd) (logged s))"

definition announced_ok :: "event_log \<Rightarrow> bool" where
  "announced_ok s \<longleftrightarrow> (\<forall>i. of_task i (logged s) = of_task i (announced s) @ not_announced (pushing s i))"

definition filed_ok :: "event_log \<Rightarrow> bool" where
  "filed_ok s \<longleftrightarrow> (\<forall>i. of_task i (logged s) = map snd (of_task i (filed s)) @ not_filed (pushing s i))"

lemmas push_defs = shown_ok_def announced_ok_def filed_ok_def reopen_log_def log_start_def

lemma shown_ok_step [invariants]: "push_step enc s s' \<Longrightarrow> shown_ok s \<Longrightarrow> shown_ok s'"
proof (erule push_stepE)
  fix i ev
  assume "s' = s\<lparr>shown := push_line (event_line ev) (shown s), logged := logged s @ [(i, ev)],
      pushing := (pushing s)(i := Shown ev)\<rparr>" and "shown_ok s"
  then show "shown_ok s'"
    using push_line_last [of "shown s" "map (event_line \<circ> snd) (logged s)" "event_line ev"]
    by (simp add: shown_ok_def)
qed (simp_all add: push_defs)

lemma announced_ok_step [invariants]: "push_step enc s s' \<Longrightarrow> announced_ok s \<Longrightarrow> announced_ok s'"
  by (erule push_stepE) (auto simp: push_defs)

lemma filed_ok_step [invariants]: "push_step enc s s' \<Longrightarrow> filed_ok s \<Longrightarrow> filed_ok s'"
  by (erule push_stepE) (auto simp: push_defs)

lemma pushes_ok_reach: "pushes enc (log_start old) s \<Longrightarrow> shown_ok s \<and> announced_ok s \<and> filed_ok s"
proof (induction rule: rtranclp_induct)
  case base
  show ?case by (simp add: push_defs)
qed (use shown_ok_step announced_ok_step filed_ok_step in blast)

text \<open>The lines of the file.\<close>

lemma split_on_lines:
  "\<forall>w \<in> set ws. d \<notin> set w \<Longrightarrow> split_on d (concat (map (\<lambda>w. w @ [d]) ws) @ s) = ws @ split_on d s"
  by (induction ws) (simp_all add: split_on_append)

text \<open>A text that ends with a newline has no open last line.\<close>

lemma split_on_at: "split_on d (a @ d # b) = split_on d a @ split_on d b"
  by (induction d a rule: split_on.induct) (auto simp: split_on_nonempty split: list.splits)

lemma split_on_whole:
  assumes "old = [] \<or> last old = d"
  shows "split_on d (old @ s) = butlast (split_on d old) @ split_on d s"
proof (cases "old = []")
  case False
  with assms obtain a where "old = a @ [d]" by (metis append_butlast_last_id)
  then show ?thesis by (simp add: split_on_at butlast_append)
qed simp

definition file_ok :: "(nat \<Rightarrow> event \<Rightarrow> string option) \<Rightarrow> string \<Rightarrow> event_log \<Rightarrow> bool" where
  "file_ok enc old s \<longleftrightarrow> file_text s =
     old @ concat (map (\<lambda>w. w @ [CHR 0x0A]) (map (\<lambda>(ts, ev). the (enc ts ev)) (past s @ map snd (filed s))))"

lemma file_ok_reach:
  assumes "pushes enc (log_start old) s" and "\<forall>ts ev. enc ts ev \<noteq> None"
  shows "file_ok enc old s"
  using assms(1)
proof (induction rule: rtranclp_induct)
  case base
  show ?case by (simp add: file_ok_def log_start_def)
next
  case (step s s')
  from step(2) show ?case
  proof cases
    case (files_it i ev ts)
    obtain t where "enc ts ev = Some t" using assms(2) by blast
    with files_it(1) step.IH show ?thesis by (simp add: file_ok_def write_line_def)
  qed (use step.IH in \<open>simp_all add: file_ok_def reopen_log_def log_start_def\<close>)
qed

section \<open>Properties\<close>

text \<open>
  C38: No event is lost, repeated or torn, however many tasks report at once and however often the
  program is restarted. The log of the view is the last 500 events of this run; each task's events
  are announced and filed in the order it pushed them, all but the one it is pushing; and as long as
  the writes succeed the log file is what it was at first, and then one line for every event that
  was ever filed, of all the runs.
\<close>

theorem events_recorded:
  assumes "pushes enc (log_start old) s"
    and "\<forall>ts ev. \<exists>t. enc ts ev = Some t \<and> CHR 0x0A \<notin> set t" and "old = [] \<or> last old = CHR 0x0A"
  shows "shown s = drop (length (logged s) - 500) (map (event_line \<circ> snd) (logged s))
    \<and> (\<forall>i. \<exists>rest. length rest \<le> 1 \<and> of_task i (logged s) = of_task i (announced s) @ rest)
    \<and> (\<forall>i. \<exists>rest. length rest \<le> 1 \<and> of_task i (logged s) = map snd (of_task i (filed s)) @ rest)
    \<and> (\<forall>i. pushing s i = Quiet \<longrightarrow> of_task i (announced s) = of_task i (logged s)
         \<and> map snd (of_task i (filed s)) = of_task i (logged s))
    \<and> split_on (CHR 0x0A) (file_text s) =
        butlast (split_on (CHR 0x0A) old) @ map (\<lambda>(ts, ev). the (enc ts ev)) (past s @ map snd (filed s)) @ [[]]"
proof -
  have ok: "shown_ok s \<and> announced_ok s \<and> filed_ok s" by (rule pushes_ok_reach [OF assms(1)])
  have un: "length (not_announced p) \<le> 1" "length (not_filed p) \<le> 1" for p by (cases p; simp)+
  have ft: "file_ok enc old s" by (rule file_ok_reach [OF assms(1)]) (use assms(2) in fastforce)
  let ?es = "past s @ map snd (filed s)"
  have "CHR 0x0A \<notin> set (the (enc ts ev))" for ts ev using assms(2) by (metis option.sel)
  then have nonl: "\<forall>w \<in> set (map (\<lambda>(ts, ev). the (enc ts ev)) ?es). CHR 0x0A \<notin> set w" by auto
  have "split_on (CHR 0x0A) (old @ concat (map (\<lambda>w. w @ [CHR 0x0A]) (map (\<lambda>(ts, ev). the (enc ts ev)) ?es))) =
      butlast (split_on (CHR 0x0A) old) @ map (\<lambda>(ts, ev). the (enc ts ev)) ?es @ [[]]"
    using split_on_whole [OF assms(3)] split_on_lines [OF nonl, of "[]"] by simp
  then have "split_on (CHR 0x0A) (file_text s) =
      butlast (split_on (CHR 0x0A) old) @ map (\<lambda>(ts, ev). the (enc ts ev)) ?es @ [[]]"
    using ft unfolding file_ok_def by metis
  moreover have "shown s = drop (length (logged s) - 500) (map (event_line \<circ> snd) (logged s))"
    using ok by (simp add: shown_ok_def MAX_LOG_LINES_def)
  moreover have "of_task i (logged s) = of_task i (announced s) @ not_announced (pushing s i)"
    "of_task i (logged s) = map snd (of_task i (filed s)) @ not_filed (pushing s i)" for i
    using ok unfolding announced_ok_def filed_ok_def by blast+
  moreover from this have "pushing s i = Quiet \<Longrightarrow> of_task i (announced s) = of_task i (logged s)
      \<and> map snd (of_task i (filed s)) = of_task i (logged s)" for i
    by (metis append_Nil2 not_announced.simps(2) not_filed.simps(1))
  ultimately show ?thesis using un by blast
qed

text \<open>A line that a JSON encoder could give, for the witnesses.\<close>

definition sample_line :: "nat \<Rightarrow> event \<Rightarrow> string option" where
  "sample_line ts ev = Some (case ev of Info m \<Rightarrow> ''i'' | _ \<Rightarrow> ''o'')"

definition two_pushes :: event_log where
  "two_pushes = \<lparr>shown = [''[info] a'', ''[error] b''], logged = [(0, Info ''a''), (1, Error ''b'')],
     announced = [(1, Error ''b''), (0, Info ''a'')], filed = [(1, 7, Error ''b''), (0, 8, Info ''a'')],
     past = [], file_text = ''o'' @ [CHR 0x0A] @ ''i'' @ [CHR 0x0A], pushing = (\<lambda>_. Quiet)\<rparr>"

lemma two_pushes_reached: "pushes sample_line (log_start []) two_pushes"
proof -
  let ?s0 = "log_start []"
  let ?s1 = "?s0\<lparr>shown := push_line (event_line (Info ''a'')) (shown ?s0), logged := logged ?s0 @ [(0, Info ''a'')],
    pushing := (pushing ?s0)(0 := Shown (Info ''a''))\<rparr>"
  let ?s2 = "?s1\<lparr>shown := push_line (event_line (Error ''b'')) (shown ?s1), logged := logged ?s1 @ [(1, Error ''b'')],
    pushing := (pushing ?s1)(1 := Shown (Error ''b''))\<rparr>"
  let ?s3 = "?s2\<lparr>announced := announced ?s2 @ [(1, Error ''b'')], pushing := (pushing ?s2)(1 := Announced (Error ''b''))\<rparr>"
  let ?s4 = "?s3\<lparr>announced := announced ?s3 @ [(0, Info ''a'')], pushing := (pushing ?s3)(0 := Announced (Info ''a''))\<rparr>"
  let ?s5 = "?s4\<lparr>file_text := write_line sample_line None 7 (Error ''b'') (file_text ?s4),
    filed := filed ?s4 @ [(1, 7, Error ''b'')], pushing := (pushing ?s4)(1 := Quiet)\<rparr>"
  let ?s6 = "?s5\<lparr>file_text := write_line sample_line None 8 (Info ''a'') (file_text ?s5),
    filed := filed ?s5 @ [(0, 8, Info ''a'')], pushing := (pushing ?s5)(0 := Quiet)\<rparr>"
  have "push_step sample_line ?s0 ?s1" by (rule shows_it) (simp add: log_start_def)
  moreover have "push_step sample_line ?s1 ?s2" by (rule shows_it) (simp add: log_start_def)
  moreover have "push_step sample_line ?s2 ?s3" by (rule announces) simp
  moreover have "push_step sample_line ?s3 ?s4" by (rule announces) simp
  moreover have "push_step sample_line ?s4 ?s5" by (rule files_it) simp
  moreover have "push_step sample_line ?s5 ?s6" by (rule files_it) simp
  moreover have "?s6 = two_pushes"
    by (auto simp: two_pushes_def log_start_def push_line_def MAX_LOG_LINES_def event_line_def write_line_def
        sample_line_def fun_eq_iff)
  ultimately show ?thesis
    by (metis (no_types, lifting) converse_rtranclp_into_rtranclp rtranclp.rtrancl_refl)
qed

theorem events_recorded_witness:
  "\<exists>s :: event_log. pushes sample_line (log_start []) s \<and> length (logged s) = 2
     \<and> split_on (CHR 0x0A) (file_text s) = [''o'', ''i'', []]"
proof -
  have "\<forall>ts ev. \<exists>t. sample_line ts ev = Some t \<and> CHR 0x0A \<notin> set t"
    by (auto simp: sample_line_def split: event.splits)
  from events_recorded [OF two_pushes_reached this]
  have "split_on (CHR 0x0A) (file_text two_pushes) = [''o'', ''i'', []]"
    by (simp add: two_pushes_def sample_line_def)
  with two_pushes_reached show ?thesis by (intro exI [of _ two_pushes]) (simp add: two_pushes_def)
qed

text \<open>The three locks let two tasks overtake each other: the log of the view and the file disagree.\<close>

theorem log_and_file_disagree:
  "\<exists>s. pushes sample_line (log_start []) s \<and> (\<forall>i. pushing s i = Quiet)
     \<and> map snd (logged s) = [Info ''a'', Error ''b''] \<and> map snd (map snd (filed s)) = [Error ''b'', Info ''a'']"
  by (rule exI [of _ two_pushes]) (simp add: two_pushes_reached, simp add: two_pushes_def)

text \<open>A write that breaks off leaves its fragment in the line of the next event.\<close>

theorem broken_write_spoils_next:
  assumes "enc ts ev = Some t" and "enc ts' ev' = Some t'" and "n \<le> length t"
    and "CHR 0x0A \<notin> set t" and "CHR 0x0A \<notin> set t'"
  shows "split_on (CHR 0x0A) (write_line enc None ts' ev' (write_line enc (Some n) ts ev [])) = [take n t @ t', []]"
proof -
  have "CHR 0x0A \<notin> set (take n t @ t')" using assms(4,5) by (auto dest: in_set_takeD)
  from split_on_append [OF this, of "[]"] show ?thesis using assms(1-3) by (simp add: write_line_def)
qed

end
