(* ===== verification/Float64.thy ===== *)
theory Float64
  imports Prelude Complex_Main
begin

text \<open>
  Rust's \<open>f64\<close> where the code uses it: a non-negative binary64 number is the rational it stands for,
  and every operation is the exact one followed by \<open>round_f64\<close>, which keeps 53 significant bits and
  rounds half to even. The numbers the code computes lie between \<open>2^-60\<close> and \<open>2^80\<close>, so neither
  overflow nor subnormal numbers arise. The formatting functions round the exact value of the
  number, half to even, as \<open>core::fmt\<close> does.
\<close>

section \<open>Definitions\<close>

fun nlog2 :: "nat \<Rightarrow> nat" where
  "nlog2 n = (if n < 2 then 0 else Suc (nlog2 (n div 2)))"

declare nlog2.simps [simp del]

definition ilog2 :: "rat \<Rightarrow> int" where
  "ilog2 x = (case quotient_of x of (p, q) \<Rightarrow>
     let e = int (nlog2 (nat p)) - int (nlog2 (nat q)) in if 2 powi e \<le> x then e else e - 1)"

definition round_even :: "rat \<Rightarrow> int" where
  "round_even y = (let f = \<lfloor>y\<rfloor>; d = y - of_int f in
     if d < 1 / 2 \<or> (d = 1 / 2 \<and> even f) then f else f + 1)"

definition round_f64 :: "rat \<Rightarrow> rat" where
  "round_f64 x = (if x \<le> 0 then 0 else
     let u = 2 powi (ilog2 x - 52) in u * of_int (round_even (x / u)))"

text \<open>\<open>n as f64\<close>, \<open>x / y\<close>, \<open>x + y\<close> and \<open>x as u64\<close>, which truncates and saturates.\<close>

definition as_f64 :: "nat \<Rightarrow> rat" where
  "as_f64 n = round_f64 (of_nat n)"

definition fdiv :: "rat \<Rightarrow> rat \<Rightarrow> rat" where
  "fdiv x y = round_f64 (x / y)"

definition fadd :: "rat \<Rightarrow> rat \<Rightarrow> rat" where
  "fadd x y = round_f64 (x + y)"

definition as_u64 :: "rat \<Rightarrow> u64" where
  "as_u64 x = word_of_int (min (2 ^ 64 - 1) \<lfloor>x\<rfloor>)"

text \<open>\<open>{:.1}\<close> and \<open>{:.0}\<close>\<close>

definition tenths :: "rat \<Rightarrow> nat" where
  "tenths x = nat (round_even (x * 10))"

definition show_tenths :: "nat \<Rightarrow> string" where
  "show_tenths d = show_nat (d div 10) @ ''.'' @ show_nat (d mod 10)"

definition show_whole :: "rat \<Rightarrow> string" where
  "show_whole x = show_nat (nat (round_even x))"

section \<open>Binary logarithms\<close>

lemma nlog2_bounds: "0 < n \<Longrightarrow> 2 ^ nlog2 n \<le> n \<and> n < 2 ^ Suc (nlog2 n)"
proof (induction n rule: nlog2.induct)
  case (1 n)
  show ?case
  proof (cases "n < 2")
    case True
    with 1(2) show ?thesis by (simp add: nlog2.simps [of n])
  next
    case False
    with 1(1) have "2 ^ nlog2 (n div 2) \<le> n div 2 \<and> n div 2 < 2 ^ Suc (nlog2 (n div 2))" by simp
    with False show ?thesis by (simp add: nlog2.simps [of n]) linarith
  qed
qed

lemma pow2_less: "(a::int) < b \<Longrightarrow> (2::rat) powi (a + 1) \<le> 2 powi b"
  by (rule power_int_increasing) auto

lemma pow2_pos [simp]: "0 < (2::rat) powi e"
  by simp

lemma pow2_Suc: "(2::rat) powi (e + 1) = 2 * 2 powi e"
  by (simp add: power_int_add)

lemma nlog2_rat: "0 < n \<Longrightarrow> (2::rat) ^ nlog2 n \<le> of_nat n \<and> of_nat n < (2::rat) ^ Suc (nlog2 n)"
  using nlog2_bounds [of n]
  by (metis of_nat_le_iff of_nat_less_iff of_nat_numeral of_nat_power)

lemma ilog2_bounds:
  assumes "0 < x"
  shows "2 powi ilog2 x \<le> x \<and> x < 2 powi (ilog2 x + 1)"
proof -
  obtain p q where pq: "quotient_of x = (p, q)" by force
  then have q: "0 < q" and x: "x = of_int p / of_int q"
    by (auto simp: quotient_of_denom_pos quotient_of_div)
  with assms have p: "0 < p" by (simp add: zero_less_divide_iff)
  define a where "a = nlog2 (nat p)"
  define b where "b = nlog2 (nat q)"
  have a: "2 ^ a \<le> (of_int p :: rat)" "of_int p < (2::rat) ^ Suc a"
    using nlog2_rat [of "nat p"] p by (simp_all add: a_def)
  have b: "2 ^ b \<le> (of_int q :: rat)" "of_int q < (2::rat) ^ Suc b"
    using nlog2_rat [of "nat q"] q by (simp_all add: b_def)
  have e: "(2::rat) powi (int a - int b) = 2 ^ a / 2 ^ b"
    by (simp add: power_int_diff)
  have "x < 2 ^ Suc a / 2 ^ b"
    unfolding x using a b p q by (intro frac_less) auto
  then have hi: "x < 2 powi (int a - int b + 1)"
    unfolding pow2_Suc e by simp
  have "2 ^ a / 2 ^ Suc b < x"
    unfolding x using a b p q by (intro frac_less2) auto
  then have lo: "2 powi (int a - int b - 1) \<le> x"
    by (simp add: power_int_diff)
  from hi lo show ?thesis
    by (auto simp: ilog2_def pq Let_def a_def [symmetric] b_def [symmetric])
qed

lemma ilog2_eqI:
  assumes "2 powi e \<le> x" "x < 2 powi (e + 1)"
  shows "ilog2 x = e"
proof -
  have x: "0 < x" using assms(1) pow2_pos [of e] by linarith
  note * = ilog2_bounds [OF x]
  show ?thesis
  proof (rule antisym; rule ccontr)
    assume "\<not> ilog2 x \<le> e"
    then have "(2::rat) powi (e + 1) \<le> 2 powi ilog2 x" by (intro pow2_less) simp
    with * assms show False by linarith
  next
    assume "\<not> e \<le> ilog2 x"
    then have "(2::rat) powi (ilog2 x + 1) \<le> 2 powi e" by (intro pow2_less) simp
    with * assms show False by linarith
  qed
qed

lemma ilog2_mono: "0 < x \<Longrightarrow> x \<le> y \<Longrightarrow> ilog2 x \<le> ilog2 y"
proof (rule ccontr)
  assume "0 < x" "x \<le> y" "\<not> ilog2 x \<le> ilog2 y"
  moreover from this have "(2::rat) powi (ilog2 y + 1) \<le> 2 powi ilog2 x" by (intro pow2_less) simp
  ultimately show False using ilog2_bounds [of x] ilog2_bounds [of y] by auto
qed

lemma ilog2_scale: "0 < x \<Longrightarrow> ilog2 (x * 2 powi k) = ilog2 x + k"
  using ilog2_bounds [of x]
  by (intro ilog2_eqI) (auto simp: power_int_add)

section \<open>Rounding\<close>

lemma round_even_of_int [simp]: "round_even (of_int k) = k"
  by (simp add: round_even_def)

lemma round_even_numeral [simp]: "round_even (numeral k) = numeral k"
  using round_even_of_int [of "numeral k"] by simp

lemma round_even_close: "\<bar>of_int (round_even y) - y\<bar> \<le> 1 / 2"
  using floor_correct [of y] by (auto simp: round_even_def Let_def abs_if; linarith)

lemma round_even_eqI:
  assumes "\<bar>y - of_int k\<bar> < 1 / 2"
  shows "round_even y = k"
proof -
  have "rat_of_int (round_even y) - of_int k < 1" "rat_of_int k - of_int (round_even y) < 1"
    using assms round_even_close [of y] by (auto simp: abs_if split: if_splits)
  then show ?thesis by (metis antisym_conv linorder_not_less of_int_1 of_int_diff of_int_less_iff zle_diff1_eq
      diff_less_eq less_diff_eq add.commute zless_add1_eq order_less_irrefl less_linear)
qed

lemma round_even_mono:
  assumes "x \<le> y"
  shows "round_even x \<le> round_even y"
proof (cases "\<lfloor>x\<rfloor> = \<lfloor>y\<rfloor>")
  case True
  with assms show ?thesis by (auto simp: round_even_def Let_def)
next
  case False
  with assms have "\<lfloor>x\<rfloor> + 1 \<le> \<lfloor>y\<rfloor>" using floor_mono [OF assms] by linarith
  then show ?thesis by (auto simp: round_even_def Let_def)
qed

lemma round_even_ge: "of_int k \<le> x \<Longrightarrow> k \<le> round_even x"
  using round_even_mono [of "of_int k" x] by simp

lemma round_even_le: "x \<le> of_int k \<Longrightarrow> round_even x \<le> k"
  using round_even_mono [of x "of_int k"] by simp

lemma round_f64_pos_eq:
  "0 < x \<Longrightarrow> round_f64 x = 2 powi (ilog2 x - 52) * of_int (round_even (x / 2 powi (ilog2 x - 52)))"
  by (simp add: round_f64_def Let_def)

lemma round_f64_0 [simp]: "round_f64 0 = 0"
  by (simp add: round_f64_def)

lemma round_f64_nonneg [simp]: "0 \<le> round_f64 x"
  by (auto simp: round_f64_def Let_def round_even_ge)

lemma significand:
  assumes "0 < x"
  shows "2 ^ 52 \<le> x / 2 powi (ilog2 x - 52)" "x / 2 powi (ilog2 x - 52) < 2 ^ 53"
  using ilog2_bounds [OF assms] by (simp_all add: power_int_diff power_int_add field_simps)

lemma significand_round:
  assumes "0 < x"
  shows "2 ^ 52 \<le> round_even (x / 2 powi (ilog2 x - 52))" "round_even (x / 2 powi (ilog2 x - 52)) \<le> 2 ^ 53"
  using significand [OF assms] by (auto intro!: round_even_ge round_even_le simp: less_imp_le)

lemma significand_round_rat:
  assumes "0 < x"
  shows "2 ^ 52 \<le> rat_of_int (round_even (x / 2 powi (ilog2 x - 52)))"
    "rat_of_int (round_even (x / 2 powi (ilog2 x - 52))) \<le> 2 ^ 53"
  using significand_round [OF assms] by (metis of_int_le_iff of_int_numeral of_int_power)+

text \<open>A number with at most 53 significant bits is kept.\<close>

lemma round_f64_exact:
  assumes "0 < m" "m \<le> 2 ^ 53"
  shows "round_f64 (of_int m * 2 powi e) = of_int m * 2 powi e"
proof -
  let ?x = "of_int m * 2 powi e :: rat"
  let ?d = "52 - ilog2 (of_int m)"
  have x: "0 < ?x" using assms by simp
  have il: "ilog2 ?x = ilog2 (of_int m) + e" using assms by (simp add: ilog2_scale)
  show ?thesis
  proof (cases "m = 2 ^ 53")
    case True
    have "ilog2 (2 ^ 53) = 53" by (rule ilog2_eqI) simp_all
    with True il have "ilog2 ?x = 53 + e" by simp
    moreover have "?x / 2 powi (e + 1) = of_int (2 ^ 52)"
      by (simp add: True power_int_add)
    moreover have "53 + e - 52 = e + 1" by simp
    ultimately show ?thesis
      using round_f64_pos_eq [OF x] by (simp add: True power_int_add del: of_int_power)
  next
    case False
    with assms have "m < 2 ^ 53" by simp
    then have "of_int m < (2::rat) ^ 53" by (metis of_int_less_iff of_int_numeral of_int_power)
    moreover have "(2::rat) powi ilog2 (of_int m) \<le> of_int m" using ilog2_bounds [of "of_int m"] assms by simp
    ultimately have "(2::rat) powi ilog2 (of_int m) < 2 powi 53" by simp
    then have "ilog2 (of_int m) < 53"
      by (metis linorder_not_le one_le_numeral power_int_increasing)
    then have d: "0 \<le> ?d" by simp
    have "?x / 2 powi (ilog2 ?x - 52) = of_int m * 2 powi ?d"
      unfolding il by (simp add: power_int_diff power_int_add field_simps)
    also have "\<dots> = of_int (m * 2 ^ nat ?d)"
      using d by (simp add: power_int_def)
    finally have "?x / 2 powi (ilog2 ?x - 52) = of_int (m * 2 ^ nat ?d)" .
    then have "round_even (?x / 2 powi (ilog2 ?x - 52)) = m * 2 ^ nat ?d"
      by (metis round_even_of_int)
    then show ?thesis
      unfolding round_f64_pos_eq [OF x]
      by (simp add: \<open>?x / _ = of_int _\<close> [symmetric] del: of_int_mult of_int_power)
  qed
qed

lemma round_f64_nat: "n \<le> 2 ^ 53 \<Longrightarrow> round_f64 (of_nat n) = of_nat n"
proof (cases "n = 0")
  case False
  assume "n \<le> 2 ^ 53"
  with False show ?thesis using round_f64_exact [of "int n" 0] by simp
qed simp

lemma as_f64_exact: "n \<le> 2 ^ 53 \<Longrightarrow> as_f64 n = of_nat n"
  by (simp add: as_f64_def round_f64_nat)

lemma as_f64_nonneg [simp]: "0 \<le> as_f64 n"
  by (simp add: as_f64_def)

lemma round_f64_scale: "round_f64 (x * 2 powi k) = round_f64 x * 2 powi k"
proof (cases "0 < x")
  case True
  then have "x * 2 powi k / 2 powi (ilog2 x + k - 52) = x / 2 powi (ilog2 x - 52)"
    by (simp add: power_int_diff power_int_add)
  with True show ?thesis
    by (simp add: round_f64_pos_eq ilog2_scale power_int_diff power_int_add)
next
  case False
  then have "x * 2 powi k \<le> 0" by (simp add: mult_nonpos_nonneg)
  with False show ?thesis by (simp add: round_f64_def)
qed

lemma round_f64_idem [simp]: "round_f64 (round_f64 x) = round_f64 x"
proof (cases "0 < x")
  case True
  show ?thesis
    using round_f64_exact [of "round_even (x / 2 powi (ilog2 x - 52))" "ilog2 x - 52"]
      significand_round [OF True] by (simp add: round_f64_pos_eq [OF True] mult.commute)
qed (simp add: round_f64_def)

lemma round_f64_close:
  assumes "0 \<le> x"
  shows "\<bar>round_f64 x - x\<bar> \<le> x / 2 ^ 53"
proof (cases "x = 0")
  case False
  with assms have x: "0 < x" by simp
  define u where "u = (2::rat) powi (ilog2 x - 52)"
  then have u: "0 < u" by simp
  have "\<bar>round_f64 x - x\<bar> = \<bar>u * (of_int (round_even (x / u)) - x / u)\<bar>"
    unfolding round_f64_pos_eq [OF x] u_def [symmetric] using u by (simp add: right_diff_distrib)
  also have "\<dots> = u * \<bar>of_int (round_even (x / u)) - x / u\<bar>"
    using u by (simp add: abs_mult)
  also have "\<dots> \<le> u * (1 / 2)"
    using round_even_close [of "x / u"] u by (intro mult_left_mono) auto
  moreover have "u * 2 ^ 52 \<le> x"
    using significand(1) [OF x, folded u_def] u by (simp add: pos_le_divide_eq mult.commute)
  ultimately show ?thesis by (simp add: field_simps)
qed simp

lemma round_f64_mono:
  assumes "0 < x" "x \<le> y"
  shows "round_f64 x \<le> round_f64 y"
proof (cases "ilog2 x = ilog2 y")
  case True
  with assms show ?thesis
    by (simp add: round_f64_pos_eq round_even_mono divide_right_mono)
next
  case False
  with assms have less: "ilog2 x < ilog2 y" using ilog2_mono by fastforce
  from assms have y: "0 < y" by simp
  have "round_f64 x \<le> 2 powi (ilog2 x - 52) * 2 ^ 53"
    unfolding round_f64_pos_eq [OF assms(1)]
    using significand_round_rat(2) [OF assms(1)] by (intro mult_left_mono) simp_all
  also have "\<dots> = 2 powi (ilog2 x + 1)" by (simp add: power_int_diff power_int_add)
  also have "\<dots> \<le> 2 powi ilog2 y" using less by (rule pow2_less)
  also have "\<dots> = 2 powi (ilog2 y - 52) * 2 ^ 52" by (simp add: power_int_diff)
  also have "\<dots> \<le> round_f64 y"
    unfolding round_f64_pos_eq [OF y]
    using significand_round_rat(1) [OF y] by (intro mult_left_mono) simp_all
  finally show ?thesis .
qed

lemma as_f64_fixed [simp]: "round_f64 (as_f64 n) = as_f64 n"
  by (simp add: as_f64_def)

lemma as_f64_ge: "m \<le> 2 ^ 53 \<Longrightarrow> m \<le> n \<Longrightarrow> of_nat m \<le> as_f64 n"
proof (cases "m = 0")
  case False
  assume m: "m \<le> 2 ^ 53" "m \<le> n"
  with False have "round_f64 (of_nat m) \<le> round_f64 (of_nat n)" by (intro round_f64_mono) auto
  with m round_f64_nat [of m] show ?thesis by (simp add: as_f64_def)
qed simp

lemma as_f64_less: "m \<le> 2 ^ 53 \<Longrightarrow> n < m \<Longrightarrow> as_f64 n < of_nat m"
  by (simp add: as_f64_exact)

lemma as_f64_close: "\<bar>as_f64 n - rat_of_nat n\<bar> \<le> rat_of_nat n / 2 ^ 53"
  unfolding as_f64_def by (rule round_f64_close) simp

lemma tenths_close: "0 \<le> x \<Longrightarrow> \<bar>of_nat (tenths x) - 10 * x\<bar> \<le> 1 / 2"
  using round_even_close [of "x * 10"] round_even_ge [of 0 "x * 10"]
  by (simp add: tenths_def mult.commute)

end
