(* ===== verification/Tui.thy ===== *)
theory Tui
  imports Registry Float64
begin

text \<open>
  The live view (\<open>tui.rs\<close>): the loop that reads the keys, samples the registry and draws, and what
  it draws. An iteration is described by what it meets: the terminal's events until a poll finds
  none, the registry at each of its three reads (other tasks run in between), the clock at each
  read of it, in nanoseconds, and the height the layout gives the log. A screen is the text the
  widgets are given; the terminal and the layout are \<open>crossterm\<close>'s and \<open>ratatui\<close>'s.
\<close>

section \<open>Numbers on the screen\<close>

definition UNITS :: "string list" where
  "UNITS = [''B'', ''KB'', ''MB'', ''GB'', ''TB'']"

lemma UNITS_length [simp]: "length UNITS = 5"
  by (simp add: UNITS_def)

function scale_bytes :: "rat \<Rightarrow> nat \<Rightarrow> rat \<times> nat" where
  "scale_bytes value unit =
     (if 1024 \<le> value \<and> unit < length UNITS - 1 then scale_bytes (fdiv value 1024) (unit + 1)
      else (value, unit))"
  by auto
termination by (relation "measure (\<lambda>(v, u). 4 - u)") auto

declare scale_bytes.simps [simp del]

definition human_bytes :: "u64 \<Rightarrow> string" where
  "human_bytes n = (case scale_bytes (as_f64 (unat n)) 0 of (value, unit) \<Rightarrow>
     if unit = 0 then show_nat (unat n) @ UNITS ! unit
     else show_tenths (tenths value) @ UNITS ! unit)"

text \<open>\<open>Duration::as_secs_f64\<close> of a number of nanoseconds, and \<open>u64::saturating_sub\<close>.\<close>

definition as_secs_f64 :: "nat \<Rightarrow> rat" where
  "as_secs_f64 ns = fadd (as_f64 (ns div 10 ^ 9)) (fdiv (as_f64 (ns mod 10 ^ 9)) (10 ^ 9))"

definition saturating_sub :: "u64 \<Rightarrow> u64 \<Rightarrow> u64" where
  "saturating_sub a b = (if a < b then 0 else a - b)"

section \<open>Reading the keys\<close>

datatype key_code = KeyChar char | KeyEsc | KeyOther nat
datatype modifier = Shift | Control | Alt

record key_event =
  code :: key_code
  modifiers :: "modifier list"

datatype term_event = Key key_event | OtherEvent

definition quit_key :: "key_event \<Rightarrow> bool" where
  "quit_key k \<longleftrightarrow> (code k = KeyChar (CHR ''q'') \<or> code k = KeyEsc) \<or>
     (code k = KeyChar (CHR ''c'') \<and> Control \<in> set (modifiers k))"

datatype tui_error = InitFailed string | EventFailed string | DrawFailed string

text \<open>The inner loop, on what each poll and read returns until a poll finds nothing.\<close>

fun drain_events :: "(string + term_event) list \<Rightarrow> tui_error + bool" where
  "drain_events [] = Inr False"
| "drain_events (Inl e # _) = Inl (EventFailed e)"
| "drain_events (Inr (Key k) # evs) = (if quit_key k then Inr True else drain_events evs)"
| "drain_events (Inr OtherEvent # evs) = drain_events evs"

section \<open>Sampling\<close>

record sample =
  seen_in :: u64
  seen_out :: u64
  seen_at :: nat

definition elapsed_secs :: "nat \<Rightarrow> rat" where
  "elapsed_secs ns = max (as_secs_f64 ns) (round_f64 (1 / 1000))"

definition take_sample :: "nat \<Rightarrow> totals \<Rightarrow> sample \<Rightarrow> rat \<times> rat" where
  "take_sample now t s =
     (let elapsed = elapsed_secs (now - seen_at s)
      in (fdiv (as_f64 (unat (saturating_sub (all_bytes_in t) (seen_in s)))) elapsed,
          fdiv (as_f64 (unat (saturating_sub (all_bytes_out t) (seen_out s)))) elapsed))"

definition next_sample :: "nat \<Rightarrow> totals \<Rightarrow> sample" where
  "next_sample now t = \<lparr>seen_in = all_bytes_in t, seen_out = all_bytes_out t, seen_at = now\<rparr>"

section \<open>Drawing\<close>

definition summary_text :: "totals \<Rightarrow> rat \<Rightarrow> rat \<Rightarrow> string" where
  "summary_text t rate_in rate_out =
     '' live: '' @ show_nat (live_connections t) @ ''   total conns: '' @ show_nat (unat (all_connections t)) @
     ''   in: '' @ human_bytes (all_bytes_in t) @ '' ('' @ human_bytes (as_u64 rate_in) @ ''/s)'' @
     ''   out: '' @ human_bytes (all_bytes_out t) @ '' ('' @ human_bytes (as_u64 rate_out) @ ''/s)''"

text \<open>A row; the counters are read as the row is drawn, from the cells the handle shares.\<close>

definition connection_row :: "(nat \<Rightarrow> u64) \<Rightarrow> (conn_info \<Rightarrow> nat) \<Rightarrow> conn_info \<Rightarrow> string list" where
  "connection_row counters duration c =
     [label c, show_protocol (protocol c), source c, destination c,
      human_bytes (counters (bytes_in c)), human_bytes (counters (bytes_out c)),
      show_whole (as_secs_f64 (duration c)) @ ''s'']"

text \<open>The columns, and the shares of the screen the layout is asked for.\<close>

datatype constraint = Length nat | Percentage nat | Min nat

definition table_header :: "string list" where
  "table_header = [''label'', ''proto'', ''source'', ''destination'', ''in'', ''out'', ''dur'']"

definition column_widths :: "constraint list" where
  "column_widths = [Percentage 20, Length 6, Percentage 22, Percentage 22, Length 10, Length 10, Length 8]"

definition screen_parts :: "constraint list" where
  "screen_parts = [Length 3, Min 5, Length 8, Length 1]"

definition visible_log :: "nat \<Rightarrow> string list \<Rightarrow> string list" where
  "visible_log height logged =
     (let visible_rows = height - 2; start = length logged - visible_rows in drop start logged)"

definition footer_text :: string where
  "footer_text = '' q / esc / ctrl+c: quit''"

record screen =
  summary :: string
  table :: "string list list"
  log_area :: "string list"
  footer :: string

definition render ::
  "(nat \<Rightarrow> u64) \<Rightarrow> (conn_info \<Rightarrow> nat) \<Rightarrow> nat \<Rightarrow> totals \<Rightarrow> rat \<Rightarrow> rat \<Rightarrow> conn_info list \<Rightarrow> string list \<Rightarrow> screen" where
  "render counters duration height t rate_in rate_out conns logged =
     \<lparr>summary = summary_text t rate_in rate_out, table = map (connection_row counters duration) conns,
      log_area = visible_log height logged, footer = footer_text\<rparr>"

section \<open>The loop\<close>

record tui_iter =
  polled :: "(string + term_event) list"
  at_totals :: registry
  at_live :: registry
  at_log :: registry
  at_draw :: registry
  clock :: nat
  reset_clock :: nat
  durations :: "conn_info \<Rightarrow> nat"
  log_height :: nat
  draw_error :: "string option"

datatype tui_end = Quit | Failed tui_error | Running sample

definition live_list :: "registry \<Rightarrow> conn_info list" where
  "live_list r = live r"

definition recent_log :: "registry \<Rightarrow> string list" where
  "recent_log r = log_lines r"

definition draw_iter :: "tui_iter \<Rightarrow> sample \<Rightarrow> screen" where
  "draw_iter it s =
     (let t = reg_totals (at_totals it); (rate_in, rate_out) = take_sample (clock it) t s
      in render (cells (at_draw it)) (durations it) (log_height it) t rate_in rate_out
           (live_list (at_live it)) (recent_log (at_log it)))"

fun tui_loop :: "sample \<Rightarrow> tui_iter list \<Rightarrow> tui_end \<times> screen list" where
  "tui_loop s [] = (Running s, [])"
| "tui_loop s (it # its) =
     (case drain_events (polled it) of
        Inl e \<Rightarrow> (Failed e, [])
      | Inr True \<Rightarrow> (Quit, [])
      | Inr False \<Rightarrow>
          (case draw_error it of
             Some e \<Rightarrow> (Failed (DrawFailed e), [])
           | None \<Rightarrow> (case tui_loop (next_sample (reset_clock it) (reg_totals (at_totals it))) its of
               (r, scs) \<Rightarrow> (r, draw_iter it s # scs))))"

text \<open>\<open>run\<close>; the first sample reads the totals once for each direction.\<close>

definition tui_run :: "string + nat \<Rightarrow> registry \<Rightarrow> registry \<Rightarrow> tui_iter list \<Rightarrow> tui_end \<times> screen list" where
  "tui_run init r_in r_out its = (case init of
     Inl e \<Rightarrow> (Failed (InitFailed e), [])
   | Inr now \<Rightarrow> tui_loop \<lparr>seen_in = all_bytes_in (reg_totals r_in),
       seen_out = all_bytes_out (reg_totals r_out), seen_at = now\<rparr> its)"

text \<open>
  \<open>main\<close> runs the work beside the view and returns what ends first: \<open>work\<close> and \<open>view\<close> are the time
  each takes and its result, \<open>None\<close> while it runs for ever. Headless, only the work counts. On a tie
  \<open>select!\<close> may take either; \<open>view_first\<close> says which.
\<close>

definition main_result :: "bool \<Rightarrow> bool \<Rightarrow> (nat \<times> 'r) option \<Rightarrow> (nat \<times> 'r) option \<Rightarrow> 'r option" where
  "main_result headless view_first work view =
     (if headless then map_option snd work
      else (case (work, view) of
        (None, None) \<Rightarrow> None
      | (Some (_, r), None) \<Rightarrow> Some r
      | (None, Some (_, r)) \<Rightarrow> Some r
      | (Some (t1, r1), Some (t2, r2)) \<Rightarrow>
          if t1 < t2 \<or> (t1 = t2 \<and> \<not> view_first) then Some r1 else Some r2))"

section \<open>Lemmas\<close>

lemma columns_agree:
  "length (connection_row counters duration c) = length table_header \<and> length column_widths = length table_header"
  by (simp add: connection_row_def table_header_def column_widths_def)

lemma show_nat_digit: "n < 10 \<Longrightarrow> show_nat n = [char_of (48 + n)]"
  by (simp add: show_nat.simps [of n])

lemma show_nat_digits: "10 \<le> n \<Longrightarrow> show_nat n = show_nat (n div 10) @ [char_of (48 + n mod 10)]"
  by (simp add: show_nat.simps [of n])

lemma fdiv_1024: "round_f64 v = v \<Longrightarrow> fdiv v 1024 = v / 1024"
  using round_f64_scale [of v "- 10"] by (simp add: fdiv_def power_int_minus field_simps)

lemma scale_bytes_fixed: "round_f64 v = v \<Longrightarrow> round_f64 (v / 1024) = v / 1024"
  using fdiv_1024 by (simp add: fdiv_def)

lemma scale_bytes_spec:
  "round_f64 v = v \<Longrightarrow> u \<le> 4 \<Longrightarrow> scale_bytes v u = (w, u') \<Longrightarrow>
     u \<le> u' \<and> u' \<le> 4 \<and> w = v / 1024 ^ (u' - u) \<and> (u < u' \<longrightarrow> 1 \<le> w) \<and> (u' < 4 \<longrightarrow> w < 1024)"
proof (induction v u arbitrary: w u' rule: scale_bytes.induct)
  case (1 v u)
  show ?case
  proof (cases "1024 \<le> v \<and> u < 4")
    case True
    with 1(4) have s: "scale_bytes (fdiv v 1024) (u + 1) = (w, u')"
      by (simp add: scale_bytes.simps [of v])
    from True have c: "1024 \<le> v \<and> u < length UNITS - 1" and u: "u + 1 \<le> 4" by simp_all
    have f: "round_f64 (fdiv v 1024) = fdiv v 1024"
      using scale_bytes_fixed [OF 1(2)] by (simp add: fdiv_1024 [OF 1(2)])
    note ih = 1(1) [OF c f u s, unfolded fdiv_1024 [OF 1(2)]]
    then have "u' - u = Suc (u' - (u + 1))" by linarith
    with ih have w: "w = v / 1024 ^ (u' - u)" by simp
    have "1 \<le> w"
    proof (cases "u + 1 < u'")
      case False
      with ih have "u' - u = 1" by linarith
      with w True show ?thesis by simp
    qed (use ih in blast)
    moreover from ih have "u \<le> u'" "u' \<le> 4" "u' < 4 \<longrightarrow> w < 1024" by (blast intro: order_trans [OF le_add1])+
    ultimately show ?thesis using w by blast
  next
    case False
    with 1 show ?thesis by (auto simp: scale_bytes.simps [of v])
  qed
qed

text \<open>The unit a number belongs to.\<close>

definition unit_of :: "nat \<Rightarrow> nat" where
  "unit_of n = (if n < 1024 then 0 else if n < 1024 ^ 2 then 1 else if n < 1024 ^ 3 then 2
     else if n < 1024 ^ 4 then 3 else 4)"

lemma unit_of_eqI:
  assumes "u \<le> 4" "0 < u \<Longrightarrow> 1024 ^ u \<le> n" "u < 4 \<Longrightarrow> n < 1024 ^ Suc u"
  shows "unit_of n = u"
proof -
  from assms(1) consider "u = 0" | "u = 1" | "u = 2" | "u = 3" | "u = 4" by linarith
  then show ?thesis using assms(2,3) by cases (auto simp: unit_of_def)
qed

lemma human_bytes_scaled:
  "human_bytes n = (if unat n < 1024 then show_nat (unat n) @ ''B''
     else show_tenths (tenths (as_f64 (unat n) / 1024 ^ unit_of (unat n))) @ UNITS ! unit_of (unat n))"
proof -
  obtain w u where s: "scale_bytes (as_f64 (unat n)) 0 = (w, u)" by force
  have spec: "u \<le> 4 \<and> w = as_f64 (unat n) / 1024 ^ (u - 0) \<and> (0 < u \<longrightarrow> 1 \<le> w) \<and> (u < 4 \<longrightarrow> w < 1024)"
    using scale_bytes_spec [OF as_f64_fixed _ s] by blast
  then have u: "u \<le> 4" and lo: "0 < u \<Longrightarrow> 1 \<le> w" and hi: "u < 4 \<Longrightarrow> w < 1024" by blast+
  from spec have w: "w = as_f64 (unat n) / 1024 ^ u" by simp
  have p: "(1024::nat) ^ k \<le> 2 ^ 53" if "k \<le> 4" for k
  proof -
    have "(1024::nat) ^ k \<le> 1024 ^ 4" using that by (intro power_increasing) auto
    then show ?thesis by simp
  qed
  have "unit_of (unat n) = u"
  proof (rule unit_of_eqI [OF u])
    assume "0 < u"
    from lo [OF this, unfolded w] have "(1024::rat) ^ u \<le> as_f64 (unat n)" by (simp add: le_divide_eq)
    with as_f64_less [OF p [OF u], of "unat n"] show "1024 ^ u \<le> unat n" by fastforce
  next
    assume "u < 4"
    from hi [OF this, unfolded w] have "as_f64 (unat n) < (1024::rat) ^ Suc u" by (simp add: divide_less_eq)
    moreover from \<open>u < 4\<close> have "Suc u \<le> 4" by simp
    ultimately show "unat n < 1024 ^ Suc u"
      using as_f64_ge [OF p [of "Suc u"], of "unat n"] by (metis linorder_not_le of_nat_numeral of_nat_power)
  qed
  moreover from this have "u = 0 \<longleftrightarrow> unat n < 1024" by (auto simp: unit_of_def split: if_splits)
  ultimately show ?thesis by (cases "u = 0") (simp_all add: human_bytes_def s w, simp_all add: UNITS_def)
qed

lemma run_reg_append: "run_reg (ps @ qs) st = run_reg qs (run_reg ps st)"
  by (induction ps st rule: run_reg.induct) simp_all

lemma run_ledger_append: "run_ledger (ps @ qs) L = run_ledger qs (run_ledger ps L)"
  by (induction ps L rule: run_ledger.induct) simp_all

lemma ops_ok_append: "ops_ok (ps @ qs) L \<longleftrightarrow> ops_ok ps L \<and> ops_ok qs (run_ledger ps L)"
  by (induction ps L rule: ops_ok.induct) auto

text \<open>The bytes a sequence of operations moves.\<close>

fun bytes_moved :: "(clocks \<times> reg_op) list \<Rightarrow> nat \<times> nat" where
  "bytes_moved [] = (0, 0)"
| "bytes_moved ((_, Moved i a b) # ps) = (case bytes_moved ps of (x, y) \<Rightarrow> (unat a + x, unat b + y))"
| "bytes_moved (_ # ps) = bytes_moved ps"

definition moved_in :: "(clocks \<times> reg_op) list \<Rightarrow> nat" where "moved_in ps = fst (bytes_moved ps)"
definition moved_out :: "(clocks \<times> reg_op) list \<Rightarrow> nat" where "moved_out ps = snd (bytes_moved ps)"

lemma moved_append: "moved_in (ps @ qs) = moved_in ps + moved_in qs \<and> moved_out (ps @ qs) = moved_out ps + moved_out qs"
  unfolding moved_in_def moved_out_def
  by (induction ps rule: bytes_moved.induct) (auto split: prod.splits)

lemma ledger_bytes:
  "ops_ok ps L \<Longrightarrow> sum_list (map fst (run_ledger ps L)) = sum_list (map fst L) + of_nat (moved_in ps)
     \<and> sum_list (map (\<lambda>row. fst (snd row)) (run_ledger ps L)) = sum_list (map (\<lambda>row. fst (snd row)) L) + of_nat (moved_out ps)"
proof (induction ps arbitrary: L)
  case Nil
  then show ?case by (simp add: moved_in_def moved_out_def)
next
  case (Cons q ps)
  obtain now p where q: "q = (now, p)" by (cases q)
  have ih: "sum_list (map fst (run_ledger ps (ledger_step p L))) = sum_list (map fst (ledger_step p L)) + of_nat (moved_in ps)
     \<and> sum_list (map (\<lambda>row. fst (snd row)) (run_ledger ps (ledger_step p L))) =
         sum_list (map (\<lambda>row. fst (snd row)) (ledger_step p L)) + of_nat (moved_out ps)"
    using Cons.IH [of "ledger_step p L"] Cons.prems q by simp
  show ?case
  proof (cases p)
    case (Moved i a b)
    obtain x y z where row: "L ! i = (x, y, z)" by (metis prod_cases3)
    from Cons.prems q Moved have i: "i < length L" by simp
    from sum_list_update_word [OF i, of fst "(x + a, y + b, z)"]
      sum_list_update_word [OF i, of "\<lambda>row. fst (snd row)" "(x + a, y + b, z)"]
    have "sum_list (map fst (ledger_step p L)) = sum_list (map fst L) + a"
      "sum_list (map (\<lambda>row. fst (snd row)) (ledger_step p L)) = sum_list (map (\<lambda>row. fst (snd row)) L) + b"
      by (simp_all add: Moved row algebra_simps)
    with ih show ?thesis
      by (simp add: q Moved moved_in_def moved_out_def algebra_simps split: prod.splits)
  next
    case (CloseConn i)
    obtain x y z where row: "L ! i = (x, y, z)" by (metis prod_cases3)
    from Cons.prems q CloseConn have i: "i < length L" by simp
    from sum_list_update_word [OF i, of fst "(x, y, False)"]
      sum_list_update_word [OF i, of "\<lambda>row. fst (snd row)" "(x, y, False)"]
    have "sum_list (map fst (ledger_step p L)) = sum_list (map fst L)"
      "sum_list (map (\<lambda>row. fst (snd row)) (ledger_step p L)) = sum_list (map (\<lambda>row. fst (snd row)) L)"
      by (simp_all add: CloseConn row algebra_simps)
    with ih show ?thesis by (simp add: q CloseConn moved_in_def moved_out_def)
  qed (use ih in \<open>simp_all add: q moved_in_def moved_out_def\<close>)
qed

lemma totals_bytes:
  assumes "ops_ok ps []"
  shows "all_bytes_in (ledger_totals (run_ledger ps [])) = of_nat (moved_in ps)
    \<and> all_bytes_out (ledger_totals (run_ledger ps [])) = of_nat (moved_out ps)"
  using ledger_bytes [OF assms] by (simp add: ledger_totals_def comp_def)

lemma totals_of_run:
  assumes "ops_ok ps []"
  shows "reg_totals (fst (run_reg ps (registry_new, []))) = ledger_totals (run_ledger ps [])"
  by (rule rep_totals [OF rep_run [OF reg_rep_new assms, of _ "snd (run_reg ps (registry_new, []))"]]) simp

lemma saturating_sub_nat:
  assumes "a + b < 2 ^ 64"
  shows "unat (saturating_sub (of_nat (a + b)) (of_nat a)) = b"
proof -
  have u: "unat (of_nat n :: u64) = n" if "n \<le> a + b" for n
    using that assms by (simp add: unat_of_nat take_bit_nat_eq_self)
  have "\<not> (of_nat (a + b) :: u64) < of_nat a"
    using u [of a] u [of "a + b"] by (simp add: word_less_nat_alt del: of_nat_add)
  then have "saturating_sub (of_nat (a + b)) (of_nat a) = of_nat b" by (simp add: saturating_sub_def)
  with u [of b] show ?thesis by simp
qed

text \<open>Which screens are drawn: the samples are chained from one iteration to the next.\<close>

definition sample_before :: "sample \<Rightarrow> tui_iter list \<Rightarrow> nat \<Rightarrow> sample" where
  "sample_before s its k = (case k of 0 \<Rightarrow> s
     | Suc j \<Rightarrow> next_sample (reset_clock (its ! j)) (reg_totals (at_totals (its ! j))))"

lemma tui_loop_screen:
  "tui_loop s its = (r, scs) \<Longrightarrow> k < length scs \<Longrightarrow>
     k < length its \<and> scs ! k = draw_iter (its ! k) (sample_before s its k)"
proof (induction s its arbitrary: r scs k rule: tui_loop.induct)
  case (1 s)
  then show ?case by simp
next
  case (2 s it its)
  from 2(2,3) obtain scs' where
    d: "drain_events (polled it) = Inr False" "draw_error it = None"
    and rest: "tui_loop (next_sample (reset_clock it) (reg_totals (at_totals it))) its = (r, scs')"
    and scs: "scs = draw_iter it s # scs'"
    by (auto split: sum.splits bool.splits option.splits prod.splits)
  show ?case
  proof (cases k)
    case 0
    with scs show ?thesis by (simp add: sample_before_def)
  next
    case (Suc j)
    with 2(3) scs have "j < length scs'" by simp
    from 2(1) [OF d(1) _ d(2) rest this] Suc scs show ?thesis
      by (cases j) (simp_all add: sample_before_def)
  qed
qed

text \<open>
  The view shows every byte count to the tenth. \<open>human_bytes\<close> picks the unit the number belongs
  to, prints a number below 1024 exactly, and else a number of tenths of that unit, within half a
  tenth of the count and the rounding of the conversion to a float, at most one part in
  \<open>2 ^ 53\<close>; for every 64-bit number, with no index out of the table of units.
\<close>

theorem human_bytes_accurate:
  "\<exists>d. human_bytes n =
       (if unat n < 1024 then show_nat (unat n) @ ''B'' else show_tenths d @ UNITS ! unit_of (unat n))
     \<and> unit_of (unat n) < length UNITS
     \<and> \<bar>rat_of_nat d * 1024 ^ unit_of (unat n) - 10 * rat_of_nat (unat n)\<bar>
         \<le> 1024 ^ unit_of (unat n) / 2 + 10 * rat_of_nat (unat n) / 2 ^ 53"
proof (rule exI [of _ "tenths (as_f64 (unat n) / 1024 ^ unit_of (unat n))"], intro conjI)
  let ?n = "rat_of_nat (unat n)" and ?v = "as_f64 (unat n)" and ?U = "(1024::rat) ^ unit_of (unat n)"
  let ?d = "tenths (?v / ?U)"
  have U: "0 < ?U" by simp
  have "\<bar>rat_of_nat ?d - 10 * (?v / ?U)\<bar> * ?U \<le> 1 / 2 * ?U"
    using tenths_close [of "?v / ?U"] U by (intro mult_right_mono) auto
  moreover have "\<bar>rat_of_nat ?d - 10 * (?v / ?U)\<bar> * ?U = \<bar>rat_of_nat ?d * ?U - 10 * ?v\<bar>"
    using U by (simp add: abs_mult_pos left_diff_distrib)
  moreover have "\<bar>?v - ?n\<bar> \<le> ?n / 2 ^ 53" by (rule as_f64_close)
  ultimately show "\<bar>rat_of_nat ?d * ?U - 10 * ?n\<bar> \<le> ?U / 2 + 10 * ?n / 2 ^ 53" by linarith
qed (simp add: human_bytes_scaled, simp add: unit_of_def)

text \<open>The unit is chosen before the rounding, so the last numbers below a unit print as 1024.0.\<close>

theorem human_bytes_overfull: "human_bytes 1048575 = ''1024.0KB''"
proof -
  have "as_f64 1048575 = 1048575" using as_f64_exact [of 1048575] by simp
  then have "tenths (as_f64 1048575 / 1024) = 10240" 
    using round_even_eqI [of "1048575 / 1024 * 10" 10240] by (simp add: tenths_def)
  moreover have "show_tenths 10240 = ''1024.0''"
    by (simp add: show_tenths_def show_nat_digit show_nat_digits char_of_def bit_0)
  ultimately show ?thesis by (simp add: human_bytes_scaled unit_of_def UNITS_def)
qed


lemma elapsed_second: "elapsed_secs 1000000000 = 1"
proof -
  have one: "round_f64 1 = (1::rat)" using round_f64_nat [of 1] by simp
  then have "round_f64 (1 / 1000) \<le> (1::rat)" using round_f64_mono [of "1 / 1000" 1] by simp
  with one show ?thesis
    by (simp add: elapsed_secs_def as_secs_f64_def fadd_def fdiv_def as_f64_def)
qed

definition sample_traffic :: "(clocks \<times> reg_op) list" where
  "sample_traffic = [((0, 9), OpenConn ''a'' Tcp ''s'' ''d''), ((1, 9), Moved 0 5 7)]"

definition sample_more :: "(clocks \<times> reg_op) list" where
  "sample_more = [((2, 9), Moved 0 3 1), ((3, 9), CloseConn 0)]"

definition sample_iter :: "(clocks \<times> reg_op) list \<Rightarrow> nat \<Rightarrow> (string + term_event) list \<Rightarrow> tui_iter" where
  "sample_iter ps now evs = (let r = fst (run_reg ps (registry_new, [])) in
     \<lparr>polled = evs, at_totals = r, at_live = r, at_log = r, at_draw = r, clock = now, reset_clock = now,
      durations = (\<lambda>_. 0), log_height = 8, draw_error = None\<rparr>)"


text \<open>
  The table has one row for each open connection, in the order they were opened, and no row for
  a closed one: its name and its two ends, and the bytes the ledger has for it, when the list and
  the counters are read at the same moment.
\<close>

theorem table_shows_open:
  assumes "ops_ok ps []" and "run_reg ps (registry_new, []) = (r, hs)"
    and "at_live it = r" and "at_draw it = r"
  shows "table (draw_iter it s) =
    map (\<lambda>i. [label (hs ! i), show_protocol (protocol (hs ! i)), source (hs ! i), destination (hs ! i),
         human_bytes (row_in (run_ledger ps [] ! i)), human_bytes (row_out (run_ledger ps [] ! i)),
         show_whole (as_secs_f64 (durations it (hs ! i))) @ ''s''])
      (filter (\<lambda>i. row_open (run_ledger ps [] ! i)) [0..<length (run_ledger ps [])])"
proof -
  note rep = rep_run [OF reg_rep_new assms(1,2)]
  then have "live r = map ((!) hs) (filter (\<lambda>i. row_open (run_ledger ps [] ! i)) [0..<length (run_ledger ps [])])"
    by (simp add: reg_rep_def live_ok_def)
  moreover have "bytes_in (hs ! i) = 2 * i" "bytes_out (hs ! i) = 2 * i + 1"
      "cells r (2 * i) = row_in (run_ledger ps [] ! i)" "cells r (2 * i + 1) = row_out (run_ledger ps [] ! i)"
    if "i < length (run_ledger ps [])" for i
    using rep that by (auto simp: reg_rep_def ids_ok_def cells_ok_def)
  ultimately show ?thesis
    by (auto simp: draw_iter_def render_def live_list_def assms(3,4) connection_row_def case_prod_beta Let_def)
qed

theorem table_shows_open_witness:
  "\<exists>it s. table (draw_iter it s) = [[''a'', ''tcp'', ''s'', ''d'', ''5B'', ''7B'', ''0s'']]"
proof -
  obtain r hs where run: "run_reg sample_traffic (registry_new, []) = (r, hs)" by force
  have ok: "ops_ok sample_traffic []" by (simp add: sample_traffic_def)
  define it where "it = sample_iter sample_traffic 0 []"
  have "at_live it = r" "at_draw it = r" and dur: "durations it = (\<lambda>_. 0)"
    by (simp_all add: it_def sample_iter_def Let_def run)
  note t = table_shows_open [OF ok run this(1,2)]
  have led: "run_ledger sample_traffic [] = [(5, 7, True)]" by (simp add: sample_traffic_def)
  have h: "label (hs ! 0) = ''a''" "protocol (hs ! 0) = Tcp" "source (hs ! 0) = ''s''" "destination (hs ! 0) = ''d''"
    using run by (auto simp: sample_traffic_def reg_open_def fetch_next_id_def new_cell_def Let_def)
  have z: "show_whole (as_secs_f64 0) = ''0''"
    by (simp add: as_secs_f64_def fadd_def fdiv_def as_f64_def show_whole_def round_even_def show_nat_digit char_of_def bit_0)
  show ?thesis
    by (rule exI [of _ it], rule exI [of _ undefined])
      (simp add: t led h dur z human_bytes_scaled show_nat_digit char_of_def bit_0 show_protocol_def)
qed

text \<open>
  The log area shows the newest events. Every screen drawn shows the formatted lines of the last
  events emitted up to its reading of the log, oldest first: as many as fit between the borders, and
  never more than the registry keeps; a log shorter than the area is shown whole, and an area without
  room shows nothing.
\<close>

theorem log_shows_last_events:
  assumes "tui_loop s its = (res, scs)" and "k < length scs"
    and "at_log (its ! k) = fst (run_reg ps (registry_new, hs))"
  shows "log_area (scs ! k) =
    drop (length (emitted (at_log (its ! k))) - min (log_height (its ! k) - 2) MAX_LOG_LINES)
      (map event_line (emitted (at_log (its ! k))))"
proof -
  have "log_ok (fst (registry_new, hs))" by (simp add: log_ok_def registry_new_def)
  from log_ok_run [OF this, of ps] have "log_ok (at_log (its ! k))" by (simp add: assms(3))
  then have "visible_log h (recent_log (at_log (its ! k))) =
      drop (length (emitted (at_log (its ! k))) - min (h - 2) MAX_LOG_LINES) (map event_line (emitted (at_log (its ! k))))" for h
    by (auto simp: visible_log_def recent_log_def log_ok_def Let_def min_def intro!: arg_cong2 [where f = drop])
  with tui_loop_screen [OF assms(1,2)] show ?thesis
    by (simp add: draw_iter_def render_def case_prod_beta Let_def)
qed

theorem log_shows_last_events_witness:
  "\<exists>s its res scs. tui_loop s its = (res, scs) \<and> length scs = 1 \<and>
     log_area (scs ! 0) = [''[info] one'', ''[info] two'', ''[info] three'', ''[info] four'', ''[info] five'', ''[info] six'']"
proof -
  let ?s = "\<lparr>seen_in = 0, seen_out = 0, seen_at = 0\<rparr>"
  let ?ps = "map (\<lambda>m. ((0, 0), Say (Info m)))
     [''zero'', ''one'', ''two'', ''three'', ''four'', ''five'', ''six''] :: (clocks \<times> reg_op) list"
  let ?its = "[sample_iter ?ps 0 []]"
  obtain res scs where run: "tui_loop ?s ?its = (res, scs)" by force
  then have len: "length scs = 1" by (auto simp: sample_iter_def Let_def split: prod.splits)
  have "log_area (scs ! 0) =
    drop (length (emitted (at_log (?its ! 0))) - min (log_height (?its ! 0) - 2) MAX_LOG_LINES)
      (map event_line (emitted (at_log (?its ! 0))))"
    by (rule log_shows_last_events [OF run, of 0 ?ps "[]"]) (simp_all add: len sample_iter_def Let_def)
  then have "log_area (scs ! 0) = [''[info] one'', ''[info] two'', ''[info] three'', ''[info] four'', ''[info] five'', ''[info] six'']"
    by (simp add: sample_iter_def Let_def registry_new_def MAX_LOG_LINES_def event_line_def)
  with run len show ?thesis by blast
qed

text \<open>What a poll may return without ending the view.\<close>

definition harmless :: "string + term_event \<Rightarrow> bool" where
  "harmless x = (case x of Inl _ \<Rightarrow> False | Inr OtherEvent \<Rightarrow> True | Inr (Key k) \<Rightarrow> \<not> quit_key k)"

definition asks_quit :: "string + term_event \<Rightarrow> bool" where
  "asks_quit x = (case x of Inr (Key k) \<Rightarrow> quit_key k | _ \<Rightarrow> False)"

definition quits :: "(string + term_event) list \<Rightarrow> bool" where
  "quits evs \<longleftrightarrow> (case dropWhile harmless evs of [] \<Rightarrow> False | x # _ \<Rightarrow> asks_quit x)"

definition clean :: "tui_iter \<Rightarrow> bool" where
  "clean it \<longleftrightarrow> list_all harmless (polled it) \<and> draw_error it = None"

lemma drain_no_quit: "drain_events evs = Inr False \<longleftrightarrow> list_all harmless evs"
  by (induction evs rule: drain_events.induct) (auto simp: harmless_def)

lemma drain_quit: "drain_events evs = Inr True \<longleftrightarrow> quits evs"
  by (induction evs rule: drain_events.induct) (auto simp: harmless_def quits_def asks_quit_def)

lemma quits_not_harmless: "quits evs \<Longrightarrow> \<not> list_all harmless evs"
  using drain_no_quit [of evs] drain_quit [of evs] by auto

text \<open>
  The view ends by itself on a quit key only. Taking the iterations up to the first that meets a
  failure or a quit key, one screen is drawn for each, and the view returns normally exactly when
  in the next iteration an event asks to quit (q, Esc or ctrl+c) before any failed poll or read; a
  failed poll, read or drawing never ends it normally.
\<close>

theorem view_quits_on_key:
  "length (snd (tui_loop s its)) = length (takeWhile clean its)
   \<and> (fst (tui_loop s its) = Quit \<longleftrightarrow> (case dropWhile clean its of [] \<Rightarrow> False | it # _ \<Rightarrow> quits (polled it)))"
proof (induction s its rule: tui_loop.induct)
  case (1 s)
  then show ?case by simp
next
  case (2 s it its)
  show ?case
  proof (cases "drain_events (polled it)")
    case (Inl e)
    then show ?thesis
      using drain_no_quit [of "polled it"] drain_quit [of "polled it"] by (simp add: clean_def)
  next
    case (Inr b)
    show ?thesis
    proof (cases b)
      case True
      with Inr show ?thesis
        using drain_no_quit [of "polled it"] drain_quit [of "polled it"] by (simp add: clean_def)
    next
      case False
      with Inr have d: "drain_events (polled it) = Inr False" by simp
      then have h: "list_all harmless (polled it)" "\<not> quits (polled it)"
        using drain_no_quit [of "polled it"] drain_quit [of "polled it"] by simp_all
      show ?thesis
      proof (cases "draw_error it")
        case None
        with 2 [OF d _ None] d h show ?thesis by (auto simp: clean_def split: prod.splits)
      next
        case (Some e)
        with d h show ?thesis by (simp add: clean_def)
      qed
    qed
  qed
qed

end
