(* ===== verification/Spec2Isabelle.thy ===== *)
theory Spec2Isabelle
  imports Sni Hub_System Hub_Slots Sni_Relay Cli Enroll Link_Control Shutdown Mux Serve_System Tenant_System Store_Watch Tunnel_Runs Tls Forward Udp_Forward Event_Log Tui
begin

text \<open>
  A model of erbridge, a TCP/UDP port forwarder with a reverse tunnel, and the theorems that make
  it correct. Paths are under \<open>src/crates/erbridge-core/src\<close> unless they say otherwise.

  \<^bold>\<open>The program.\<close> \<open>forward\<close> listens and splices each connection to a target, over plain TCP, TLS or
  Noise, and relays UDP datagrams by client address; \<open>client\<close> is its companion that speaks the
  transport for a plain program. In the reverse tunnel \<open>serve\<close> (A) waits for \<open>connect\<close> (B) to
  dial in; A then opens one stream of a multiplexer for each external connection, and B dials the
  local target the stream names. A multi-tenant \<open>serve\<close> has a store of tenants, authenticates B
  by the pre-shared key that its Noise handshake proves, and routes TLS connections by the host
  name of their ClientHello. \<open>serve-admin\<close> edits the store, \<open>enroll\<close> trades a single-use code for
  the credentials of a new tenant. Every connection is counted in one registry.

  \<^bold>\<open>Theories, in the order they build on each other.\<close>

  \<^item> \<open>Prelude\<close>: bytes and 64-bit words, errors as sums with \<open>rbind\<close> for the question mark, state
    steps, the string functions of the standard library that the parsers use.
  \<^item> \<open>Frame\<close> (\<open>reverse/mod.rs\<close>): \<open>write_frame\<close>, \<open>read_frame\<close>, \<open>constant_time_eq\<close>, over the locales
    \<open>exact_reader\<close> and \<open>byte_sink\<close>. Lemmas: round trip, error of every branch.
  \<^item> \<open>Sni\<close> (\<open>sni.rs\<close>): the ClientHello parser on the reader of \<open>Frame\<close>. Lemmas: it inverts an
    encoder of records, refuses every truncation, hands back what it peeked.
  \<^item> \<open>Psk\<close>, \<open>Noise_Stream\<close>, \<open>Noise_Handshake\<close> (\<open>noise.rs\<close>): keys and their text form; the
    polling encrypting stream (\<open>FrameReader\<close>, \<open>FrameWriter\<close>, \<open>NoiseStream\<close>) over any transport
    that keeps the poll contract; \<open>connect\<close>, \<open>accept\<close>, \<open>accept_any\<close>.
  \<^item> \<open>Tenants\<close> (\<open>tenant.rs\<close>): validation of a \<open>tenant_set\<close>, lookups, every edit, redemption.
    \<open>Tenant_Store\<close> (\<open>tenant_store.rs\<close>): the store trait as a locale, interpreted on the memory
    store and the file store; writers of the same file as interleaved steps with crashes.
  \<^item> \<open>Hub\<close>, \<open>Hub_System\<close> (\<open>reverse/tenant_serve.rs\<close>): each operation that takes a lock of the hub,
    then the tasks as a step relation, with the invariants behind isolation and revocation.
    \<open>Hub_Slots\<close>: the same tasks under the shutdown token, which may drop any of them, with the
    accounting of the two kinds of slots. \<open>Sni_Relay\<close>: \<open>handle_sni\<close> as a whole and the path of a
    TLS connection from its hello to the tenant's target. \<open>Tenant_System\<close>: the tasks with the
    multiplexer drivers of their sessions. \<open>Store_Watch\<close>: the same tasks with a store that changes
    under them, read by the reload loop and by enrollments. \<open>Enroll\<close> (\<open>reverse/enroll.rs\<close>): the client of an
    enrollment, and both ends together.
  \<^item> \<open>Registry\<close> (\<open>stats.rs\<close>): ids, byte counters as shared cells, live list, log. A refinement to
    a ledger of connections shows that no byte is lost. \<open>Event_Log\<close>: pushing an event as the tasks
    run it, lock by lock, and the log file across restarts.
  \<^item> \<open>Config\<close> (\<open>config.rs\<close>), \<open>Cli\<close> (\<open>cli.rs\<close>, \<open>main.rs\<close>, \<open>admin.rs\<close> of the crate \<open>erbridge\<close>):
    rules, checks, the parsers of the shorthands with a table of what they accept, the merge of
    flags and file for each command, the admin actions over any tenant store.
  \<^item> \<open>Pump\<close> (\<open>proxy.rs\<close>): the copy loop and the two-way splice, proved for every writer of the sink
    contract. \<open>Live_Pipe\<close>: the same tasks step by step, in routes of any number of splices with both
    sides talking; they refine a pair of links, and drain. \<open>Reverse_Tunnel\<close> (\<open>reverse/serve.rs\<close>
    \<open>relay\<close>, \<open>reverse/connect.rs\<close> \<open>handle_inbound_stream\<close>): one tunnelled connection, both ends as functions of
    their streams, and their composition. \<open>Live_Tunnel\<close>: the same two ends as interleaved steps over
    the stream between them while both peers talk, refining the routes of \<open>Live_Pipe\<close>.
    \<open>Tunnel_Runs\<close>: what its runs come to (transparent, drained, given up, counted).
  \<^item> \<open>Link_Control\<close> (\<open>reverse/serve.rs\<close>, \<open>reverse/connect.rs\<close>): starting to serve, the control slot
    as interleaved tasks, the reconnect loop, starting a multi-tenant serve. \<open>Mux\<close> (\<open>mux.rs\<close>): the
    driver task. \<open>Serve_System\<close>: the control slot, the drivers and the external clients of a
    single-tenant \<open>serve\<close> as one system, refining the control slot and each driver.
  \<^item> \<open>Shutdown\<close> (\<open>reverse/serve.rs\<close>, \<open>reverse/tenant_serve.rs\<close>, \<open>reverse/connect.rs\<close>): the
    loops that accept, the tasks they spawn and the shutdown token, one step for each poll of a
    task. Both roles return only when told to, and no run after that is endless.
  \<^item> \<open>Forward\<close> (\<open>forward.rs\<close> TCP, \<open>client.rs\<close>): start-up, the listeners, the token exchange, a
    connection from accept to close. \<open>Udp_Forward\<close> (\<open>forward.rs\<close> UDP): the session table under its three kinds of task.
    \<open>Tls\<close> (\<open>tls.rs\<close>): the two configurations of rustls, and what the client's verifier lets through.
  \<^item> \<open>Float64\<close>: the 64-bit floats of the program as rational numbers, rounded to the nearest. \<open>Tui\<close>
    (\<open>tui.rs\<close> of the crate \<open>erbridge\<close>): the live view, from the keys and the registry to the text
    of a screen. Lemmas: the summary, the table and the log against the history of the registry.

  \<^bold>\<open>Correspondence.\<close> A struct is a record, an enum a datatype, a \<open>u64\<close> a 64-bit word, a \<open>usize\<close> a
  natural number; every early return is a constructor of the component's error type. What several
  tasks share is a step relation whose steps are the code between two points where another task
  can run; sequential code over streams is a function of the bytes that will arrive (a \<open>feed\<close>) and
  of how many bytes may still be written (a \<open>sink\<close>). A future that never returns is an outcome of
  its own (\<open>Stalled\<close>, \<open>RelayPending\<close>, \<open>InboundPending\<close>, \<open>ConnPending\<close>), never an error return.

  \<^bold>\<open>Bounds and fuel.\<close> No definition has fuel: loops are structural, have a measure (\<open>pump\<close>: the
  bytes still to come), or are polls that return. Numbers that are drawn from a counter are
  distinct while fewer than \<open>2^64 - 1\<close> sessions, or \<open>2^64\<close> connections, were started, which the
  theorems assume; the backoff theorem assumes a maximum below \<open>2^63\<close> seconds, above which the
  doubling of the code wraps.

  \<^bold>\<open>Arguments of the model.\<close> The snow state machine, SHA-256 and the random bytes, the TOML and JSON
  codecs, the TLS handshake, dialling, the two polls of yamux, and the clocks. What is assumed of
  them is a hypothesis of the theorem that needs it: that decoding inverts encoding, that a Noise
  message verifies only under the key it was made with, that a mux stream delivers what was sent
  on it (\<open>carries\<close>), that ciphers on both ends match. In the step relations the same promise is a
  rule: bytes arrive in order and in pieces, the end of a stream after all of them once its writer was
  shut down. What a peer sees of a socket or a stream that is dropped after a failure is left to the
  operating system and to yamux: there a failed read is a failed step.

  \<^bold>\<open>Not modelled.\<close> \<open>lib.rs\<close> and the crate's examples and benchmarks hold no logic of the program.
  Of the modelled files: socket options, the texts of log messages other than the event lines, the
  terminal mode and its restoration, the layout and the styles of the view, the certificate that
  rcgen makes and the cryptography of rustls.

  \<^bold>\<open>What could come next.\<close> Every component with logic of its own is modelled. The models that share a
  part of the code could be joined further: the live tunnels of \<open>Live_Tunnel\<close> as the relays of
  \<open>Tenant_System\<close> (now an opened stream), and shutdown (\<open>Shutdown\<close>) while such tunnels run.
\<close>

end
